(* ===== verification/Tight_Prelude.thy ===== *)
theory Tight_Prelude
  imports Main "HOL-Library.Word"
begin

text \<open>
  Shared ground of the development: the machine types of the code, memory images of
  integers, byte buffers written by offset (\<open>std::memcpy\<close>), and generic lemmas on lists
  and words. The host is little-endian, as every platform the library is built for
  (x86-64, ARM): \<open>std::memcpy\<close> of an integer copies its least significant byte first.
\<close>

unbundle bit_operations_syntax

section \<open>Types\<close>

type_synonym u8 = "8 word"
type_synonym u16 = "16 word"
type_synonym u32 = "32 word"
type_synonym u64 = "64 word"
type_synonym bytes = "u8 list"

text \<open>Rules that compute sizes and reads of buffers, and rules that open codecs.\<close>

named_theorems buffer_simps
named_theorems codec_defs

section \<open>Lists\<close>

lemma nth_append_shift [simp]: "length xs = n \<Longrightarrow> (xs @ ys) ! (n + k) = ys ! k"
  by (auto simp: nth_append)

lemma list_eqI: "length xs = length ys \<Longrightarrow> (\<And>i. i < length ys \<Longrightarrow> xs ! i = ys ! i) \<Longrightarrow> xs = ys"
  by (auto intro: nth_equalityI)

lemma take_drop_update_outside:
  "j < i \<or> i + n \<le> j \<Longrightarrow> take n (drop i (xs[j := x])) = take n (drop i xs)"
  by (auto simp: drop_update_swap take_update_swap list_eq_iff_nth_eq nth_list_update)

lemma sum_list_map_nth: "sum_list (map f xs) = (\<Sum>i<length xs. f (xs ! i))"
  by (simp add: sum_list_sum_nth atLeast0LessThan)

lemma concat_take_Suc: "i < length xs \<Longrightarrow> concat (take (Suc i) xs) = concat (take i xs) @ xs ! i"
  by (simp add: take_Suc_conv_app_nth)

text \<open>A loop that rewrites the elements of a range in place.\<close>

lemma fold_update:
  "length (foldl (\<lambda>d i. d[i := f i (d ! i)]) d [a..<b]) = length d"
  "i < length d \<Longrightarrow> foldl (\<lambda>d i. d[i := f i (d ! i)]) d [a..<b] ! i =
     (if a \<le> i \<and> i < b then f i (d ! i) else d ! i)"
proof (induction b)
  case (Suc b)
  case 1 with Suc show ?case by simp
  case 2 with Suc show ?case by (cases "a \<le> b") (auto simp: nth_list_update less_Suc_eq)
qed simp_all

section \<open>Buffers\<close>

text \<open>\<open>std::memcpy(p + off, src, n)\<close> on a buffer large enough.\<close>

definition blit :: "nat \<Rightarrow> 'a list \<Rightarrow> 'a list \<Rightarrow> 'a list" where
  "blit off src p = take off p @ src @ drop (off + length src) p"

lemma length_blit [simp, buffer_simps]:
  "off + length src \<le> length p \<Longrightarrow> length (blit off src p) = length p"
  by (simp add: blit_def)

lemma nth_blit [buffer_simps]:
  "off + length src \<le> length p \<Longrightarrow> i < length p \<Longrightarrow>
   blit off src p ! i = (if off \<le> i \<and> i < off + length src then src ! (i - off) else p ! i)"
  by (auto simp: blit_def nth_append min_def)

lemma slice_blit_same [simp]:
  "off + length src \<le> length p \<Longrightarrow> n = length src \<Longrightarrow> take n (drop off (blit off src p)) = src"
  by (auto simp: blit_def)

lemma slice_blit_other:
  "off + length src \<le> length p \<Longrightarrow> i + n \<le> off \<or> off + length src \<le> i \<Longrightarrow>
   take n (drop i (blit off src p)) = take n (drop i p)"
  by (intro nth_equalityI) (auto simp: nth_blit)

lemma blit_append_prefix:
  "length xs = off \<Longrightarrow> length src \<le> length ys \<Longrightarrow>
   blit off src (xs @ ys) = xs @ src @ drop (length src) ys"
  by (simp add: blit_def)

text \<open>\<open>std::memset(p + off, 0, n)\<close>.\<close>

definition zero_fill :: "nat \<Rightarrow> nat \<Rightarrow> bytes \<Rightarrow> bytes" where
  "zero_fill off n p = blit off (replicate n 0) p"

text \<open>\<open>std::vector::resize(n, z)\<close>: cut or pad.\<close>

definition resize :: "nat \<Rightarrow> 'a \<Rightarrow> 'a list \<Rightarrow> 'a list" where
  "resize n z xs = take n xs @ replicate (n - length xs) z"

lemma length_resize [simp, buffer_simps]: "length (resize n z xs) = n"
  by (auto simp: resize_def)

lemma nth_resize [buffer_simps]:
  "i < n \<Longrightarrow> resize n z xs ! i = (if i < length xs then xs ! i else z)"
  by (auto simp: resize_def nth_append)

lemma resize_id [simp]: "length xs = n \<Longrightarrow> resize n z xs = xs"
  by (simp add: resize_def)

section \<open>Memory images of integers\<close>

definition mem16 :: "u16 \<Rightarrow> bytes" where
  "mem16 v = [ucast v, ucast (drop_bit 8 v)]"

definition mem32 :: "u32 \<Rightarrow> bytes" where
  "mem32 v = [ucast v, ucast (drop_bit 8 v), ucast (drop_bit 16 v), ucast (drop_bit 24 v)]"

definition mem64 :: "u64 \<Rightarrow> bytes" where
  "mem64 v = [ucast v, ucast (drop_bit 8 v), ucast (drop_bit 16 v), ucast (drop_bit 24 v),
     ucast (drop_bit 32 v), ucast (drop_bit 40 v), ucast (drop_bit 48 v), ucast (drop_bit 56 v)]"

text \<open>\<open>std::memcpy(&v, p + off, n)\<close>.\<close>

definition load16 :: "bytes \<Rightarrow> nat \<Rightarrow> u16" where
  "load16 p off = ucast (p ! off) OR push_bit 8 (ucast (p ! (off + 1)))"

definition load32 :: "bytes \<Rightarrow> nat \<Rightarrow> u32" where
  "load32 p off = ucast (p ! off) OR push_bit 8 (ucast (p ! (off + 1))) OR
     push_bit 16 (ucast (p ! (off + 2))) OR push_bit 24 (ucast (p ! (off + 3)))"

definition load64 :: "bytes \<Rightarrow> nat \<Rightarrow> u64" where
  "load64 p off = ucast (load32 p off) OR push_bit 32 (ucast (load32 p (off + 4)))"

lemma length_mem [simp, buffer_simps]:
  "length (mem16 v) = 2" "length (mem32 w) = 4" "length (mem64 x) = 8"
  by (simp_all add: mem16_def mem32_def mem64_def)

lemma take_drop_nth:
  "take n (drop off p) = q \<Longrightarrow> i < length q \<Longrightarrow> off + n \<le> length p \<Longrightarrow> p ! (off + i) = q ! i"
  by (auto simp: nth_append)

lemma join16: "ucast (ucast v :: u8) OR push_bit 8 (ucast (ucast (drop_bit 8 v) :: u8)) = (v :: u16)"
proof (rule bit_word_eqI)
  fix n :: nat
  show "bit (ucast (ucast v :: u8) OR push_bit 8 (ucast (ucast (drop_bit 8 v) :: u8)) :: u16) n = bit v n"
    if "n < LENGTH(16)"
    using that by (cases "n < 8") (auto simp: bit_simps)
qed

lemma join32:
  "ucast (ucast v :: u8) OR push_bit 8 (ucast (ucast (drop_bit 8 v) :: u8)) OR
   push_bit 16 (ucast (ucast (drop_bit 16 v) :: u8)) OR
   push_bit 24 (ucast (ucast (drop_bit 24 v) :: u8)) = (v :: u32)"  (is "?l = v")
proof (rule bit_word_eqI)
  fix n :: nat
  show "bit ?l n = bit v n" if "n < LENGTH(32)"
    using that by (cases "n < 8"; cases "n < 16"; cases "n < 24") (auto simp: bit_simps)
qed

lemma load16_mem:
  assumes "take 2 (drop off p) = mem16 v" and "off + 2 \<le> length p"
  shows "load16 p off = v"
  using take_drop_nth [OF assms(1), of 0] take_drop_nth [OF assms(1), of 1] assms(2)
  by (simp add: load16_def mem16_def join16)

lemma load32_mem:
  assumes "take 4 (drop off p) = mem32 v" and "off + 4 \<le> length p"
  shows "load32 p off = v"
  using take_drop_nth [OF assms(1), of 0] take_drop_nth [OF assms(1), of 1]
    take_drop_nth [OF assms(1), of 2] take_drop_nth [OF assms(1), of 3]
    assms(2) join32 [of v]
  by (simp add: load32_def mem32_def numeral_2_eq_2 numeral_3_eq_3)

lemma xor_cancel_right [simp]: "a XOR c = b XOR c \<longleftrightarrow> a = b" for a b c :: "'a::len word"
proof
  assume "a XOR c = b XOR c"
  then have "(a XOR c) XOR c = (b XOR c) XOR c"
    by (rule arg_cong)
  then show "a = b"
    by (simp only: xor.assoc xor_self_eq xor.right_neutral)
qed simp

lemma xor_cancel_left [simp]: "c XOR a = c XOR b \<longleftrightarrow> a = b" for a b c :: "'a::len word"
  by (simp only: xor.commute [of c] xor_cancel_right)

lemma u8_high [simp]: "8 \<le> n \<Longrightarrow> \<not> bit (v :: u8) n"
  using bit_imp_le_length [of v n] by auto

lemma u8_less [simp]: "unat (v :: u8) < 256"
  by (rule order.strict_trans2 [OF unsigned_less]) simp

lemma u16_less [simp]: "unat (v :: u16) < 65536"
  by (rule order.strict_trans2 [OF unsigned_less]) simp

lemma u32_less [simp]: "unat (v :: u32) < 4294967296"
  by (rule order.strict_trans2 [OF unsigned_less]) simp

end
