(* ===== verification/Wire.thy ===== *)
theory Wire
  imports Tight_Prelude
begin

text \<open>
  The datagram format: \<open>types.hpp\<close> (packet types and header), \<open>wire_format.hpp\<close>
  (constants and byte swapping), \<open>crc32.cpp\<close> (table-driven CRC-32) and
  \<open>packet_codec.cpp\<close> (the codec). The CRC table is shown equal to the bit-serial
  division by the polynomial, from which the codec's error detection follows.
\<close>

section \<open>Header\<close>

text \<open>\<open>enum class PacketType : uint8_t\<close>: \<open>static_cast\<close> admits any byte, so codes
  without an enumerator are values too.\<close>

datatype packet_type = Handshake | HandshakeAck | Online | Heartbeat | Bye | Data | Parity
  | Ack | Report | Probe | Command | Unnamed u8

definition type_code :: "packet_type \<Rightarrow> u8" where
  "type_code t = (case t of Handshake \<Rightarrow> 0 | HandshakeAck \<Rightarrow> 1 | Online \<Rightarrow> 2 | Heartbeat \<Rightarrow> 3
     | Bye \<Rightarrow> 4 | Data \<Rightarrow> 5 | Parity \<Rightarrow> 6 | Ack \<Rightarrow> 7 | Report \<Rightarrow> 8 | Probe \<Rightarrow> 9
     | Command \<Rightarrow> 10 | Unnamed b \<Rightarrow> b)"

definition type_of_code :: "u8 \<Rightarrow> packet_type" where
  "type_of_code b =
     (if b = 0 then Handshake else if b = 1 then HandshakeAck else if b = 2 then Online
      else if b = 3 then Heartbeat else if b = 4 then Bye else if b = 5 then Data
      else if b = 6 then Parity else if b = 7 then Ack else if b = 8 then Report
      else if b = 9 then Probe else if b = 10 then Command else Unnamed b)"

record packet_header =
  h_magic :: u32
  h_version :: u8
  h_type :: packet_type
  h_flags :: u16
  h_client_id :: u32
  h_session_id :: u64
  h_sequence :: u32
  h_acknowledgment :: u32
  h_message_id :: u32
  h_fragment_index :: u16
  h_fragment_count :: u16
  h_payload_size :: u16
  h_reserved :: u16
  h_tick :: u32
  h_checksum :: u32

definition kMagic :: u32 where "kMagic = 0x54474854"
definition kVersion :: u8 where "kVersion = 1"
definition kHeaderSize :: nat where "kHeaderSize = 48"
definition kFlagEncrypted :: u16 where "kFlagEncrypted = 0x8000"
definition kChannelShift :: nat where "kChannelShift = 12"
definition kChannelMask :: u16 where "kChannelMask = 0xF000"
definition kRealSizeMask :: u16 where "kRealSizeMask = 0x0FFF"

text \<open>\<open>PacketHeader{}\<close>.\<close>

definition zero_header :: packet_header where
  "zero_header = \<lparr> h_magic = 0, h_version = 0, h_type = Handshake, h_flags = 0, h_client_id = 0,
     h_session_id = 0, h_sequence = 0, h_acknowledgment = 0, h_message_id = 0,
     h_fragment_index = 0, h_fragment_count = 0, h_payload_size = 0, h_reserved = 0,
     h_tick = 0, h_checksum = 0 \<rparr>"

definition channel_of :: "u16 \<Rightarrow> u8" where
  "channel_of reserved = ucast (drop_bit kChannelShift (reserved AND kChannelMask))"

definition to_be16 :: "u16 \<Rightarrow> u16" where
  "to_be16 v = push_bit 8 (v AND 0x00FF) OR drop_bit 8 (v AND 0xFF00)"

definition to_be32 :: "u32 \<Rightarrow> u32" where
  "to_be32 v = push_bit 24 (v AND 0x000000FF) OR push_bit 8 (v AND 0x0000FF00) OR
     drop_bit 8 (v AND 0x00FF0000) OR drop_bit 24 (v AND 0xFF000000)"

definition to_be64 :: "u64 \<Rightarrow> u64" where
  "to_be64 v = push_bit 32 (ucast (to_be32 (ucast (drop_bit 32 v AND 0xFFFFFFFF)))) OR
     ucast (to_be32 (ucast (v AND 0xFFFFFFFF)))"

section \<open>CRC-32\<close>

text \<open>One shift of the division register, and the table of \<open>init_crc_table\<close>.\<close>

definition crc_bit :: "u32 \<Rightarrow> u32" where
  "crc_bit c = (if c AND 1 \<noteq> 0 then 0xEDB88320 XOR drop_bit 1 c else drop_bit 1 c)"

definition init_crc_table :: "u32 list" where
  "init_crc_table = map (\<lambda>i. (crc_bit ^^ 8) (word_of_nat i)) [0..<256]"

definition crc32_update :: "u32 \<Rightarrow> bytes \<Rightarrow> u32" where
  "crc32_update crc d =
     foldl (\<lambda>crc b. init_crc_table ! unat ((crc XOR ucast b) AND 0xFF) XOR drop_bit 8 crc) crc d"

definition crc32_compute :: "bytes \<Rightarrow> u32" where
  "crc32_compute d = crc32_update 0xFFFFFFFF d XOR 0xFFFFFFFF"

section \<open>Codec\<close>

definition put16 :: "nat \<Rightarrow> u16 \<Rightarrow> bytes \<Rightarrow> bytes" where
  "put16 off v p = blit off (mem16 (to_be16 v)) p"

definition put32 :: "nat \<Rightarrow> u32 \<Rightarrow> bytes \<Rightarrow> bytes" where
  "put32 off v p = blit off (mem32 (to_be32 v)) p"

definition put64 :: "nat \<Rightarrow> u64 \<Rightarrow> bytes \<Rightarrow> bytes" where
  "put64 off v p = blit off (mem64 (to_be64 v)) p"

definition encode_header_to :: "packet_header \<Rightarrow> bytes \<Rightarrow> bytes \<times> nat" where
  "encode_header_to h out =
    (let p = put32 0 (h_magic h) out;
         p = p[4 := h_version h];
         p = p[5 := type_code (h_type h)];
         p = put16 6 (h_flags h) p;
         p = put32 8 (h_client_id h) p;
         p = put64 12 (h_session_id h) p;
         p = put32 20 (h_sequence h) p;
         p = put32 24 (h_acknowledgment h) p;
         p = put32 28 (h_message_id h) p;
         p = put16 32 (h_fragment_index h) p;
         p = put16 34 (h_fragment_count h) p;
         p = put16 36 (h_payload_size h) p;
         p = put16 38 (h_reserved h) p;
         p = put32 40 (h_tick h) p;
         p = put32 44 0 p
     in (p, kHeaderSize))"

text \<open>The buffer may be longer than the datagram; \<open>n\<close> is the datagram's size.\<close>

definition finalize_crc :: "bytes \<Rightarrow> nat \<Rightarrow> bytes" where
  "finalize_crc d n =
    (if n < kHeaderSize then d
     else let d = zero_fill 44 4 d;
              crc = crc32_update 0xFFFFFFFF (take n d)
          in blit 44 (mem32 (to_be32 (crc XOR 0xFFFFFFFF))) d)"

definition encode_to :: "packet_header \<Rightarrow> bytes \<Rightarrow> bytes \<Rightarrow> bytes \<times> nat" where
  "encode_to h payload out =
    (let (p, total) = encode_header_to h out;
         (p, total) = (if payload \<noteq> [] then (blit kHeaderSize payload p, total + length payload)
                       else (p, total))
     in (finalize_crc p total, total))"

definition encode :: "packet_header \<Rightarrow> bytes \<Rightarrow> bytes" where
  "encode h payload = fst (encode_to h payload (replicate (kHeaderSize + length payload) 0))"

definition get16 :: "bytes \<Rightarrow> nat \<Rightarrow> u16" where
  "get16 p off = to_be16 (load16 p off)"

definition get32 :: "bytes \<Rightarrow> nat \<Rightarrow> u32" where
  "get32 p off = to_be32 (load32 p off)"

definition get64 :: "bytes \<Rightarrow> nat \<Rightarrow> u64" where
  "get64 p off = push_bit 32 (ucast (get32 p (off + 4))) OR ucast (get32 p off)"

text \<open>The header and the payload are out-parameters: a refused datagram may have
  overwritten the header already.\<close>

definition decode :: "bytes \<Rightarrow> packet_header \<Rightarrow> bytes \<Rightarrow> bool \<times> packet_header \<times> bytes" where
  "decode p header payload =
    (if length p < kHeaderSize then (False, header, payload)
     else if get32 p 0 \<noteq> kMagic then (False, header, payload)
     else if p ! 4 \<noteq> kVersion then (False, header, payload)
     else
       let header = \<lparr> h_magic = get32 p 0, h_version = p ! 4, h_type = type_of_code (p ! 5),
             h_flags = get16 p 6, h_client_id = get32 p 8, h_session_id = get64 p 12,
             h_sequence = get32 p 20, h_acknowledgment = get32 p 24, h_message_id = get32 p 28,
             h_fragment_index = get16 p 32, h_fragment_count = get16 p 34,
             h_payload_size = get16 p 36, h_reserved = get16 p 38, h_tick = get32 p 40,
             h_checksum = get32 p 44 \<rparr>;
           payload_size = unat (h_payload_size header)
       in if length p < kHeaderSize + payload_size then (False, header, payload)
          else
            let crc = crc32_update 0xFFFFFFFF (take 44 p);
                crc = crc32_update crc [0, 0, 0, 0];
                crc = crc32_update crc (take payload_size (drop kHeaderSize p))
            in if crc XOR 0xFFFFFFFF \<noteq> h_checksum header then (False, header, payload)
               else (True, header, take payload_size (drop kHeaderSize p)))"

section \<open>Byte order\<close>

lemma mask_bytes:
  "(0x00FF :: u16) = mask 8" "(0xFF00 :: u16) = push_bit 8 (mask 8)"
  "(0x000000FF :: u32) = mask 8" "(0x0000FF00 :: u32) = push_bit 8 (mask 8)"
  "(0x00FF0000 :: u32) = push_bit 16 (mask 8)" "(0xFF000000 :: u32) = push_bit 24 (mask 8)"
  "(0xFFFFFFFF :: u64) = mask 32"
  by (simp_all add: mask_eq_exp_minus_1 push_bit_eq_mult)

lemma bit_to_be16: "n < 16 \<Longrightarrow> bit (to_be16 v) n = bit v (if n < 8 then n + 8 else n - 8)"
  unfolding to_be16_def mask_bytes by (cases "n < 8") (auto simp: bit_simps add.commute)

lemma bit_to_be32:
  "n < 32 \<Longrightarrow> bit (to_be32 v) n = bit v (if n < 8 then n + 24 else if n < 16 then n + 8
     else if n < 24 then n - 8 else n - 24)"
  unfolding to_be32_def mask_bytes
  by (cases "n < 8"; cases "n < 16"; cases "n < 24") (auto simp: bit_simps add.commute)

lemma to_be16_to_be16 [simp]: "to_be16 (to_be16 v) = v"
  by (rule bit_word_eqI) (auto simp: bit_to_be16)

lemma to_be32_to_be32 [simp]: "to_be32 (to_be32 v) = v"
  by (rule bit_word_eqI) (auto simp: bit_to_be32)

lemma to_be32_inject [simp]: "to_be32 v = to_be32 w \<longleftrightarrow> v = w"
  by (metis to_be32_to_be32)

lemma to_be64_halves:
  "to_be64 v = push_bit 32 (ucast (to_be32 (ucast (drop_bit 32 v)))) OR ucast (to_be32 (ucast v))"
proof -
  have "ucast (w AND mask 32) = (ucast w :: u32)" for w :: u64
    by (rule bit_word_eqI) (auto simp: bit_simps)
  then show ?thesis
    by (simp add: to_be64_def mask_bytes)
qed

lemma bit_to_be64:
  "n < 64 \<Longrightarrow> bit (to_be64 v) n =
     (if n < 32 then bit (to_be32 (ucast v)) n else bit (to_be32 (ucast (drop_bit 32 v))) (n - 32))"
  unfolding to_be64_halves using bit_imp_le_length [of "to_be32 (ucast v)" n]
  by (auto simp: bit_simps)

lemma mem64_to_be64:
  "mem64 (to_be64 v) = mem32 (to_be32 (ucast v)) @ mem32 (to_be32 (ucast (drop_bit 32 v)))"
proof -
  have *: "ucast (drop_bit k (to_be64 v)) = (ucast (drop_bit k (to_be32 (ucast v))) :: u8)"
    if "k \<le> 24" for k
    using that by (intro bit_word_eqI) (auto simp: bit_simps bit_to_be64)
  have **: "ucast (drop_bit (32 + k) (to_be64 v)) =
      (ucast (drop_bit k (to_be32 (ucast (drop_bit 32 v)))) :: u8)" if "k \<le> 24" for k
    using that by (intro bit_word_eqI) (auto simp: bit_simps bit_to_be64)
  show ?thesis
    using * [of 0] * [of 8] * [of 16] * [of 24] ** [of 0] ** [of 8] ** [of 16] ** [of 24]
    by (simp add: mem64_def mem32_def)
qed

section \<open>Reading back what was written\<close>

lemma length_put [simp, buffer_simps]:
  "off + 2 \<le> length p \<Longrightarrow> length (put16 off a p) = length p"
  "off + 4 \<le> length p \<Longrightarrow> length (put32 off b p) = length p"
  "off + 8 \<le> length p \<Longrightarrow> length (put64 off c p) = length p"
  by (simp_all add: put16_def put32_def put64_def)

lemma put64_put32:
  "off + 8 \<le> length p \<Longrightarrow>
   put64 off v p = put32 (off + 4) (ucast (drop_bit 32 v)) (put32 off (ucast v) p)"
  unfolding put64_def put32_def mem64_to_be64
  by (intro nth_equalityI) (auto simp: nth_blit nth_append)

lemma nth_put [buffer_simps]:
  "off + 2 \<le> length p \<Longrightarrow> i < length p \<Longrightarrow> i < off \<or> off + 2 \<le> i \<Longrightarrow> put16 off a p ! i = p ! i"
  "off + 4 \<le> length p \<Longrightarrow> i < length p \<Longrightarrow> i < off \<or> off + 4 \<le> i \<Longrightarrow> put32 off b p ! i = p ! i"
  "off + 8 \<le> length p \<Longrightarrow> i < length p \<Longrightarrow> i < off \<or> off + 8 \<le> i \<Longrightarrow> put64 off c p ! i = p ! i"
  by (auto simp: put16_def put32_def put64_def nth_blit)

lemma get16_put16 [buffer_simps]: "off + 2 \<le> length p \<Longrightarrow> get16 (put16 off v p) off = v"
  by (simp add: get16_def put16_def load16_mem [where v = "to_be16 v"])

lemma get32_put32 [buffer_simps]: "off + 4 \<le> length p \<Longrightarrow> get32 (put32 off v p) off = v"
  by (simp add: get32_def put32_def load32_mem [where v = "to_be32 v"])

lemma get16_cong: "q ! i = p ! i \<Longrightarrow> q ! (i + 1) = p ! (i + 1) \<Longrightarrow> get16 q i = get16 p i"
  by (simp add: get16_def load16_def)

lemma get32_cong:
  assumes "\<And>j. j < 4 \<Longrightarrow> q ! (i + j) = p ! (i + j)"
  shows "get32 q i = get32 p i"
  using assms [of 0] assms [of 1] assms [of 2] assms [of 3] by (simp add: get32_def load32_def)

lemma get_append [buffer_simps]:
  "length xs \<le> off \<Longrightarrow> get16 (xs @ ys) off = get16 ys (off - length xs)"
  "length xs \<le> off \<Longrightarrow> get32 (xs @ ys) off = get32 ys (off - length xs)"
  by (auto simp: get16_def get32_def load16_def load32_def nth_append Suc_diff_le)

lemma get_Cons [buffer_simps]:
  "0 < off \<Longrightarrow> get16 (x # ys) off = get16 ys (off - 1)"
  "0 < off \<Longrightarrow> get32 (x # ys) off = get32 ys (off - 1)"
  by (auto simp: get16_def get32_def load16_def load32_def nth_Cons')

lemma get16_mem16 [buffer_simps]: "get16 (mem16 (to_be16 v) @ ys) 0 = v"
  by (simp add: get16_def load16_mem [where v = "to_be16 v"])

lemma get32_mem32 [buffer_simps]: "get32 (mem32 (to_be32 v) @ ys) 0 = v"
  by (simp add: get32_def load32_mem [where v = "to_be32 v"])

section \<open>The encoded datagram\<close>

text \<open>The 44 bytes of the header before the checksum, in wire order.\<close>

definition header_bytes :: "packet_header \<Rightarrow> bytes" where
  "header_bytes h = mem32 (to_be32 (h_magic h)) @ [h_version h] @ [type_code (h_type h)] @
     mem16 (to_be16 (h_flags h)) @ mem32 (to_be32 (h_client_id h)) @
     mem32 (to_be32 (ucast (h_session_id h))) @
     mem32 (to_be32 (ucast (drop_bit 32 (h_session_id h)))) @
     mem32 (to_be32 (h_sequence h)) @ mem32 (to_be32 (h_acknowledgment h)) @
     mem32 (to_be32 (h_message_id h)) @ mem16 (to_be16 (h_fragment_index h)) @
     mem16 (to_be16 (h_fragment_count h)) @ mem16 (to_be16 (h_payload_size h)) @
     mem16 (to_be16 (h_reserved h)) @ mem32 (to_be32 (h_tick h))"

lemma length_header_bytes [simp, buffer_simps]: "length (header_bytes h) = 44"
  by (simp add: header_bytes_def)

lemma blit_at_end: "length xs = off \<Longrightarrow> off + length src \<le> length p \<Longrightarrow>
    blit off src (xs @ drop off p) = (xs @ src) @ drop (off + length src) p"
  by (simp add: blit_def add.commute)

lemma update_at_end: "length xs = i \<Longrightarrow> i < length p \<Longrightarrow>
    (xs @ drop i p)[i := v] = (xs @ [v]) @ drop (i + 1) p"
  by (simp add: list_update_append Cons_nth_drop_Suc [symmetric])

lemma encode_header_to_bytes:
  assumes "48 \<le> length out"
  shows "encode_header_to h out = (header_bytes h @ [0, 0, 0, 0] @ drop 48 out, 48)"
proof -
  have z: "mem32 (to_be32 0) = [0, 0, 0, 0]"
    by (simp add: mem32_def to_be32_def)
  have "put32 0 (h_magic h) out = mem32 (to_be32 (h_magic h)) @ drop 4 out"
    using assms blit_at_end [of "[]" 0 "mem32 (to_be32 (h_magic h))" out] by (simp add: put32_def)
  then show ?thesis
    using assms
    by (simp add: encode_header_to_def Let_def put16_def put32_def put64_def mem64_to_be64 kHeaderSize_def
        blit_at_end update_at_end z header_bytes_def del: append_assoc)
qed

definition datagram :: "packet_header \<Rightarrow> bytes \<Rightarrow> bytes" where
  "datagram h payload = header_bytes h @
     mem32 (to_be32 (crc32_compute (header_bytes h @ [0, 0, 0, 0] @ payload))) @ payload"

lemma length_datagram [simp]: "length (datagram h payload) = 48 + length payload"
  by (simp add: datagram_def)

lemma crc32_update_append [simp]: "crc32_update c (xs @ ys) = crc32_update (crc32_update c xs) ys"
  by (simp add: crc32_update_def)

lemma finalize_crc_bytes:
  assumes "length hb = 44" "length z = 4"
  shows "finalize_crc (hb @ z @ payload @ rest) (48 + length payload) =
    hb @ mem32 (to_be32 (crc32_compute (hb @ [0, 0, 0, 0] @ payload))) @ payload @ rest"
proof -
  have "zero_fill 44 4 (hb @ z @ payload @ rest) = hb @ [0, 0, 0, 0] @ payload @ rest"
    using assms by (simp add: zero_fill_def blit_def numeral_eq_Suc)
  then show ?thesis
    using assms by (simp add: finalize_crc_def kHeaderSize_def Let_def blit_def crc32_compute_def take_Cons')
qed

lemma encode_to_datagram:
  assumes "48 + length payload \<le> length out"
  shows "encode_to h payload out =
    (datagram h payload @ drop (48 + length payload) out, 48 + length payload)"
proof -
  have "blit 48 payload (header_bytes h @ [0, 0, 0, 0] @ drop 48 out) =
      header_bytes h @ [0, 0, 0, 0] @ payload @ drop (48 + length payload) out"
    using assms by (simp add: blit_def drop_Cons' add.commute)
  moreover have "finalize_crc (header_bytes h @ [0, 0, 0, 0] @ payload @ drop (48 + length payload) out)
      (48 + length payload) = datagram h payload @ drop (48 + length payload) out"
    by (subst finalize_crc_bytes) (simp_all add: datagram_def)
  ultimately show ?thesis
    using assms finalize_crc_bytes [of "header_bytes h" "[0, 0, 0, 0]" "[]" "drop 48 out"]
    by (auto simp: encode_to_def encode_header_to_bytes kHeaderSize_def Let_def datagram_def)
qed

lemma encode_datagram: "encode h payload = datagram h payload"
  by (simp add: encode_def encode_to_datagram kHeaderSize_def)

section \<open>Round trip\<close>

lemma type_of_code_type_code: "type_code (type_of_code b) = b"
  by (simp add: type_code_def type_of_code_def)

lemma type_code_type_of_code: "(\<forall>b. t \<noteq> Unnamed b) \<Longrightarrow> type_of_code (type_code t) = t"
  by (cases t) (simp_all add: type_code_def type_of_code_def)

lemma session_halves:
  "push_bit 32 (ucast (ucast (drop_bit 32 v) :: u32)) OR ucast (ucast v :: u32) = (v :: u64)"
proof (rule bit_word_eqI)
  fix n :: nat
  show "bit (push_bit 32 (ucast (ucast (drop_bit 32 v) :: u32)) OR ucast (ucast v :: u32) :: u64) n
      = bit v n" if "n < LENGTH(64)"
    using that by (cases "n < 32") (auto simp: bit_simps)
qed

definition sealed_header :: "packet_header \<Rightarrow> bytes \<Rightarrow> packet_header" where
  "sealed_header h payload = h\<lparr> h_type := type_of_code (type_code (h_type h)),
     h_checksum := crc32_compute (header_bytes h @ [0, 0, 0, 0] @ payload) \<rparr>"

lemma get_datagram [simp]:
  "get32 (datagram h pl @ r) 0 = h_magic h"
  "(datagram h pl @ r) ! 4 = h_version h"
  "(datagram h pl @ r) ! 5 = type_code (h_type h)"
  "get16 (datagram h pl @ r) 6 = h_flags h"
  "get32 (datagram h pl @ r) 8 = h_client_id h"
  "get64 (datagram h pl @ r) 12 = h_session_id h"
  "get32 (datagram h pl @ r) 20 = h_sequence h"
  "get32 (datagram h pl @ r) 24 = h_acknowledgment h"
  "get32 (datagram h pl @ r) 28 = h_message_id h"
  "get16 (datagram h pl @ r) 32 = h_fragment_index h"
  "get16 (datagram h pl @ r) 34 = h_fragment_count h"
  "get16 (datagram h pl @ r) 36 = h_payload_size h"
  "get16 (datagram h pl @ r) 38 = h_reserved h"
  "get32 (datagram h pl @ r) 40 = h_tick h"
  by (simp_all add: datagram_def header_bytes_def buffer_simps get64_def session_halves nth_append)

lemma get_datagram_checksum [simp]:
  "get32 (datagram h pl @ r) 44 = crc32_compute (header_bytes h @ [0, 0, 0, 0] @ pl)"
  by (simp add: datagram_def buffer_simps)

lemma datagram_parts [simp]:
  "take 44 (datagram h pl @ r) = header_bytes h"
  "drop 48 (datagram h pl @ r) = pl @ r"
  "take 44 (datagram h pl) = header_bytes h"
  "drop 48 (datagram h pl) = pl"
  by (simp_all add: datagram_def)

lemma decode_datagram:
  assumes "h_magic h = kMagic" "h_version h = kVersion" "length pl = unat (h_payload_size h)"
  shows "decode (datagram h pl @ rest) h0 p0 = (True, sealed_header h pl, pl)"
  using assms
  by (simp add: decode_def sealed_header_def kHeaderSize_def Let_def crc32_compute_def)
    (simp add: crc32_update_def)

section \<open>What the checksum detects\<close>

lemma crc_bit_odd: "crc_bit c = (if bit c 0 then 0xEDB88320 else 0) XOR drop_bit 1 c"
  by (auto simp: crc_bit_def and_one_eq bit_0 odd_iff_mod_2_eq_one even_iff_mod_2_eq_zero)

lemma crc_bit_xor: "crc_bit (a XOR b) = crc_bit a XOR crc_bit b"
  unfolding crc_bit_odd by (intro bit_word_eqI) (auto simp: bit_simps)

lemma crc_bit_funpow_xor: "(crc_bit ^^ n) (a XOR b) = (crc_bit ^^ n) a XOR (crc_bit ^^ n) b"
  by (induction n) (simp_all add: crc_bit_xor)

lemma bit_crc_bit_31: "bit (crc_bit c) 31 = bit c 0"
  unfolding crc_bit_odd using bit_imp_le_length [of c 32] by (auto simp: bit_simps)

lemma crc_bit_eq_0:
  assumes "crc_bit c = 0"
  shows "c = 0"
proof (rule bit_word_eqI)
  fix n :: nat
  have 0: "\<not> bit c 0"
    using bit_crc_bit_31 [of c] assms by simp
  then have "drop_bit 1 c = 0"
    using assms by (simp add: crc_bit_odd)
  moreover have "bit (drop_bit 1 c) m = bit c (Suc m)" for m
    by (simp add: bit_simps)
  ultimately have "bit c (Suc m) = False" for m
    by simp
  with 0 show "bit c n = bit 0 n"
    by (cases n) simp_all
qed

lemma crc_bit_funpow_inject: "(crc_bit ^^ n) a = (crc_bit ^^ n) b \<longleftrightarrow> a = b"
proof
  assume eq: "(crc_bit ^^ n) a = (crc_bit ^^ n) b"
  have "(crc_bit ^^ n) c = 0 \<Longrightarrow> c = 0" for c
    by (induction n) (auto dest: crc_bit_eq_0)
  from this [of "a XOR b"] eq have "a XOR b = 0"
    by (simp add: crc_bit_funpow_xor)
  then have "(a XOR b) XOR b = b"
    by simp
  then show "a = b"
    by (simp add: xor.assoc)
qed simp

lemma crc_bit_funpow_low: "(\<And>i. i < k \<Longrightarrow> \<not> bit c i) \<Longrightarrow> (crc_bit ^^ k) c = drop_bit k c"
proof (induction k arbitrary: c)
  case (Suc k)
  have "crc_bit c = drop_bit 1 c"
    using Suc.prems [of 0] by (simp add: crc_bit_odd)
  moreover have "(crc_bit ^^ k) (drop_bit 1 c) = drop_bit k (drop_bit 1 c)"
    using Suc.prems by (intro Suc.IH) (simp add: bit_simps)
  ultimately show ?case
    by (simp add: funpow_Suc_right del: funpow.simps)
qed simp

text \<open>The table step is eight shifts of the register.\<close>

definition crc_byte :: "u32 \<Rightarrow> u8 \<Rightarrow> u32" where
  "crc_byte crc b = (crc_bit ^^ 8) (crc XOR ucast b)"

lemma crc_table_step:
  "init_crc_table ! unat (c AND 0xFF) XOR drop_bit 8 c = (crc_bit ^^ 8) c"
proof -
  have mask: "(0xFF :: u32) = mask 8"
    by (simp add: mask_eq_exp_minus_1)
  have lt: "unat (c AND mask 8) < 256"
    by (simp flip: take_bit_eq_mask add: unsigned_take_bit_eq take_bit_nat_def)
  have split: "c = (c AND mask 8) XOR push_bit 8 (drop_bit 8 c)"
    by (rule bit_word_eqI) (auto simp: bit_simps)
  have "(crc_bit ^^ 8) (push_bit 8 (drop_bit 8 c)) = drop_bit 8 (push_bit 8 (drop_bit 8 c))"
    by (rule crc_bit_funpow_low) (simp add: bit_simps)
  also have "\<dots> = drop_bit 8 c"
    by (rule bit_word_eqI) (auto simp: bit_simps dest: bit_imp_le_length)
  finally have "(crc_bit ^^ 8) c = (crc_bit ^^ 8) (c AND mask 8) XOR drop_bit 8 c"
    by (subst split) (simp add: crc_bit_funpow_xor)
  with lt show ?thesis
    by (simp add: init_crc_table_def mask)
qed

lemma crc32_update_bytes: "crc32_update c d = foldl crc_byte c d"
proof -
  have "init_crc_table ! unat ((c XOR ucast b) AND 0xFF) XOR drop_bit 8 c = crc_byte c b" for c b
  proof -
    have "drop_bit 8 (c XOR ucast b) = drop_bit 8 c"
      using bit_imp_le_length [of b] by (intro bit_word_eqI) (auto simp: bit_simps)
    then show ?thesis
      using crc_table_step [of "c XOR ucast b"] by (simp add: crc_byte_def)
  qed
  then show ?thesis
    by (simp add: crc32_update_def)
qed

lemma crc_byte_inject [simp]: "crc_byte a y = crc_byte b y \<longleftrightarrow> a = b"
  by (simp add: crc_byte_def crc_bit_funpow_inject del: funpow.simps)

lemma foldl_crc_byte_inject:
  "foldl crc_byte a ys = foldl crc_byte b ys \<longleftrightarrow> a = b"
  by (induction ys arbitrary: a b) simp_all

text \<open>Up to four bytes shifted into the register, read as one little-endian number.\<close>

fun le_word :: "bytes \<Rightarrow> u32" where
  "le_word [] = 0"
| "le_word (b # m) = ucast b XOR push_bit 8 (le_word m)"

lemma le_word_bound: "8 * length m \<le> n \<Longrightarrow> \<not> bit (le_word m) n"
proof (induction m arbitrary: n)
  case (Cons b m)
  then show ?case
    using bit_imp_le_length [of b n] by (auto simp: bit_simps)
qed simp

lemma foldl_crc_byte_le_word:
  "length m \<le> 4 \<Longrightarrow> foldl crc_byte s m = (crc_bit ^^ (8 * length m)) (s XOR le_word m)"
proof (induction m arbitrary: s)
  case (Cons b m)
  let ?f = "crc_bit ^^ 8"
  have "?f (push_bit 8 (le_word m)) = drop_bit 8 (push_bit 8 (le_word m))"
    by (rule crc_bit_funpow_low) (simp add: bit_simps)
  also have "\<dots> = le_word m"
  proof (rule bit_word_eqI)
    show "bit (drop_bit 8 (push_bit 8 (le_word m))) n = bit (le_word m) n" for n
      using Cons.prems le_word_bound [of m n] by (cases "n < 24") (auto simp: bit_simps)
  qed
  finally have "?f (s XOR ucast b) XOR le_word m = ?f (s XOR le_word (b # m))"
    by (simp add: crc_bit_funpow_xor del: funpow.simps flip: xor.assoc)
  then have "foldl crc_byte s (b # m) = (crc_bit ^^ (8 * length m)) (?f (s XOR le_word (b # m)))"
    using Cons by (simp add: crc_byte_def [of s b] del: funpow.simps le_word.simps)
  moreover have "8 * length (b # m) = 8 * length m + 8"
    by simp
  ultimately show ?case
    by (simp only: funpow_add o_apply)
qed simp

lemma le_word_inject: "length m = length m' \<Longrightarrow> length m \<le> 4 \<Longrightarrow> le_word m = le_word m' \<longleftrightarrow> m = m'"
proof (induction m m' rule: list_induct2)
  case (Cons b m b' m')
  show ?case
  proof
    assume eq: "le_word (b # m) = le_word (b' # m')"
    have "b = b'"
    proof (rule bit_word_eqI)
      show "bit b n = bit b' n" if "n < LENGTH(8)" for n
        using arg_cong [OF eq, of "\<lambda>w. bit w n"] that by (simp add: bit_simps)
    qed
    moreover have "le_word m = le_word m'"
    proof (rule bit_word_eqI)
      show "bit (le_word m) n = bit (le_word m') n" if "n < LENGTH(32)" for n
      proof (cases "n < 24")
        case True
        then show ?thesis
          using arg_cong [OF eq, of "\<lambda>w. bit w (n + 8)"] bit_imp_le_length [of b "n + 8"]
            bit_imp_le_length [of b' "n + 8"] by (auto simp: bit_simps)
      qed (use Cons le_word_bound [of m n] le_word_bound [of m' n] in simp)
    qed
    ultimately show "b # m = b' # m'"
      using Cons by simp
  qed simp
qed simp

text \<open>A change confined to four consecutive bytes never keeps the checksum.\<close>

lemma crc32_update_burst:
  assumes "length m = length m'" "length m \<le> 4"
    and "crc32_update c (xs @ m @ ys) = crc32_update c (xs @ m' @ ys)"
  shows "m = m'"
  using assms
  by (simp add: crc32_update_bytes foldl_crc_byte_inject foldl_crc_byte_le_word le_word_inject
      crc_bit_funpow_inject del: funpow.simps)

section \<open>Rejection of damaged datagrams\<close>

lemma decode_accepts_iff:
  "fst (decode p h0 p0) \<longleftrightarrow>
     48 \<le> length p \<and> get32 p 0 = kMagic \<and> p ! 4 = kVersion \<and>
     48 + unat (get16 p 36) \<le> length p \<and>
     get32 p 44 = crc32_compute (take 44 p @ [0, 0, 0, 0] @ take (unat (get16 p 36)) (drop 48 p))"
proof -
  have "crc32_update (crc32_update c [0, 0, 0, 0]) d = crc32_update c ([0, 0, 0, 0] @ d)" for c d
    by (simp only: crc32_update_append)
  then show ?thesis
    unfolding decode_def by (auto simp: kHeaderSize_def Let_def crc32_compute_def)
qed

text \<open>The bytes the checksum protects: the datagram without the bytes \<open>44..47\<close>.\<close>

definition covered :: "bytes \<Rightarrow> bytes" where
  "covered p = take 44 p @ [0, 0, 0, 0] @ take (unat (get16 p 36)) (drop 48 p)"

lemma length_covered: "48 + unat (get16 p 36) \<le> length p \<Longrightarrow> length (covered p) = 48 + unat (get16 p 36)"
  by (simp add: covered_def)

lemma nth_covered:
  "48 + unat (get16 p 36) \<le> length p \<Longrightarrow> i < 48 + unat (get16 p 36) \<Longrightarrow>
   covered p ! i = (if i < 44 \<or> 48 \<le> i then p ! i else 0)"
  by (auto simp: covered_def nth_append nth_Cons')

lemma load32_inject:
  assumes "load32 p i = load32 q i"
  shows "p ! i = q ! i" "p ! (i + 1) = q ! (i + 1)" "p ! (i + 2) = q ! (i + 2)"
    "p ! (i + 3) = q ! (i + 3)"
proof -
  have *: "bit (load32 p i) n = bit (load32 q i) n" for n
    using assms by simp
  have "bit (p ! i) n = bit (q ! i) n" if "n < 8" for n
    using * [of n] that by (simp add: load32_def bit_simps)
  then show "p ! i = q ! i" by (intro bit_word_eqI) simp
  have "bit (p ! (i + 1)) n = bit (q ! (i + 1)) n" if "n < 8" for n
    using * [of "n + 8"] that bit_imp_le_length [of "p ! i" "n + 8"] bit_imp_le_length [of "q ! i" "n + 8"]
    by (auto simp add: load32_def bit_simps)
  then show "p ! (i + 1) = q ! (i + 1)" by (intro bit_word_eqI) simp
  have "bit (p ! (i + 2)) n = bit (q ! (i + 2)) n" if "n < 8" for n
    using * [of "n + 16"] that bit_imp_le_length [of "p ! i" "n + 16"] bit_imp_le_length [of "q ! i" "n + 16"]
      bit_imp_le_length [of "p ! Suc i" "8 + n"] bit_imp_le_length [of "q ! Suc i" "8 + n"]
    by (auto simp add: load32_def bit_simps)
  then show "p ! (i + 2) = q ! (i + 2)" by (intro bit_word_eqI) simp
  have "bit (p ! (i + 3)) n = bit (q ! (i + 3)) n" if "n < 8" for n
    using * [of "n + 24"] that bit_imp_le_length [of "p ! i" "n + 24"] bit_imp_le_length [of "q ! i" "n + 24"]
      bit_imp_le_length [of "p ! Suc i" "16 + n"] bit_imp_le_length [of "q ! Suc i" "16 + n"]
      bit_imp_le_length [of "p ! (i + 2)" "8 + n"] bit_imp_le_length [of "q ! (i + 2)" "8 + n"]
    by (auto simp add: load32_def bit_simps)
  then show "p ! (i + 3) = q ! (i + 3)" by (intro bit_word_eqI) simp
qed

lemma get32_inject: "get32 p i = get32 q i \<Longrightarrow> i \<le> j \<Longrightarrow> j < i + 4 \<Longrightarrow> p ! j = q ! j"
  using load32_inject [of p i q]
  by (cases "j = i"; cases "j = i + 1"; cases "j = i + 2"; cases "j = i + 3") (auto simp: get32_def)

lemma burst_split:
  assumes "length p = length q" and "\<And>i. i < length p \<Longrightarrow> i < a \<or> a + 4 \<le> i \<Longrightarrow> p ! i = q ! i"
  shows "\<exists>xs m m' ys. p = xs @ m @ ys \<and> q = xs @ m' @ ys \<and> length m = length m' \<and> length m \<le> 4"
proof (intro exI conjI)
  have "take a p = take a q"
    using assms by (intro nth_equalityI) auto
  moreover have "drop (a + 4) p = drop (a + 4) q"
    using assms by (intro nth_equalityI) auto
  ultimately show "p = take a q @ take 4 (drop a p) @ drop (a + 4) q"
    by (metis add.commute append_take_drop_id drop_drop)
  show "q = take a q @ take 4 (drop a q) @ drop (a + 4) q"
    by (metis add.commute append_take_drop_id drop_drop)
qed (use assms in auto)

lemma crc32_compute_burst:
  assumes "length p = length q" and "\<And>i. i < length p \<Longrightarrow> i < a \<or> a + 4 \<le> i \<Longrightarrow> p ! i = q ! i"
    and "crc32_compute p = crc32_compute q"
  shows "p = q"
proof -
  obtain xs m m' ys where *: "p = xs @ m @ ys" "q = xs @ m' @ ys" "length m = length m'" "length m \<le> 4"
    using burst_split [OF assms(1,2)] by blast
  have "crc32_update 0xFFFFFFFF p = crc32_update 0xFFFFFFFF q"
    using assms(3) by (simp add: crc32_compute_def)
  with * show ?thesis
    using crc32_update_burst by blast
qed

text \<open>
  C12: a datagram the decoder accepts is refused after any damage that stays within four
  consecutive bytes, does not straddle the checksum field, and spares the length field.
\<close>

theorem decode_rejects_burst:
  assumes "fst (decode p h0 p0)" and "length q = length p"
    and "take 2 (drop 36 q) = take 2 (drop 36 p)"
    and "a + 4 \<le> 44 \<or> a = 44 \<or> 48 \<le> a"
    and "\<And>i. i < length p \<Longrightarrow> i < a \<or> a + 4 \<le> i \<Longrightarrow> q ! i = p ! i"
    and "take (48 + unat (get16 p 36)) q \<noteq> take (48 + unat (get16 p 36)) p"
  shows "\<not> fst (decode q h1 p1)"
proof
  assume q: "fst (decode q h1 p1)"
  let ?n = "48 + unat (get16 p 36)"
  note acc = assms(1) [unfolded decode_accepts_iff, folded covered_def]
    q [unfolded decode_accepts_iff, folded covered_def]
  have size: "get16 q 36 = get16 p 36"
    using take_drop_nth [OF assms(3), of 0] take_drop_nth [OF assms(3), of 1] acc assms(2)
    by (intro get16_cong) auto
  have cov: "covered q ! i = covered p ! i" if "i < ?n" "i < a \<or> a + 4 \<le> i" for i
    using that assms(2,5) acc size by (simp add: nth_covered)
  have "covered q = covered p \<and> get32 q 44 = get32 p 44"
  proof (cases "a = 44")
    case True
    have "covered q ! i = covered p ! i" if "i < ?n" for i
      using that acc size cov [of i] True nth_covered [of p i] nth_covered [of q i]
      by (cases "i < 44 \<or> 48 \<le> i") auto
    moreover have "length (covered q) = ?n" "length (covered p) = ?n"
      using acc size assms(2) by (simp_all add: length_covered)
    ultimately have "covered q = covered p"
      by (intro nth_equalityI) simp_all
    then show ?thesis
      using acc by simp
  next
    case False
    then have get: "get32 q 44 = get32 p 44"
      using assms(4,5) acc by (intro get32_cong) auto
    have "covered q = covered p"
      using cov acc size get assms(2) by (intro crc32_compute_burst [where a = a]) (auto simp: length_covered)
    with get show ?thesis
      by simp
  qed
  then have "q ! i = p ! i" if "i < ?n" for i
    using acc size that get32_inject [of q 44 p i] nth_covered [of p i] nth_covered [of q i]
    by (cases "i < 44 \<or> 48 \<le> i") auto
  then have "take ?n q = take ?n p"
    using acc size by (intro nth_equalityI) auto
  with assms(6) show False
    by simp
qed

definition sample_header :: packet_header where
  "sample_header = zero_header\<lparr> h_magic := kMagic, h_version := kVersion, h_type := Data,
     h_session_id := 0x0102030405060708, h_sequence := 7, h_payload_size := 3 \<rparr>"

lemma decode_rejects_burst_witness:
  "\<not> fst (decode ((encode sample_header [1, 2, 3])[48 := 9]) zero_header [])"
proof -
  let ?p = "datagram sample_header [1, 2, 3]"
  have acc: "fst (decode ?p zero_header [])"
    using decode_datagram [of sample_header "[1, 2, 3]" "[]"] by (simp add: sample_header_def)
  have "?p ! 48 = 1"
    by (simp add: datagram_def nth_append)
  moreover have size: "get16 ?p 36 = 3"
    using get_datagram(12) [of sample_header "[1, 2, 3]" "[]"] by (simp add: sample_header_def)
  ultimately have "take 51 (?p[48 := 9]) ! 48 \<noteq> take 51 ?p ! 48"
    by simp
  then have "take 51 (?p[48 := 9]) \<noteq> take 51 ?p"
    by metis
  then show ?thesis
    using decode_rejects_burst [OF acc _ take_drop_update_outside, of 48 9 48] size
    by (simp add: encode_datagram)
qed

text \<open>
  C1: decoding an encoded datagram, also when more bytes follow it in the receive buffer,
  returns the header that was encoded, with the checksum filled in, and the payload.
\<close>

theorem decode_encode:
  assumes "h_magic h = kMagic" "h_version h = kVersion" "length pl = unat (h_payload_size h)"
    and "\<forall>b. h_type h \<noteq> Unnamed b"
  shows "\<exists>crc. decode (encode h pl @ rest) h0 p0 = (True, h\<lparr> h_checksum := crc \<rparr>, pl)"
  using assms by (simp add: encode_datagram decode_datagram sealed_header_def type_code_type_of_code)
    (cases h, auto)

lemma decode_encode_witness:
  "\<exists>crc. decode (encode sample_header [1, 2, 3] @ [0xAA]) zero_header [] =
     (True, sample_header\<lparr> h_checksum := crc \<rparr>, [1, 2, 3])"
  by (rule decode_encode) (simp_all add: sample_header_def)

text \<open>
  C17: the table-driven CRC update is the bit-serial division of the message by the
  reflected polynomial \<open>0xEDB88320\<close>: each byte is added to the register, which is then
  shifted eight times.
\<close>

theorem crc32_update_bitwise:
  "crc32_update c d = foldl (\<lambda>c b. (crc_bit ^^ 8) (c XOR ucast b)) c d"
  unfolding crc32_update_bytes by (rule foldl_cong) (simp_all add: crc_byte_def del: funpow.simps)

end
