(* ===== verification/Galois.thy ===== *)
theory Galois
  imports Tight_Prelude
begin

text \<open>
  The byte field of \<open>fec.cpp\<close>: exponent and logarithm tables over the polynomial
  \<open>0x11D\<close> and the table-driven product, power and inverse. Multiplication by the
  generator is a linear map of order 255; from that the table operations are those of a
  field, and \<open>gf\<close> is declared one so that the library's sums and powers apply.
\<close>

section \<open>Tables\<close>

text \<open>\<open>GfTables::GfTables\<close>: the state of the first loop is \<open>(x, exp, log)\<close>.\<close>

definition gf_table_step :: "u16 \<times> bytes \<times> bytes \<Rightarrow> nat \<Rightarrow> u16 \<times> bytes \<times> bytes" where
  "gf_table_step st i =
    (let (x, exp, log) = st;
         exp = exp[i := ucast x];
         log = log[unat x := word_of_nat i];
         x = push_bit 1 x;
         x = (if x AND 0x100 \<noteq> 0 then x XOR 0x11D else x)
     in (x, exp, log))"

definition gf_tables :: "bytes \<times> bytes" where
  "gf_tables =
    (let (x, exp, log) = foldl gf_table_step (1, replicate 512 0, replicate 256 0) [0..<255];
         exp = foldl (\<lambda>exp i. exp[i := exp ! (i - 255)]) exp [255..<512]
     in (exp, log))"

definition gf_exp :: bytes where "gf_exp = fst gf_tables"
definition gf_log :: bytes where "gf_log = snd gf_tables"

definition gf_mul :: "u8 \<Rightarrow> u8 \<Rightarrow> u8" where
  "gf_mul a b = (if a = 0 \<or> b = 0 then 0
     else gf_exp ! (unat (gf_log ! unat a) + unat (gf_log ! unat b)))"

definition gf_pow :: "u8 \<Rightarrow> nat \<Rightarrow> u8" where
  "gf_pow a e = (if e = 0 then 1 else if a = 0 then 0
     else gf_exp ! ((unat (gf_log ! unat a) * e) mod 255))"

definition gf_inv :: "u8 \<Rightarrow> u8" where
  "gf_inv a = gf_exp ! (255 - unat (gf_log ! unat a))"

section \<open>Multiplication by the generator\<close>

definition xt :: "u8 \<Rightarrow> u8" where
  "xt v = push_bit 1 v XOR (if bit v 7 then 0x1D else 0)"

lemma xt_xor: "xt (a XOR b) = xt a XOR xt b"
  unfolding xt_def by (intro bit_word_eqI) (auto simp: bit_simps)

lemma bit_0x1D: "n < 8 \<Longrightarrow> bit (0x1D :: u8) n \<longleftrightarrow> n \<in> {0, 2, 3, 4}"
proof -
  assume "n < 8"
  then have "n \<in> {0, 1, 2, 3, 4, 5, 6, 7}" by auto
  then show ?thesis by auto
qed

lemma bit_xt:
  "n < 8 \<Longrightarrow> bit (xt v) n = ((0 < n \<and> bit v (n - 1)) \<noteq> (bit v 7 \<and> n \<in> {0, 2, 3, 4}))"
proof -
  assume "n < 8"
  then have "bit (push_bit 1 v) n = (0 < n \<and> bit v (n - 1))"
    by (simp only: bit_push_bit_iff possible_bit_word) auto
  then show ?thesis
    using \<open>n < 8\<close> by (cases "bit v 7") (simp_all only: xt_def bit_xor_iff if_True if_False bit_0x1D, auto)
qed

lemma xt_inject [simp]: "xt a = xt b \<longleftrightarrow> a = b"
proof
  assume eq: "xt a = xt b"
  then have b: "bit (xt a) n = bit (xt b) n" for n by simp
  have 7: "bit a 7 = bit b 7" using b [of 0] by (simp add: bit_xt)
  have "bit a n = bit b n" if "n < 7" for n
    using b [of "Suc n"] that 7 by (simp add: bit_xt) blast
  with 7 have "bit a n = bit b n" if "n < 8" for n
    using that by (cases "n = 7") auto
  then show "a = b"
    by (intro bit_word_eqI) simp
qed simp

lemma xt_pow_xor: "(xt ^^ n) (a XOR b) = (xt ^^ n) a XOR (xt ^^ n) b"
  by (induction n) (simp_all add: xt_xor)

lemma xt_pow_inject [simp]: "(xt ^^ n) a = (xt ^^ n) b \<longleftrightarrow> a = b"
  by (induction n) simp_all

lemma xt_pow_0 [simp]: "(xt ^^ n) 0 = 0"
  using xt_pow_xor [of n 0 0] by simp

lemma xt_pow_nonzero [simp]: "(xt ^^ n) a = 0 \<longleftrightarrow> a = 0"
  using xt_pow_inject [of n a 0] by simp

fun no_return :: "nat \<Rightarrow> u8 \<Rightarrow> bool" where
  "no_return 0 v = True"
| "no_return (Suc n) v = (v \<noteq> 1 \<and> no_return n (xt v))"

lemma no_return_iff: "no_return n v \<longleftrightarrow> (\<forall>i<n. (xt ^^ i) v \<noteq> 1)"
  by (induction n arbitrary: v) (auto simp: funpow_swap1 less_Suc_eq_0_disj)

lemma no_return_254: "no_return 254 (xt 1)"
  by code_simp

fun xt_iter :: "nat \<Rightarrow> u8 \<Rightarrow> u8" where
  "xt_iter 0 v = v"
| "xt_iter (Suc n) v = xt_iter n (xt v)"

lemma xt_iter: "(xt ^^ n) v = xt_iter n v"
  by (induction n arbitrary: v) (simp_all add: funpow_Suc_right del: funpow.simps(2))

lemma xt_pow_255: "(xt ^^ 255) 1 = 1"
  unfolding xt_iter by code_simp

lemma xt_pow_period: "(xt ^^ i) 1 = (xt ^^ j) 1 \<longleftrightarrow> i mod 255 = j mod 255"
proof -
  have period: "(xt ^^ (i + 255 * k)) 1 = (xt ^^ i) 1" for i k
  proof (induction k)
    case (Suc k)
    have "(xt ^^ (i + 255 * k + 255)) 1 = (xt ^^ (i + 255 * k)) ((xt ^^ 255) 1)"
      by (simp only: funpow_add o_apply)
    moreover have "i + 255 * Suc k = i + 255 * k + 255"
      by simp
    ultimately show ?case
      using Suc by (simp only: xt_pow_255)
  qed simp
  have mod: "(xt ^^ i) 1 = (xt ^^ (i mod 255)) 1" for i
    using period [of "i mod 255" "i div 255"] by (simp only: mod_mult_div_eq)
  have less: "a = b" if "a \<le> b" "b < 255" "(xt ^^ a) 1 = (xt ^^ b) 1" for a b
  proof (rule ccontr)
    assume "a \<noteq> b"
    with that(1) have "a < b"
      by simp
    then obtain d where b: "b = a + Suc d"
      by (metis add_Suc_right less_imp_Suc_add)
    with that have d: "b = a + Suc d" "d < 254"
      by simp_all
    then have "(xt ^^ a) 1 = (xt ^^ a) ((xt ^^ d) (xt 1))"
      using that by (simp only: funpow_add o_apply funpow_Suc_right)
    then have "(xt ^^ d) (xt 1) = 1"
      by simp
    with d no_return_254 show False
      by (simp only: no_return_iff)
  qed
  then have "(xt ^^ a) 1 = (xt ^^ b) 1 \<longleftrightarrow> a = b" if "a < 255" "b < 255" for a b
    using that by (metis nat_le_linear)
  from this [of "i mod 255" "j mod 255"] show ?thesis
    by (metis mod mod_less_divisor zero_less_numeral)
qed

section \<open>The tables hold the powers of the generator\<close>

lemma xt_shift:
  fixes v :: u8
  defines "y \<equiv> push_bit 1 (ucast v :: u16)"
  shows "(if y AND 0x100 \<noteq> 0 then y XOR 0x11D else y) = ucast (xt v)"
proof -
  have "(0x100 :: u16) = push_bit 8 1"
    by (simp add: push_bit_eq_mult)
  then have "y AND 0x100 \<noteq> 0 \<longleftrightarrow> bit y 8"
    by (simp only: bit_iff_and_push_bit_not_eq_0)
  also have "\<dots> \<longleftrightarrow> bit v 7"
    by (simp only: y_def bit_push_bit_iff bit_ucast_iff possible_bit_word) simp
  finally have cond: "y AND 0x100 \<noteq> 0 \<longleftrightarrow> bit v 7" .
  have y: "bit y n \<longleftrightarrow> 0 < n \<and> bit v (n - 1)" if "n < 16" for n
    using that by (simp only: y_def bit_push_bit_iff bit_ucast_iff possible_bit_word) auto
  show ?thesis
    unfolding cond
  proof (rule bit_word_eqI)
    fix n :: nat
    assume "n < LENGTH(16)"
    then have "n \<in> {0,1,2,3,4,5,6,7,8,9,10,11,12,13,14,15}"
      by (simp, arith)
    then show "bit (if bit v 7 then y XOR 0x11D else y) n = bit (ucast (xt v) :: u16) n"
      by (auto simp: bit_xt y bit_xor_iff bit_ucast_iff)
  qed
qed

lemma gf_table_step_pow:
  "gf_table_step (ucast v, e, l) i = (ucast (xt v), e[i := v], l[unat v := word_of_nat i])"
proof -
  have "unat (ucast v :: u16) = unat v"
    using u8_less [of v] order.strict_trans [of "unat v" 256 65536]
    by (simp add: unsigned_ucast_eq take_bit_nat_eq_self_iff)
  moreover have "ucast (ucast v :: u16) = v"
    by (rule bit_word_eqI) (simp add: bit_ucast_iff)
  ultimately show ?thesis
    using xt_shift [of v] by (simp only: gf_table_step_def Let_def prod.case)
qed

lemma gf_table_loop:
  assumes "n \<le> 255" and "foldl gf_table_step (1, replicate 512 0, replicate 256 0) [0..<n] = (x, exp, log)"
  shows "x = ucast ((xt ^^ n) 1) \<and> length exp = 512 \<and> length log = 256 \<and>
    (\<forall>i<n. exp ! i = (xt ^^ i) 1 \<and> log ! unat ((xt ^^ i) 1) = word_of_nat i)"
  using assms
proof (induction n arbitrary: x exp log)
  case (Suc n)
  obtain x' e l where st: "foldl gf_table_step (1, replicate 512 0, replicate 256 0) [0..<n] = (x', e, l)"
    by (metis prod_cases3)
  let ?v = "(xt ^^ n) 1"
  note IH = Suc.IH [OF _ st]
  have x': "x' = ucast ?v" and len: "length e = 512" "length l = 256"
    using IH Suc.prems by auto
  have xel: "x = ucast (xt ?v)" "exp = e[n := ?v]" "log = l[unat ?v := word_of_nat n]"
    using Suc.prems(2) st x' by (simp_all add: gf_table_step_pow)
  have "exp ! i = (xt ^^ i) 1 \<and> log ! unat ((xt ^^ i) 1) = word_of_nat i" if "i < Suc n" for i
    using that IH Suc.prems(1) len xt_pow_period [of i n]
    by (cases "i = n") (simp_all add: xel nth_list_update word_unat_eq_iff [symmetric])
  with xel len show ?case
    by simp
qed auto

lemma gf_exp_second_half:
  assumes "length e = 512" "n \<le> 512"
  shows "length (foldl (\<lambda>e i. e[i := e ! (i - 255)]) e [255..<n]) = 512 \<and>
    (\<forall>i<n. foldl (\<lambda>e i. e[i := e ! (i - 255)]) e [255..<n] ! i =
      (if i < 255 then e ! i else if i < 510 then e ! (i - 255) else e ! (i - 510))) \<and>
    (\<forall>i<255. foldl (\<lambda>e i. e[i := e ! (i - 255)]) e [255..<n] ! i = e ! i)"
  using assms(2)
proof (induction n)
  case (Suc n)
  then show ?case
    using assms by (cases "n < 255") (auto simp: nth_list_update less_Suc_eq)
qed (use assms in auto)

lemma gf_tables_spec:
  "length gf_exp = 512" "i < 512 \<Longrightarrow> gf_exp ! i = (xt ^^ i) 1"
  "length gf_log = 256" "i < 255 \<Longrightarrow> gf_log ! unat ((xt ^^ i) 1) = word_of_nat i"
proof -
  obtain x e l where st: "foldl gf_table_step (1, replicate 512 0, replicate 256 0) [0..<255] = (x, e, l)"
    using prod_cases3 by blast
  note loop = gf_table_loop [OF order_refl st]
  have exp: "gf_exp = foldl (\<lambda>e i. e[i := e ! (i - 255)]) e [255..<512]" and log: "gf_log = l"
    by (simp_all only: gf_exp_def gf_log_def gf_tables_def st Let_def prod.case fst_conv snd_conv)
  note half = gf_exp_second_half [of e 512]
  have len: "length e = 512" "length l = 256"
    using loop by blast+
  show "length gf_exp = 512"
    unfolding exp using half [OF len(1) order_refl] by (rule conjunct1)
  show "length gf_log = 256"
    unfolding log by (rule len)
  have e: "e ! i = (xt ^^ i) 1" if "i < 255" for i
    using loop that by blast
  have "gf_exp ! i = (if i < 255 then e ! i else if i < 510 then e ! (i - 255) else e ! (i - 510))"
    if "i < 512" for i
    unfolding exp using half [OF len(1) order_refl] that by blast
  then show "gf_exp ! i = (xt ^^ i) 1" if "i < 512" for i
    using that e [of i] e [of "i - 255"] e [of "i - 510"]
      xt_pow_period [of "i - 255" i] xt_pow_period [of "i - 510" i]
    by (auto simp: mod_if)
  show "gf_log ! unat ((xt ^^ i) 1) = word_of_nat i" if "i < 255" for i
    unfolding log using that loop by blast
qed

lemma xt_pow_surj:
  assumes "a \<noteq> 0"
  shows "\<exists>i<255. a = (xt ^^ i) 1"
proof -
  let ?f = "\<lambda>i. (xt ^^ i) 1"
  have inj: "inj_on ?f {..<255}"
    by (auto simp: inj_on_def xt_pow_period)
  have "?f ` {..<255} \<subseteq> UNIV - {0}"
    by auto
  moreover have "card (UNIV - {0 :: u8}) = 255"
    by (simp add: card_Diff_singleton card_word)
  ultimately have "?f ` {..<255} = UNIV - {0}"
    using card_image [OF inj] by (intro card_subset_eq) auto
  with assms show ?thesis
    by auto
qed

lemma gf_log_less: "a \<noteq> 0 \<Longrightarrow> unat (gf_log ! unat a) < 255"
  and gf_exp_log: "a \<noteq> 0 \<Longrightarrow> (xt ^^ unat (gf_log ! unat a)) 1 = a"
proof -
  assume "a \<noteq> 0"
  then obtain i where i: "i < 255" "a = (xt ^^ i) 1"
    using xt_pow_surj by blast
  then have "unat (gf_log ! unat a) = i"
    using gf_tables_spec(4) [OF i(1)] by (simp add: unat_of_nat take_bit_nat_eq_self_iff)
  with i show "unat (gf_log ! unat a) < 255" "(xt ^^ unat (gf_log ! unat a)) 1 = a"
    by auto
qed

section \<open>Field laws\<close>

text \<open>Multiplying by a power of the generator is repeated doubling.\<close>

lemma gf_mul_pow: "gf_mul ((xt ^^ i) 1) b = (xt ^^ i) b"
proof (cases "b = 0")
  case False
  let ?li = "unat (gf_log ! unat ((xt ^^ i) 1))" and ?lb = "unat (gf_log ! unat b)"
  have less: "?li < 255" "?lb < 255"
    using False by (simp_all add: gf_log_less)
  have i: "?li mod 255 = i mod 255"
    using gf_exp_log [of "(xt ^^ i) 1"] xt_pow_period [of ?li i] by simp
  have "?li + ?lb < 512"
    using less by simp
  note exp = gf_tables_spec(2) [OF this]
  have "gf_mul ((xt ^^ i) 1) b = gf_exp ! (?li + ?lb)"
    using False by (simp add: gf_mul_def)
  also have "\<dots> = (xt ^^ (?li + ?lb)) 1"
    by (rule exp)
  also have "\<dots> = (xt ^^ (i + ?lb)) 1"
    unfolding xt_pow_period by (rule mod_add_cong [OF i refl])
  also have "\<dots> = (xt ^^ i) b"
    by (simp only: funpow_add o_apply gf_exp_log [OF False])
  finally show ?thesis .
qed (simp add: gf_mul_def)

lemma gf_mul_0 [simp]: "gf_mul 0 a = 0" "gf_mul a 0 = 0"
  by (simp_all add: gf_mul_def)

lemma gf_mul_1 [simp]: "gf_mul 1 a = a"
  using gf_mul_pow [of 0 a] by simp

lemma gf_mul_commute: "gf_mul a b = gf_mul b a"
  by (simp add: gf_mul_def add.commute disj_commute)

lemma gf_mul_1_right [simp]: "gf_mul a 1 = a"
  using gf_mul_1 [of a] by (simp add: gf_mul_commute)

lemma gf_mul_xor_right: "gf_mul a (b XOR c) = gf_mul a b XOR gf_mul a c"
proof (cases "a = 0")
  case False
  then obtain i where "a = (xt ^^ i) 1"
    using xt_pow_surj by blast
  then show ?thesis
    by (simp only: gf_mul_pow xt_pow_xor)
qed simp

lemma gf_mul_xor_left: "gf_mul (a XOR b) c = gf_mul a c XOR gf_mul b c"
  by (simp only: gf_mul_commute [of _ c] gf_mul_xor_right)

lemma gf_mul_assoc: "gf_mul (gf_mul a b) c = gf_mul a (gf_mul b c)"
proof (cases "a = 0 \<or> b = 0")
  case False
  then obtain i j where "a = (xt ^^ i) 1" "b = (xt ^^ j) 1"
    using xt_pow_surj by metis
  moreover have "gf_mul ((xt ^^ (i + j)) 1) c = (xt ^^ (i + j)) c"
    by (rule gf_mul_pow)
  ultimately show ?thesis
    by (simp only: gf_mul_pow funpow_add o_apply)
qed auto

lemma gf_mul_inv:
  assumes "a \<noteq> 0"
  shows "gf_mul a (gf_inv a) = 1"
proof -
  let ?l = "unat (gf_log ! unat a)"
  have l: "?l < 255"
    using assms by (rule gf_log_less)
  have "gf_inv a = (xt ^^ (255 - ?l)) 1"
    unfolding gf_inv_def by (rule gf_tables_spec(2)) simp
  then have "gf_mul a (gf_inv a) = (xt ^^ ?l) ((xt ^^ (255 - ?l)) 1)"
    using gf_mul_pow [of ?l "gf_inv a"] by (simp only: gf_exp_log [OF assms])
  also have "\<dots> = (xt ^^ (?l + (255 - ?l))) 1"
    by (simp only: funpow_add o_apply)
  also have "\<dots> = 1"
    using l by (simp only: le_add_diff_inverse less_imp_le xt_pow_255)
  finally show ?thesis .
qed

section \<open>The field\<close>

datatype gf = GF (gf_val: u8)

instantiation gf :: field
begin

definition zero_gf :: gf where "0 = GF 0"
definition one_gf :: gf where "1 = GF 1"
definition plus_gf :: "gf \<Rightarrow> gf \<Rightarrow> gf" where "a + b = GF (gf_val a XOR gf_val b)"
definition minus_gf :: "gf \<Rightarrow> gf \<Rightarrow> gf" where "a - b = GF (gf_val a XOR gf_val b)"
definition uminus_gf :: "gf \<Rightarrow> gf" where "- a = (a :: gf)"
definition times_gf :: "gf \<Rightarrow> gf \<Rightarrow> gf" where "a * b = GF (gf_mul (gf_val a) (gf_val b))"
definition inverse_gf :: "gf \<Rightarrow> gf" where
  "inverse a = (if gf_val a = 0 then GF 0 else GF (gf_inv (gf_val a)))"
definition divide_gf :: "gf \<Rightarrow> gf \<Rightarrow> gf" where "a div b = a * inverse (b :: gf)"

instance
proof
  fix a b c :: gf
  show "a + b + c = a + (b + c)" by (simp add: plus_gf_def xor.assoc)
  show "a + b = b + a" by (simp add: plus_gf_def xor.commute)
  show "0 + a = a" by (simp add: plus_gf_def zero_gf_def)
  show "- a + a = 0" by (simp add: plus_gf_def zero_gf_def uminus_gf_def)
  show "a - b = a + - b" by (simp add: plus_gf_def minus_gf_def uminus_gf_def)
  show "a * b * c = a * (b * c)" by (simp add: times_gf_def gf_mul_assoc)
  show "a * b = b * a" by (simp add: times_gf_def gf_mul_commute)
  show "1 * a = a" by (simp add: times_gf_def one_gf_def)
  show "(a + b) * c = a * c + b * c" by (simp add: times_gf_def plus_gf_def gf_mul_xor_left)
  show "(0 :: gf) \<noteq> 1" by (simp add: zero_gf_def one_gf_def)
  show "a \<noteq> 0 \<Longrightarrow> inverse a * a = 1"
    by (cases a) (simp add: times_gf_def inverse_gf_def zero_gf_def one_gf_def gf_mul_inv gf_mul_commute)
  show "a div b = a * inverse b" by (simp add: divide_gf_def)
  show "inverse (0 :: gf) = 0" by (simp add: inverse_gf_def zero_gf_def)
qed

end

lemma gf_add_self [simp]: "a + a = (0 :: gf)"
  by (simp add: plus_gf_def zero_gf_def)

lemma gf_minus [simp]: "a - b = a + (b :: gf)" "- a = (a :: gf)"
  by (simp_all add: plus_gf_def minus_gf_def uminus_gf_def)

lemma GF_hom:
  "GF (a XOR b) = GF a + GF b" "GF (gf_mul a b) = GF a * GF b" "GF 0 = 0" "GF 1 = 1"
  by (simp_all add: plus_gf_def times_gf_def zero_gf_def one_gf_def)

lemma GF_inv: "a \<noteq> 0 \<Longrightarrow> GF (gf_inv a) = inverse (GF a)"
  by (simp add: inverse_gf_def)

lemma GF_eq_0 [simp]: "GF a = 0 \<longleftrightarrow> a = 0"
  by (simp add: zero_gf_def)

lemma GF_pow: "GF (gf_pow a e) = GF a ^ e"
proof (cases "a = 0")
  case False
  let ?l = "unat (gf_log ! unat a)"
  have "GF ((xt ^^ i) 1) ^ e = GF ((xt ^^ (i * e)) 1)" for i e
  proof (induction e)
    case (Suc e)
    have "gf_mul ((xt ^^ i) 1) ((xt ^^ (i * e)) 1) = (xt ^^ (i + i * e)) 1"
      by (simp only: gf_mul_pow funpow_add o_apply)
    then show ?case
      by (simp add: Suc GF_hom(2) [symmetric])
  qed (simp add: GF_hom)
  then have "GF a ^ e = GF ((xt ^^ (?l * e)) 1)"
    by (metis False gf_exp_log)
  also have "(xt ^^ (?l * e)) 1 = (xt ^^ (?l * e mod 255)) 1"
    by (simp only: xt_pow_period mod_mod_trivial)
  also have "\<dots> = gf_exp ! (?l * e mod 255)"
  proof -
    have "?l * e mod 255 < 255"
      by simp
    then show ?thesis
      by (intro gf_tables_spec(2) [symmetric]) linarith
  qed
  finally show ?thesis
    using False gf_tables_spec(2) [of 0] by (simp add: gf_pow_def GF_hom)
qed (simp add: gf_pow_def GF_hom)

section \<open>The product without tables\<close>

text \<open>Carry-less multiplication with reduction: \<open>b\<close> doubled \<open>i\<close> times for each bit \<open>i\<close> of \<open>a\<close>.\<close>

definition shift_add_mul :: "u8 \<Rightarrow> u8 \<Rightarrow> u8" where
  "shift_add_mul a b = foldr (\<lambda>i acc. (if bit a i then (xt ^^ i) b else 0) XOR acc) [0..<8] 0"

lemma xt_pow_bit: "i < 8 \<Longrightarrow> (xt ^^ i) 1 = push_bit i 1"
proof -
  have "list_all (\<lambda>i. xt_iter i 1 = push_bit i 1) [0..<8]"
    by code_simp
  then show "i < 8 \<Longrightarrow> (xt ^^ i) 1 = push_bit i 1"
    by (simp only: xt_iter list_all_iff set_upt) simp
qed

lemma bit_fold_bits:
  "k \<le> 8 \<Longrightarrow> n < 8 \<Longrightarrow>
   bit (foldr (\<lambda>i acc. (if bit a i then (xt ^^ i) 1 else 0) XOR acc) [0..<k] z) n =
     ((n < k \<and> bit a n) \<noteq> bit z n)"
proof (induction k arbitrary: z)
  case (Suc k)
  then have "bit ((xt ^^ k) 1) n \<longleftrightarrow> n = k"
    by (simp add: xt_pow_bit bit_simps)
  with Suc show ?case
    by (auto simp: bit_simps less_Suc_eq)
qed simp

lemma shift_add_mul_1: "shift_add_mul a 1 = a"
  unfolding shift_add_mul_def by (rule bit_word_eqI) (subst bit_fold_bits; simp)

text \<open>
  C18: the table-driven product is carry-less multiplication modulo the polynomial \<open>0x11D\<close>,
  and the table-driven inverse is its inverse.
\<close>

theorem gf_mul_shift_add:
  "gf_mul a b = shift_add_mul a b \<and> (a = 0 \<or> gf_mul a (gf_inv a) = 1)"
proof -
  have "gf_mul (foldr (\<lambda>i acc. (if bit a i then (xt ^^ i) 1 else 0) XOR acc) is 0) b =
      foldr (\<lambda>i acc. (if bit a i then (xt ^^ i) b else 0) XOR acc) is 0" for "is"
    by (induction "is") (simp_all add: gf_mul_xor_left gf_mul_pow)
  from this [of "[0..<8]"] have "gf_mul a b = shift_add_mul a b"
    using shift_add_mul_1 [of a] by (simp add: shift_add_mul_def)
  with gf_mul_inv [of a] show ?thesis
    by blast
qed

end
