(* ===== verification/Reed_Solomon.thy ===== *)
theory Reed_Solomon
  imports Galois
begin

text \<open>
  The erasure code of \<open>fec.cpp\<close> over the field of theory \<open>Galois\<close>: parity fragments as
  linear combinations with Vandermonde coefficients, and recovery of the missing data
  fragments by Gaussian elimination. The loops are written as in the code; \<open>elim\<close> lemmas
  read one elimination step as a row operation on a matrix over \<open>gf\<close>.
\<close>

section \<open>Encoding\<close>

text \<open>\<open>coef(parity_index, data_index)\<close>: the data index wraps to a byte.\<close>

definition coef :: "nat \<Rightarrow> nat \<Rightarrow> u8" where
  "coef parity_index data_index = gf_pow (word_of_nat (data_index + 1)) parity_index"

definition gf_mul_add :: "bytes \<Rightarrow> bytes \<Rightarrow> u8 \<Rightarrow> nat \<Rightarrow> bytes" where
  "gf_mul_add dst src c width =
    (if c = 0 \<or> length src = 0 then dst
     else let n = min (length dst) (min (length src) width)
       in if c = 1 then foldl (\<lambda>dst i. dst[i := dst ! i XOR src ! i]) dst [0..<n]
          else let lc = gf_log ! unat c
            in foldl (\<lambda>dst i. dst[i := if src ! i \<noteq> 0
                 then dst ! i XOR gf_exp ! (unat lc + unat (gf_log ! unat (src ! i)))
                 else dst ! i]) dst [0..<n])"

text \<open>One parity buffer of \<open>encode_into\<close>: a reused buffer is cleared, a short one replaced.\<close>

definition clear_parity :: "bytes \<Rightarrow> nat \<Rightarrow> bytes" where
  "clear_parity out width =
    (if length out < width then replicate width 0 else blit 0 (replicate width 0) out)"

definition encode_parity :: "bytes list \<Rightarrow> nat \<Rightarrow> nat \<Rightarrow> bytes \<Rightarrow> bytes" where
  "encode_parity fragments width p out =
    foldl (\<lambda>out j. gf_mul_add out (fragments ! j) (coef p j) width)
      (clear_parity out width) [0..<length fragments]"

definition encode_into :: "bytes list \<Rightarrow> nat \<Rightarrow> nat \<Rightarrow> bytes list \<Rightarrow> bytes list" where
  "encode_into fragments parity_count width out =
    (let out = (if length out < parity_count then resize parity_count [] out else out)
     in foldl (\<lambda>out p. out[p := encode_parity fragments width p (out ! p)]) out [0..<parity_count])"

definition rs_encode :: "bytes list \<Rightarrow> nat \<Rightarrow> nat \<Rightarrow> bytes list" where
  "rs_encode fragments parity_count width = encode_into fragments parity_count width []"

section \<open>Decoding\<close>

definition missing_indices :: "bytes option list \<Rightarrow> nat list" where
  "missing_indices d = filter (\<lambda>i. d ! i = None) [0..<length d]"

definition syndrome :: "bytes option list \<Rightarrow> nat \<times> bytes \<Rightarrow> nat \<Rightarrow> bytes" where
  "syndrome d par width =
    foldl (\<lambda>syn j. case d ! j of None \<Rightarrow> syn | Some b \<Rightarrow> gf_mul_add syn b (coef (fst par) j) width)
      (resize width 0 (snd par)) [0..<length d]"

type_synonym matrix = "u8 list list"

function find_pivot :: "matrix \<Rightarrow> nat \<Rightarrow> nat \<Rightarrow> nat \<Rightarrow> nat" where
  "find_pivot a col m pivot =
    (if pivot < m \<and> a ! pivot ! col = 0 then find_pivot a col m (pivot + 1) else pivot)"
  by auto
termination by (relation "measure (\<lambda>(a, col, m, pivot). m - pivot)") auto

declare find_pivot.simps [simp del]

definition swap_rows :: "nat \<Rightarrow> nat \<Rightarrow> 'a list \<Rightarrow> 'a list" where
  "swap_rows i j xs = xs[i := xs ! j, j := xs ! i]"

definition eliminate_row ::
  "nat \<Rightarrow> nat \<Rightarrow> nat \<Rightarrow> matrix \<times> bytes list \<Rightarrow> nat \<Rightarrow> matrix \<times> bytes list" where
  "eliminate_row width m col st r =
    (let (a, syn) = st
     in if r = col then (a, syn)
        else let f = a ! r ! col
          in if f = 0 then (a, syn)
             else (a[r := foldl (\<lambda>row j. row[j := row ! j XOR gf_mul f (a ! col ! j)]) (a ! r) [col..<m]],
                   syn[r := gf_mul_add (syn ! r) (syn ! col) f width]))"

definition eliminate_col ::
  "nat \<Rightarrow> nat \<Rightarrow> matrix \<times> bytes list \<Rightarrow> nat \<Rightarrow> (matrix \<times> bytes list) option" where
  "eliminate_col width m st col =
    (let (a, syn) = st;
         pivot = find_pivot a col m col
     in if pivot = m then None
        else
          let (a, syn) = (if pivot \<noteq> col then (swap_rows pivot col a, swap_rows pivot col syn)
                          else (a, syn));
              inv = gf_inv (a ! col ! col);
              a = a[col := foldl (\<lambda>row j. row[j := gf_mul (row ! j) inv]) (a ! col) [col..<m]];
              syn = syn[col := map (\<lambda>b. gf_mul b inv) (syn ! col)]
          in Some (foldl (eliminate_row width m col) (a, syn) [0..<m]))"

primrec eliminate :: "nat \<Rightarrow> nat \<Rightarrow> matrix \<times> bytes list \<Rightarrow> nat list \<Rightarrow> (matrix \<times> bytes list) option" where
  "eliminate width m st [] = Some st"
| "eliminate width m st (col # cols) =
    (case eliminate_col width m st col of
       None \<Rightarrow> None
     | Some st \<Rightarrow> eliminate width m st cols)"

text \<open>\<open>ReedSolomon::decode\<close>; the result is the returned flag and the updated fragments.\<close>

definition rs_decode :: "bytes option list \<Rightarrow> (nat \<times> bytes) list \<Rightarrow> nat \<Rightarrow> bool \<times> bytes option list" where
  "rs_decode d parity width =
    (let missing = missing_indices d;
         m = length missing
     in if missing = [] then (True, d)
        else if m > length parity then (False, d)
        else
          let syn = map (\<lambda>r. syndrome d (parity ! r) width) [0..<m];
              a = map (\<lambda>r. map (\<lambda>c. coef (fst (parity ! r)) (missing ! c)) [0..<m]) [0..<m]
          in case eliminate width m (a, syn) [0..<m] of
               None \<Rightarrow> (False, d)
             | Some (a, syn) \<Rightarrow>
                 (True, foldl (\<lambda>d c. d[missing ! c := Some (syn ! c)]) d [0..<m]))"

section \<open>Multiply and add\<close>

text \<open>Byte \<open>k\<close> of a fragment; a fragment is padded with zeros.\<close>

definition byte_at :: "bytes \<Rightarrow> nat \<Rightarrow> gf" where
  "byte_at d k = (if k < length d then GF (d ! k) else 0)"

lemma gf_mul_add_eq:
  "gf_mul_add dst src c width =
    foldl (\<lambda>dst i. dst[i := dst ! i XOR gf_mul c (src ! i)]) dst
      [0..<min (length dst) (min (length src) width)]"
proof -
  have mul: "gf_exp ! (unat (gf_log ! unat c) + unat (gf_log ! unat b)) = gf_mul c b"
    if "b \<noteq> 0" "c \<noteq> 0" for b
    using that by (simp add: gf_mul_def)
  have "(if b \<noteq> 0 then x XOR gf_exp ! (unat (gf_log ! unat c) + unat (gf_log ! unat b)) else x) =
      x XOR gf_mul c b" if "c \<noteq> 0" for b x
    using that mul by simp
  moreover have "foldl (\<lambda>dst i. dst[i := dst ! i]) d xs = d" for d :: bytes and xs
    by (induction xs) simp_all
  ultimately show ?thesis
    by (simp add: gf_mul_add_def Let_def)
qed

lemma length_gf_mul_add [simp]: "length (gf_mul_add dst src c width) = length dst"
  unfolding gf_mul_add_eq by (rule fold_update(1) [where f = "\<lambda>i x. x XOR gf_mul c (src ! i)"])

lemma nth_gf_mul_add:
  "k < length dst \<Longrightarrow> gf_mul_add dst src c width ! k =
     (if k < length src \<and> k < width then dst ! k XOR gf_mul c (src ! k) else dst ! k)"
  unfolding gf_mul_add_eq by (subst fold_update(2) [where f = "\<lambda>i x. x XOR gf_mul c (src ! i)"]) auto

lemma byte_at_gf_mul_add:
  assumes "k < length dst"
  shows "byte_at (gf_mul_add dst src c width) k =
    byte_at dst k + (if k < width then GF c * byte_at src k else 0)"
  using assms by (simp add: byte_at_def nth_gf_mul_add GF_hom)

definition gcoef :: "nat \<Rightarrow> nat \<Rightarrow> gf" where
  "gcoef p j = GF (word_of_nat (j + 1)) ^ p"

lemma GF_coef: "GF (coef p j) = gcoef p j"
  by (simp add: coef_def gcoef_def GF_pow)

lemma length_fold_gf_mul_add [simp]:
  "length (foldl (\<lambda>o' j. gf_mul_add o' (f j) (g j) width) out js) = length out"
  by (induction js arbitrary: out) simp_all

lemma byte_at_fold_gf_mul_add:
  assumes "k < length out" "k < width"
  shows "byte_at (foldl (\<lambda>o' j. gf_mul_add o' (f j) (g j) width) out js) k =
    byte_at out k + (\<Sum>j\<leftarrow>js. GF (g j) * byte_at (f j) k)"
  using assms(1) by (induction js arbitrary: out) (simp_all add: byte_at_gf_mul_add assms(2) ac_simps)

lemma length_clear_parity [simp]: "length (clear_parity out width) = max width (length out)"
  by (simp add: clear_parity_def)

lemma byte_at_clear_parity: "k < width \<Longrightarrow> byte_at (clear_parity out width) k = 0"
  by (auto simp: clear_parity_def byte_at_def nth_blit GF_hom)

lemma byte_at_encode_parity:
  assumes "k < width"
  shows "byte_at (encode_parity fragments width p out) k =
    (\<Sum>j<length fragments. gcoef p j * byte_at (fragments ! j) k)"
  using assms
  by (simp add: encode_parity_def byte_at_fold_gf_mul_add byte_at_clear_parity GF_coef
      sum_list_sum_nth atLeast0LessThan)

lemma length_encode_parity [simp]:
  "length (encode_parity fragments width p out) = max width (length out)"
  by (simp add: encode_parity_def)

section \<open>Row operations on a linear system\<close>

definition solves :: "nat \<Rightarrow> (nat \<Rightarrow> nat \<Rightarrow> gf) \<Rightarrow> (nat \<Rightarrow> gf) \<Rightarrow> (nat \<Rightarrow> gf) \<Rightarrow> bool" where
  "solves m A v s \<longleftrightarrow> (\<forall>r<m. (\<Sum>c<m. A r c * v c) = s r)"

definition transpose_idx :: "nat \<Rightarrow> nat \<Rightarrow> nat \<Rightarrow> nat" where
  "transpose_idx i j r = (if r = i then j else if r = j then i else r)"

lemma transpose_idx:
  "transpose_idx i j (transpose_idx i j r) = r" "i < m \<Longrightarrow> j < m \<Longrightarrow> r < m \<Longrightarrow> transpose_idx i j r < m"
  by (auto simp: transpose_idx_def)

lemma solves_swap:
  assumes "i < m" "j < m"
  shows "solves m (\<lambda>r. A (transpose_idx i j r)) v (\<lambda>r. s (transpose_idx i j r)) \<longleftrightarrow> solves m A v s"
proof -
  have "(\<forall>r<m. P (transpose_idx i j r)) \<longleftrightarrow> (\<forall>r<m. P r)" for P
    using transpose_idx(1) [of i j] transpose_idx(2) [OF assms] by metis
  from this [of "\<lambda>r. (\<Sum>c<m. A r c * v c) = s r"] show ?thesis
    unfolding solves_def .
qed

lemma solves_pivot:
  assumes col: "col < m" and pivot: "A col col \<noteq> 0"
    and A': "\<And>r c. r < m \<Longrightarrow> c < m \<Longrightarrow> A' r c =
      (if r = col then inverse (A col col) * A col c
       else A r c + A r col * (inverse (A col col) * A col c))"
    and s': "\<And>r. r < m \<Longrightarrow> s' r =
      (if r = col then inverse (A col col) * s col else s r + A r col * (inverse (A col col) * s col))"
  shows "solves m A' v s' \<longleftrightarrow> solves m A v s"
proof -
  let ?i = "inverse (A col col)" and ?L = "\<lambda>A r. \<Sum>c<m. A r c * v c"
  have Lcol: "?L A' col = ?i * ?L A col"
  proof -
    have "?L A' col = (\<Sum>c<m. ?i * (A col c * v c))"
      by (rule sum.cong) (use col in \<open>simp_all add: A' mult.assoc\<close>)
    then show ?thesis
      by (simp only: sum_distrib_left)
  qed
  have L: "?L A' r = ?L A r + A r col * (?i * ?L A col)" if "r < m" "r \<noteq> col" for r
  proof -
    have "?L A' r = (\<Sum>c<m. A r c * v c + A r col * (?i * (A col c * v c)))"
      by (rule sum.cong) (use that in \<open>simp_all add: A' distrib_right mult.assoc\<close>)
    then show ?thesis
      by (simp only: sum_distrib_left sum.distrib)
  qed
  have row: "?L A' r = s' r \<longleftrightarrow> ?L A r = s r" if "r < m" "?L A col = s col \<or> r = col" for r
  proof (cases "r = col")
    case True
    with pivot col show ?thesis by (simp only: Lcol s' if_True) simp
  next
    case False
    with that show ?thesis by (simp add: L s')
  qed
  show ?thesis
    unfolding solves_def
  proof (intro iffI allI impI)
    fix r assume "\<forall>r<m. ?L A' r = s' r" "r < m"
    moreover from this have "?L A col = s col" using row [OF col] col by simp
    ultimately show "?L A r = s r" using row by simp
  next
    fix r assume "\<forall>r<m. ?L A r = s r" "r < m"
    then show "?L A' r = s' r" using row col by simp
  qed
qed

section \<open>One elimination step\<close>

definition ent :: "matrix \<Rightarrow> nat \<Rightarrow> nat \<Rightarrow> gf" where
  "ent a r c = GF (a ! r ! c)"

definition wf_sys :: "nat \<Rightarrow> nat \<Rightarrow> matrix \<times> bytes list \<Rightarrow> bool" where
  "wf_sys m width st \<longleftrightarrow>
    length (fst st) = m \<and> (\<forall>r<m. length (fst st ! r) = m) \<and>
    length (snd st) = m \<and> (\<forall>r<m. length (snd st ! r) = width)"

definition unit_upto :: "nat \<Rightarrow> nat \<Rightarrow> matrix \<Rightarrow> bool" where
  "unit_upto m col a \<longleftrightarrow> (\<forall>r<m. \<forall>c<col. ent a r c = (if r = c then 1 else 0))"

lemma find_pivot_spec:
  "p \<le> m \<Longrightarrow> p \<le> find_pivot a col m p \<and> find_pivot a col m p \<le> m \<and>
    (find_pivot a col m p < m \<longrightarrow> a ! find_pivot a col m p ! col \<noteq> 0) \<and>
    (\<forall>i. p \<le> i \<and> i < find_pivot a col m p \<longrightarrow> a ! i ! col = 0)"
proof (induction a col m p rule: find_pivot.induct)
  case (1 a col m p)
  show ?case
  proof (cases "p < m \<and> a ! p ! col = 0")
    case True
    then have "find_pivot a col m p = find_pivot a col m (p + 1)"
      by (subst find_pivot.simps) simp
    with 1 True show ?thesis
      by (auto simp: Suc_le_eq le_less [of p])
  next
    case False
    then have "find_pivot a col m p = p"
      by (subst find_pivot.simps) auto
    with False 1(2) show ?thesis
      by auto
  qed
qed

lemma eliminate_rows:
  assumes "wf_sys m width (a, syn)" "col < m" "n \<le> m"
  shows "wf_sys m width (foldl (eliminate_row width m col) (a, syn) [0..<n]) \<and>
    (\<forall>r<m. \<forall>c<m. ent (fst (foldl (eliminate_row width m col) (a, syn) [0..<n])) r c =
      (if r < n \<and> r \<noteq> col \<and> col \<le> c then ent a r c + ent a r col * ent a col c else ent a r c)) \<and>
    (\<forall>r<m. \<forall>k<width. byte_at (snd (foldl (eliminate_row width m col) (a, syn) [0..<n]) ! r) k =
      (if r < n \<and> r \<noteq> col then byte_at (syn ! r) k + ent a r col * byte_at (syn ! col) k
       else byte_at (syn ! r) k))"
  using assms(3)
proof (induction n)
  case (Suc n)
  let ?st = "foldl (eliminate_row width m col) (a, syn) [0..<n]"
  obtain a' s' where st: "?st = (a', s')" by (cases ?st)
  note IH = Suc.IH [OF Suc_leD [OF Suc.prems], unfolded st fst_conv snd_conv]
  have n: "n < m" using Suc.prems by simp
  let ?f = "a' ! n ! col"
  let ?row = "foldl (\<lambda>row j. row[j := row ! j XOR gf_mul ?f (a' ! col ! j)]) (a' ! n) [col..<m]"
  have len: "length a' = m" "length s' = m" "\<And>r. r < m \<Longrightarrow> length (a' ! r) = m"
    "\<And>r. r < m \<Longrightarrow> length (s' ! r) = width"
    using IH by (auto simp: wf_sys_def)
  have row: "length ?row = m"
    "\<And>c. c < m \<Longrightarrow> ?row ! c = (if col \<le> c then a' ! n ! c XOR gf_mul ?f (a' ! col ! c) else a' ! n ! c)"
    using fold_update [where f = "\<lambda>j x. x XOR gf_mul ?f (a' ! col ! j)" and d = "a' ! n" and a = col and b = m]
      len n by auto
  have step: "foldl (eliminate_row width m col) (a, syn) [0..<Suc n] =
      (if n = col \<or> ?f = 0 then (a', s')
       else (a'[n := ?row], s'[n := gf_mul_add (s' ! n) (s' ! col) ?f width]))"
    by (simp add: st eliminate_row_def Let_def)
  have ents: "ent a' n c = ent a n c" "ent a' col c = ent a col c" if "c < m" for c
    using IH n that assms(2) by auto
  have byts: "byte_at (s' ! n) k = byte_at (syn ! n) k" "byte_at (s' ! col) k = byte_at (syn ! col) k"
    if "k < width" for k
    using IH n that assms(2) by auto
  show ?case
  proof (cases "n = col \<or> ?f = 0")
    case True
    then have "n = col \<or> ent a n col = 0"
      using ents(1) [OF assms(2)] by (auto simp: ent_def)
    with True IH show ?thesis
      unfolding step by (auto simp: less_Suc_eq)
  next
    case False
    have "wf_sys m width (a'[n := ?row], s'[n := gf_mul_add (s' ! n) (s' ! col) ?f width])"
      using len row n by (simp add: wf_sys_def nth_list_update)
    moreover have "ent (a'[n := ?row]) r c =
        (if r = n \<and> col \<le> c then ent a n c + ent a n col * ent a col c else ent a' r c)"
      if "r < m" "c < m" for r c
      using that n len row(2) ents(1) [OF that(2)] ents(2) [OF that(2)] ents(1) [OF assms(2)]
      by (auto simp: ent_def nth_list_update GF_hom)
    moreover have "byte_at (s'[n := gf_mul_add (s' ! n) (s' ! col) ?f width] ! r) k =
        (if r = n then byte_at (syn ! n) k + ent a n col * byte_at (syn ! col) k else byte_at (s' ! r) k)"
      if "r < m" "k < width" for r k
      using that n len byts [OF that(2)] ents(1) [OF assms(2)]
      by (auto simp: nth_list_update byte_at_gf_mul_add ent_def)
    ultimately show ?thesis
      unfolding step using False IH n by (auto simp: less_Suc_eq)
  qed
qed (use assms in \<open>simp\<close>)

text \<open>The system before and after eliminating column \<open>col\<close>.\<close>

lemma eliminate_col_none:
  assumes "eliminate_col width m (a, syn) col = None" "col \<le> m" "col \<le> r" "r < m"
  shows "ent a r col = 0"
  using assms find_pivot_spec [of col m a col]
  by (auto simp: eliminate_col_def Let_def ent_def GF_hom split: if_splits)

lemma nth_swap_rows:
  "i < length xs \<Longrightarrow> j < length xs \<Longrightarrow> r < length xs \<Longrightarrow>
   (if i \<noteq> j then swap_rows i j xs else xs) ! r = xs ! transpose_idx i j r"
  by (auto simp: swap_rows_def transpose_idx_def nth_list_update)

lemma length_swap_rows: "length (if i \<noteq> j then swap_rows i j xs else xs) = length xs"
  by (simp add: swap_rows_def)

lemma eliminate_col_entries:
  assumes wf: "wf_sys m width (a, syn)" and col: "col < m" and unit: "unit_upto m col a"
    and some: "eliminate_col width m (a, syn) col = Some (a', syn')"
  obtains p where "col \<le> p" "p < m" "ent a p col \<noteq> 0" "wf_sys m width (a', syn')"
    "\<And>r c. r < m \<Longrightarrow> c < m \<Longrightarrow> ent a' r c =
      (let B = (\<lambda>r. ent a (transpose_idx p col r)) in
       if r = col then inverse (B col col) * B col c
       else B r c + B r col * (inverse (B col col) * B col c))"
    "\<And>r k. r < m \<Longrightarrow> k < width \<Longrightarrow> byte_at (syn' ! r) k =
      (let B = (\<lambda>r. ent a (transpose_idx p col r)); S = (\<lambda>r. byte_at (syn ! transpose_idx p col r) k) in
       if r = col then inverse (B col col) * S col
       else S r + B r col * (inverse (B col col) * S col))"
proof -
  define p where "p = find_pivot a col m col"
  have p: "col \<le> p" "p < m" "a ! p ! col \<noteq> 0"
    using find_pivot_spec [of col m a col] some col
    by (auto simp: p_def eliminate_col_def Let_def split: if_splits)
  define a1 where "a1 = (if p \<noteq> col then swap_rows p col a else a)"
  define s1 where "s1 = (if p \<noteq> col then swap_rows p col syn else syn)"
  define inv where "inv = gf_inv (a1 ! col ! col)"
  define a2 where "a2 = a1[col := foldl (\<lambda>row j. row[j := gf_mul (row ! j) inv]) (a1 ! col) [col..<m]]"
  define s2 where "s2 = s1[col := map (\<lambda>b. gf_mul b inv) (s1 ! col)]"
  have st: "(a', syn') = foldl (eliminate_row width m col) (a2, s2) [0..<m]"
    using some p(2)
    by (auto simp: eliminate_col_def Let_def p_def [symmetric] a2_def s2_def inv_def a1_def s1_def
        split: if_splits)
  let ?t = "transpose_idx p col"
  have len: "length a = m" "length syn = m" "\<And>r. r < m \<Longrightarrow> length (a ! r) = m"
    "\<And>r. r < m \<Longrightarrow> length (syn ! r) = width"
    using wf by (auto simp: wf_sys_def)
  have t: "?t r < m" if "r < m" for r
    using that p col by (auto simp: transpose_idx_def)
  have tcol: "?t col = p"
    by (simp add: transpose_idx_def)
  have 1: "a1 ! r = a ! ?t r" "s1 ! r = syn ! ?t r" if "r < m" for r
    using that p(2) col nth_swap_rows [of p a col r] nth_swap_rows [of p syn col r]
    by (simp_all add: a1_def s1_def len)
  have len1: "length a1 = m" "length s1 = m"
    using length_swap_rows [of p col a] length_swap_rows [of p col syn] by (simp_all add: a1_def s1_def len)
  have len1r: "length (a1 ! r) = m" "length (s1 ! r) = width" if "r < m" for r
    using that t len by (simp_all add: 1)
  have row: "length (a2 ! col) = m"
    "\<And>c. c < m \<Longrightarrow> a2 ! col ! c = (if col \<le> c then gf_mul (a1 ! col ! c) inv else a1 ! col ! c)"
    using fold_update [where f = "\<lambda>j x. gf_mul x inv" and d = "a1 ! col" and a = col and b = m]
      len1 len1r col by (auto simp: a2_def)
  have wf2: "wf_sys m width (a2, s2)"
    using len1 len1r row(1) col by (auto simp: wf_sys_def a2_def s2_def nth_list_update)
  note rows = eliminate_rows [OF wf2 col order_refl, folded st, unfolded fst_conv snd_conv]
  have pivot: "ent a p col \<noteq> 0"
    using p(3) by (simp add: ent_def)
  have inv: "GF inv = inverse (ent a p col)"
    using p(3) col by (simp add: inv_def 1 tcol ent_def GF_inv)
  have zero: "ent a p c = 0" if "c < col" for c
    using unit p that by (auto simp: unit_upto_def)
  have a2: "ent a2 r c = (if r = col then inverse (ent a p col) * ent a p c else ent a (?t r) c)"
    if "r < m" "c < m" for r c
    using that zero [of c] row(2) [OF that(2)] len1 inv
    by (auto simp: ent_def a2_def 1 tcol GF_hom mult.commute)
  have s2: "byte_at (s2 ! r) k = (if r = col then inverse (ent a p col) * byte_at (syn ! p) k
      else byte_at (syn ! ?t r) k)" if "r < m" "k < width" for r k
    using that len1 len1r col inv by (auto simp: s2_def byte_at_def 1 tcol GF_hom mult.commute)
  show ?thesis
  proof (rule that [OF p(1,2) pivot])
    show "wf_sys m width (a', syn')"
      using rows by blast
    show "ent a' r c = (let B = (\<lambda>r. ent a (?t r)) in
        if r = col then inverse (B col col) * B col c
        else B r c + B r col * (inverse (B col col) * B col c))" if "r < m" "c < m" for r c
      using that rows a2 zero [of c] col tcol by (auto simp: Let_def)
    show "byte_at (syn' ! r) k = (let B = (\<lambda>r. ent a (?t r)); S = (\<lambda>r. byte_at (syn ! ?t r) k) in
        if r = col then inverse (B col col) * S col
        else S r + B r col * (inverse (B col col) * S col))" if "r < m" "k < width" for r k
      using that rows a2 s2 col tcol by (auto simp: Let_def)
  qed
qed

lemma eliminate_col_step:
  assumes wf: "wf_sys m width (a, syn)" and col: "col < m" and unit: "unit_upto m col a"
    and some: "eliminate_col width m (a, syn) col = Some (a', syn')"
  shows "wf_sys m width (a', syn')" "unit_upto m (Suc col) a'"
    "k < width \<Longrightarrow> solves m (ent a') v (\<lambda>r. byte_at (syn' ! r) k) \<longleftrightarrow>
       solves m (ent a) v (\<lambda>r. byte_at (syn ! r) k)"
    "solves m (ent a') v (\<lambda>r. 0) \<longleftrightarrow> solves m (ent a) v (\<lambda>r. 0)"
proof -
  obtain p where p: "col \<le> p" "p < m" "ent a p col \<noteq> 0" and wf': "wf_sys m width (a', syn')"
    and A: "\<And>r c. r < m \<Longrightarrow> c < m \<Longrightarrow> ent a' r c =
      (let B = (\<lambda>r. ent a (transpose_idx p col r)) in
       if r = col then inverse (B col col) * B col c
       else B r c + B r col * (inverse (B col col) * B col c))"
    and S: "\<And>r k. r < m \<Longrightarrow> k < width \<Longrightarrow> byte_at (syn' ! r) k =
      (let B = (\<lambda>r. ent a (transpose_idx p col r)); S = (\<lambda>r. byte_at (syn ! transpose_idx p col r) k) in
       if r = col then inverse (B col col) * S col
       else S r + B r col * (inverse (B col col) * S col))"
    using eliminate_col_entries [OF assms] by blast
  let ?t = "transpose_idx p col"
  have B: "ent a (?t col) col \<noteq> 0"
    using p by (cases "col = p") (simp_all add: transpose_idx_def)
  show "wf_sys m width (a', syn')"
    by (rule wf')
  show "solves m (ent a') v (\<lambda>r. byte_at (syn' ! r) k) \<longleftrightarrow>
      solves m (ent a) v (\<lambda>r. byte_at (syn ! r) k)" if "k < width"
  proof -
    have "solves m (ent a') v (\<lambda>r. byte_at (syn' ! r) k) \<longleftrightarrow>
        solves m (\<lambda>r. ent a (?t r)) v (\<lambda>r. byte_at (syn ! ?t r) k)"
      by (rule solves_pivot [OF col, where A = "\<lambda>r. ent a (?t r)"]) (simp_all add: A S B that Let_def)
    then show ?thesis
      using solves_swap [OF p(2) col, of "ent a" v "\<lambda>r. byte_at (syn ! r) k"] by simp
  qed
  show "solves m (ent a') v (\<lambda>r. 0) \<longleftrightarrow> solves m (ent a) v (\<lambda>r. 0)"
  proof -
    have "solves m (ent a') v (\<lambda>r. 0) \<longleftrightarrow> solves m (\<lambda>r. ent a (?t r)) v (\<lambda>r. 0)"
      by (rule solves_pivot [OF col, where A = "\<lambda>r. ent a (?t r)"]) (simp_all add: A B Let_def)
    then show ?thesis
      using solves_swap [OF p(2) col, of "ent a" v "\<lambda>r. 0"] by simp
  qed
  show "unit_upto m (Suc col) a'"
    unfolding unit_upto_def
  proof (intro allI impI)
    fix r c
    assume r: "r < m" and c: "c < Suc col"
    have zero: "ent a r c = (if r = c then 1 else 0)" if "r < m" "c < col" for r
      using unit that by (auto simp: unit_upto_def)
    show "ent a' r c = (if r = c then 1 else 0)"
    proof (cases "c = col")
      case True
      with r col B show ?thesis
        by (simp add: A Let_def)
    next
      case False
      with c p zero [OF p(2)] have cc: "c < col" "ent a (?t col) c = 0"
        by (auto simp: transpose_idx_def)
      have "ent a (?t r) c = (if r = c then 1 else 0)" if "r \<noteq> col"
        using cc(1) r p col that zero [OF r] zero [OF col] by (auto simp: transpose_idx_def)
      with r col cc show ?thesis
        by (cases "r = c") (simp_all add: A Let_def)
    qed
  qed
qed

lemma eliminate_some:
  assumes "wf_sys m width (a, syn)" "unit_upto m col a" "col + n = m"
    and "eliminate width m (a, syn) [col..<m] = Some (a', syn')"
  shows "wf_sys m width (a', syn') \<and> unit_upto m m a' \<and>
    (\<forall>k<width. \<forall>v. solves m (ent a') v (\<lambda>r. byte_at (syn' ! r) k) \<longleftrightarrow>
       solves m (ent a) v (\<lambda>r. byte_at (syn ! r) k)) \<and>
    (\<forall>v. solves m (ent a') v (\<lambda>r. 0) \<longleftrightarrow> solves m (ent a) v (\<lambda>r. 0))"
  using assms
proof (induction n arbitrary: col a syn)
  case (Suc n)
  then have upt: "[col..<m] = col # [Suc col..<m]"
    by (simp add: upt_conv_Cons)
  obtain a1 s1 where step: "eliminate_col width m (a, syn) col = Some (a1, s1)"
    using Suc.prems(4) by (auto simp: upt split: option.splits)
  have col: "col < m"
    using Suc.prems(3) by simp
  note s = eliminate_col_step [OF Suc.prems(1) col Suc.prems(2) step]
  have "eliminate width m (a1, s1) [Suc col..<m] = Some (a', syn')"
    using Suc.prems(4) by (simp add: upt step)
  from Suc.IH [OF s(1,2) _ this] Suc.prems(3) s(3,4) show ?case
    by simp
qed simp

text \<open>A system whose matrix has no kernel never runs out of pivots.\<close>

lemma eliminate_total:
  assumes "wf_sys m width (a, syn)" "unit_upto m col a" "col + n = m"
    and kernel: "\<And>v. solves m (ent a) v (\<lambda>r. 0) \<Longrightarrow> \<forall>c<m. v c = 0"
  shows "eliminate width m (a, syn) [col..<m] \<noteq> None"
  using assms
proof (induction n arbitrary: col a syn)
  case (Suc n)
  then have upt: "[col..<m] = col # [Suc col..<m]" and col: "col < m"
    by (simp_all add: upt_conv_Cons)
  show ?case
  proof (cases "eliminate_col width m (a, syn) col")
    case None
    have low: "ent a r col = 0" if "col \<le> r" "r < m" for r
      using eliminate_col_none [OF None] col that by simp
    let ?v = "\<lambda>c. if c = col then 1 else if c < col then ent a c col else 0"
    have "solves m (ent a) ?v (\<lambda>r. 0)"
      unfolding solves_def
    proof (intro allI impI)
      fix r assume r: "r < m"
      have "(\<Sum>c<m. ent a r c * ?v c) =
          (\<Sum>c<m. (if c = col then ent a r col else 0) + (if c = r \<and> r < col then ent a r col else 0))"
        using Suc.prems(2) r by (intro sum.cong) (auto simp: unit_upto_def)
      also have "\<dots> = ent a r col + (if r < col then ent a r col else 0)"
        using col r by (simp add: sum.distrib)
      also have "\<dots> = 0"
        using low r by simp
      finally show "(\<Sum>c<m. ent a r c * ?v c) = 0" .
    qed
    then have "?v col = 0"
      using Suc.prems(4) col by blast
    then show ?thesis
      by simp
  next
    case (Some st)
    obtain a1 s1 where st: "st = (a1, s1)"
      by (cases st)
    note s = eliminate_col_step [OF Suc.prems(1) col Suc.prems(2) Some [unfolded st]]
    have "eliminate width m (a1, s1) [Suc col..<m] \<noteq> None"
      using Suc.prems(3,4) s(4) by (intro Suc.IH [OF s(1,2)]) simp_all
    then show ?thesis
      by (simp add: upt Some st)
  qed
qed simp

section \<open>Recovery is sound\<close>

definition erasure_of :: "bytes option list \<Rightarrow> bytes list \<Rightarrow> bool" where
  "erasure_of d orig \<longleftrightarrow> length d = length orig \<and> (\<forall>j<length d. d ! j = None \<or> d ! j = Some (orig ! j))"

definition codeword :: "bytes list \<Rightarrow> nat \<Rightarrow> nat \<times> bytes \<Rightarrow> bool" where
  "codeword orig width par \<longleftrightarrow>
    (\<forall>k<width. byte_at (snd par) k = (\<Sum>j<length orig. gcoef (fst par) j * byte_at (orig ! j) k))"

lemma rs_encode_nth:
  assumes "p < parity_count"
  shows "rs_encode fragments parity_count width ! p = encode_parity fragments width p []"
  using assms fold_update(2) [where f = "\<lambda>p out. encode_parity fragments width p out"
      and d = "resize parity_count [] ([] :: bytes list)" and a = 0 and b = parity_count and i = p]
  by (simp add: rs_encode_def encode_into_def Let_def nth_resize)

lemma length_rs_encode [simp]: "length (rs_encode fragments parity_count width) = parity_count"
  using fold_update(1) [where f = "\<lambda>p out. encode_parity fragments width p out"
      and d = "resize parity_count [] ([] :: bytes list)" and a = 0 and b = parity_count]
  by (simp add: rs_encode_def encode_into_def Let_def)

lemma codeword_rs_encode:
  "p < parity_count \<Longrightarrow> codeword orig width (p, rs_encode orig parity_count width ! p)"
  by (simp add: codeword_def rs_encode_nth byte_at_encode_parity)

lemma byte_at_resize: "k < width \<Longrightarrow> byte_at (resize width 0 d) k = byte_at d k"
  by (simp add: byte_at_def nth_resize GF_hom)

lemma syndrome_fold:
  assumes "length out = width" "k < width"
  shows "length (foldl (\<lambda>syn j. case d ! j of None \<Rightarrow> syn | Some b \<Rightarrow> gf_mul_add syn b (coef pi j) width)
      out [0..<n]) = width \<and>
    byte_at (foldl (\<lambda>syn j. case d ! j of None \<Rightarrow> syn | Some b \<Rightarrow> gf_mul_add syn b (coef pi j) width)
      out [0..<n]) k =
    byte_at out k + (\<Sum>j<n. case d ! j of None \<Rightarrow> 0 | Some b \<Rightarrow> gcoef pi j * byte_at b k)"
proof (induction n)
  case (Suc n)
  with assms show ?case
    by (cases "d ! n") (simp_all add: byte_at_gf_mul_add GF_coef ac_simps)
qed (use assms in simp)

lemma length_syndrome [simp]: "length (syndrome d par width) = width"
proof -
  have "length (foldl (\<lambda>syn j. case d ! j of None \<Rightarrow> syn | Some b \<Rightarrow> gf_mul_add syn b (f j) width)
      out js) = length out" for f out js
    by (induction js arbitrary: out) (simp_all split: option.splits)
  then show ?thesis
    by (simp add: syndrome_def)
qed

lemma missing_indices:
  "distinct (missing_indices d)" "set (missing_indices d) = {j. j < length d \<and> d ! j = None}"
  by (auto simp: missing_indices_def)

lemma sum_missing:
  "(\<Sum>c<length (missing_indices d). f (missing_indices d ! c)) =
   (\<Sum>j<length d. if d ! j = None then f j else 0)" for f :: "nat \<Rightarrow> gf"
proof -
  have "(\<Sum>c<length (missing_indices d). f (missing_indices d ! c)) = sum_list (map f (missing_indices d))"
    by (simp add: sum_list_map_nth)
  also have "\<dots> = sum f (set (missing_indices d))"
    by (simp add: missing_indices(1) sum_list_distinct_conv_sum_set)
  also have "\<dots> = (\<Sum>j<length d. if d ! j = None then f j else 0)"
    by (subst sum.inter_filter [symmetric]) (auto simp: missing_indices(2) intro: sum.cong)
  finally show ?thesis .
qed

text \<open>The lost bytes solve the system the decoder sets up.\<close>

lemma lost_bytes_solve:
  assumes "erasure_of d orig" "codeword orig width par" "k < width"
  shows "(\<Sum>c<length (missing_indices d). gcoef (fst par) (missing_indices d ! c) *
      byte_at (orig ! (missing_indices d ! c)) k) = byte_at (syndrome d par width) k"
proof -
  let ?f = "\<lambda>j. gcoef (fst par) j * byte_at (orig ! j) k"
  have len: "length d = length orig"
    using assms(1) by (simp add: erasure_of_def)
  have "byte_at (syndrome d par width) k =
      byte_at (snd par) k + (\<Sum>j<length d. case d ! j of None \<Rightarrow> 0 | Some b \<Rightarrow> gcoef (fst par) j * byte_at b k)"
    using syndrome_fold [where out = "resize width 0 (snd par)" and width = width and k = k and d = d
        and pi = "fst par" and n = "length d"] assms(3)
    by (simp add: syndrome_def byte_at_resize)
  also have "(\<Sum>j<length d. case d ! j of None \<Rightarrow> 0 | Some b \<Rightarrow> gcoef (fst par) j * byte_at b k) =
      (\<Sum>j<length d. if d ! j = None then 0 else ?f j)"
    using assms(1) by (intro sum.cong) (auto simp: erasure_of_def split: option.splits)
  also have "byte_at (snd par) k = (\<Sum>j<length d. ?f j)"
    using assms(2,3) by (simp add: codeword_def len)
  also have "(\<Sum>j<length d. ?f j) + (\<Sum>j<length d. if d ! j = None then 0 else ?f j) =
      (\<Sum>j<length d. if d ! j = None then ?f j else 0)"
    unfolding sum.distrib [symmetric] by (intro sum.cong) auto
  finally show ?thesis
    by (simp add: sum_missing [of ?f])
qed

lemma fill_missing:
  assumes "distinct ms" "set ms \<subseteq> {..<length d}" "n \<le> length ms"
  shows "length (foldl (\<lambda>d c. d[ms ! c := g c]) d [0..<n]) = length d \<and>
    (\<forall>c<n. foldl (\<lambda>d c. d[ms ! c := g c]) d [0..<n] ! (ms ! c) = g c) \<and>
    (\<forall>j<length d. j \<notin> set ms \<longrightarrow> foldl (\<lambda>d c. d[ms ! c := g c]) d [0..<n] ! j = d ! j)"
  using assms(3)
proof (induction n)
  case (Suc n)
  let ?d = "foldl (\<lambda>d c. d[ms ! c := g c]) d [0..<n]"
  have "ms ! n \<in> set ms"
    using Suc.prems by simp
  with assms(2) have n: "ms ! n < length d" "ms ! n \<in> set ms"
    by auto
  have other: "ms ! n \<noteq> ms ! c" if "c < n" for c
    using assms(1) Suc.prems that by (simp add: nth_eq_iff_index_eq)
  have IH: "length ?d = length d" "\<And>c. c < n \<Longrightarrow> ?d ! (ms ! c) = g c"
    "\<And>j. j < length d \<Longrightarrow> j \<notin> set ms \<Longrightarrow> ?d ! j = d ! j"
    using Suc by auto
  have fold: "foldl (\<lambda>d c. d[ms ! c := g c]) d [0..<Suc n] = ?d[ms ! n := g n]"
    by simp
  have "?d[ms ! n := g n] ! (ms ! c) = g c" if "c < Suc n" for c
    using that n IH(1,2) other by (cases "c = n") simp_all
  moreover have "?d[ms ! n := g n] ! j = d ! j" if "j < length d" "j \<notin> set ms" for j
    using that n IH(1) IH(3) [of j] by (cases "j = ms ! n") simp_all
  ultimately show ?case
    unfolding fold using IH(1) by simp
qed simp

lemma rs_decode_cases:
  assumes "missing_indices d \<noteq> []" "length (missing_indices d) \<le> length parity"
  defines "m \<equiv> length (missing_indices d)"
  shows "rs_decode d parity width =
    (case eliminate width m
        (map (\<lambda>r. map (\<lambda>c. coef (fst (parity ! r)) (missing_indices d ! c)) [0..<m]) [0..<m],
         map (\<lambda>r. syndrome d (parity ! r) width) [0..<m]) [0..<m] of
       None \<Rightarrow> (False, d)
     | Some st' \<Rightarrow> (True, foldl (\<lambda>d' c. d'[missing_indices d ! c := Some (snd st' ! c)]) d [0..<m]))"
  using assms(1,2) by (auto simp: rs_decode_def Let_def m_def split: option.splits)

lemma recovered:
  assumes erasure: "erasure_of d orig"
    and words: "\<And>r. r < length (missing_indices d) \<Longrightarrow> codeword orig width (parity ! r)"
    and ok: "rs_decode d parity width = (True, d')"
  shows "length d' = length d"
    "j < length d \<Longrightarrow> d' ! j = (if d ! j = None then Some (resize width 0 (orig ! j)) else d ! j)"
proof -
  let ?ms = "missing_indices d"
  define m where "m = length ?ms"
  have "length d' = length d \<and> (\<forall>j<length d. d' ! j =
      (if d ! j = None then Some (resize width 0 (orig ! j)) else d ! j))"
  proof (cases "?ms = []")
    case True
    then have "\<forall>j<length d. d ! j \<noteq> None"
      using missing_indices(2) [of d] by auto
    with True ok show ?thesis
      by (auto simp: rs_decode_def)
  next
    case False
    let ?a = "map (\<lambda>r. map (\<lambda>c. coef (fst (parity ! r)) (?ms ! c)) [0..<m]) [0..<m]"
      and ?s = "map (\<lambda>r. syndrome d (parity ! r) width) [0..<m]"
    have enough: "length ?ms \<le> length parity"
      using ok False by (auto simp: rs_decode_def Let_def split: if_splits)
    note run = rs_decode_cases [OF False enough, of width, folded m_def]
    obtain a' s' where elim: "eliminate width m (?a, ?s) [0..<m] = Some (a', s')"
      and d': "d' = foldl (\<lambda>d' c. d'[?ms ! c := Some (s' ! c)]) d [0..<m]"
      using ok run by (auto split: option.splits)
    have wf: "wf_sys m width (?a, ?s)"
      by (simp add: wf_sys_def)
    have fin: "wf_sys m width (a', s')" "unit_upto m m a'"
      "\<And>k v. k < width \<Longrightarrow> solves m (ent a') v (\<lambda>r. byte_at (s' ! r) k) \<longleftrightarrow>
         solves m (ent ?a) v (\<lambda>r. byte_at (?s ! r) k)"
      using eliminate_some [OF wf _ _ elim] by (auto simp: unit_upto_def)
    have s': "s' ! c = resize width 0 (orig ! (?ms ! c))" if c: "c < m" for c
    proof (rule nth_equalityI)
      show len: "length (s' ! c) = length (resize width 0 (orig ! (?ms ! c)))"
        using fin(1) c by (simp add: wf_sys_def)
      fix k assume k: "k < length (s' ! c)"
      then have kw: "k < width"
        using len by simp
      let ?v = "\<lambda>c. byte_at (orig ! (?ms ! c)) k"
      have "solves m (ent ?a) ?v (\<lambda>r. byte_at (?s ! r) k)"
        using lost_bytes_solve [OF erasure words kw] by (simp add: solves_def ent_def GF_coef m_def)
      then have "solves m (ent a') ?v (\<lambda>r. byte_at (s' ! r) k)"
        using fin(3) [OF kw] by simp
      then have "byte_at (s' ! c) k = (\<Sum>j<m. ent a' c j * ?v j)"
        using c by (simp add: solves_def)
      also have "\<dots> = (\<Sum>j<m. if j = c then ?v j else 0)"
        using fin(2) c by (intro sum.cong) (auto simp: unit_upto_def)
      also have "\<dots> = byte_at (resize width 0 (orig ! (?ms ! c))) k"
        using c kw by (simp add: byte_at_resize)
      finally show "s' ! c ! k = resize width 0 (orig ! (?ms ! c)) ! k"
        using k kw by (simp add: byte_at_def)
    qed
    have "set ?ms \<subseteq> {..<length d}"
      by (auto simp: missing_indices(2))
    note fill = fill_missing [OF missing_indices(1) this, of m "\<lambda>c. Some (s' ! c)", folded d']
    have "d' ! j = Some (resize width 0 (orig ! j))" if j: "j < length d" "d ! j = None" for j
    proof -
      from j have "j \<in> set ?ms"
        by (simp add: missing_indices(2))
      then obtain c where "c < m" "j = ?ms ! c"
        by (auto simp: in_set_conv_nth m_def)
      with fill s' show ?thesis
        by (simp add: m_def)
    qed
    moreover have "d' ! j = d ! j" if "j < length d" "d ! j \<noteq> None" for j
      using fill that by (simp add: m_def missing_indices(2))
    ultimately show ?thesis
      using fill by (simp add: m_def)
  qed
  then show "length d' = length d"
    "j < length d \<Longrightarrow> d' ! j = (if d ! j = None then Some (resize width 0 (orig ! j)) else d ! j)"
    by auto
qed

section \<open>Recovery is complete for consecutive parities\<close>

text \<open>Vandermonde: powers of distinct elements are independent.\<close>

lemma vandermonde:
  fixes x y :: "nat \<Rightarrow> gf"
  assumes "\<And>c c'. c < m \<Longrightarrow> c' < m \<Longrightarrow> x c = x c' \<Longrightarrow> c = c'"
    and "\<And>i. i < m \<Longrightarrow> (\<Sum>c<m. x c ^ i * y c) = 0"
  shows "\<forall>c<m. y c = 0"
  using assms
proof (induction m arbitrary: y)
  case (Suc m)
  let ?z = "\<lambda>c. (x c - x m) * y c"
  have "(\<Sum>c<m. x c ^ i * ?z c) = 0" if "i < m" for i
  proof -
    have "(\<Sum>c<m. x c ^ i * ?z c) = (\<Sum>c<Suc m. x c ^ i * ?z c)"
      by simp
    also have "\<dots> = (\<Sum>c<Suc m. x c ^ Suc i * y c - x m * (x c ^ i * y c))"
      by (intro sum.cong refl) (simp add: algebra_simps del: gf_minus)
    also have "\<dots> = (\<Sum>c<Suc m. x c ^ Suc i * y c) - x m * (\<Sum>c<Suc m. x c ^ i * y c)"
      by (simp only: sum_subtractf sum_distrib_left)
    also have "\<dots> = 0"
      using Suc.prems(2) [of i] Suc.prems(2) [of "Suc i"] that by (simp del: sum.lessThan_Suc)
    finally show ?thesis .
  qed
  then have "\<forall>c<m. ?z c = 0"
    using Suc.prems(1) by (intro Suc.IH) (auto simp del: gf_minus)
  then have low: "y c = 0" if "c < m" for c
    using that Suc.prems(1) [of c m] by (auto simp del: gf_minus)
  moreover have "y m = 0"
    using Suc.prems(2) [of 0] low by simp
  ultimately show ?case
    by (auto simp: less_Suc_eq)
qed simp

lemma gcoef_node_inject:
  "i < 255 \<Longrightarrow> j < 255 \<Longrightarrow> GF (word_of_nat (i + 1)) = GF (word_of_nat (j + 1)) \<Longrightarrow> i = j"
  by (simp add: word_of_nat_eq_iff take_bit_nat_def del: of_nat_Suc of_nat_add)

lemma gcoef_node_nonzero: "j < 255 \<Longrightarrow> GF (word_of_nat (j + 1)) \<noteq> 0"
  by (simp add: word_of_nat_eq_0_iff del: of_nat_Suc of_nat_add)
    (auto dest: dvd_imp_le)

lemma rs_decode_complete:
  assumes len: "length d \<le> 255" and enough: "length (missing_indices d) \<le> length parity"
    and idx: "(\<lambda>r. fst (parity ! r)) ` {..<length (missing_indices d)} =
      {base..<base + length (missing_indices d)}"
  shows "fst (rs_decode d parity width)"
proof (cases "missing_indices d = []")
  case False
  let ?ms = "missing_indices d"
  define m where "m = length ?ms"
  let ?a = "map (\<lambda>r. map (\<lambda>c. coef (fst (parity ! r)) (?ms ! c)) [0..<m]) [0..<m]"
    and ?s = "map (\<lambda>r. syndrome d (parity ! r) width) [0..<m]"
  let ?x = "\<lambda>c. GF (word_of_nat (?ms ! c + 1))"
  have ms: "?ms ! c < 255" if "c < m" for c
    using nth_mem [of c ?ms] that len by (auto simp: missing_indices(2) m_def)
  have node: "c = c'" if "c < m" "c' < m" "?x c = ?x c'" for c c'
    using gcoef_node_inject [OF ms ms] that missing_indices(1) [of d] m_def nth_eq_iff_index_eq
    by metis
  have "\<forall>c<m. v c = 0" if ker: "solves m (ent ?a) v (\<lambda>r. 0)" for v
  proof -
    have sum0: "(\<Sum>c<m. ?x c ^ i * (?x c ^ base * v c)) = 0" if "i < m" for i
    proof -
      from that have "base + i \<in> (\<lambda>r. fst (parity ! r)) ` {..<m}"
        using idx by (simp add: m_def)
      then obtain r where r: "r < m" "fst (parity ! r) = base + i"
        by auto
      then have "(\<Sum>c<m. gcoef (base + i) (?ms ! c) * v c) = 0"
        using ker by (auto simp: solves_def ent_def GF_coef)
      then show ?thesis
        by (simp only: gcoef_def power_add ac_simps)
    qed
    have "\<forall>c<m. ?x c ^ base * v c = 0"
      by (rule vandermonde [where x = ?x]) (rule node sum0, assumption+)+
    then show ?thesis
      using gcoef_node_nonzero [OF ms] by auto
  qed
  moreover have "wf_sys m width (?a, ?s)" "unit_upto m 0 ?a"
    by (simp_all add: wf_sys_def unit_upto_def)
  ultimately have "eliminate width m (?a, ?s) [0..<m] \<noteq> None"
    by (intro eliminate_total) auto
  then show ?thesis
    using rs_decode_cases [OF False enough, of width, folded m_def] by (auto split: option.splits)
qed (simp add: rs_decode_def)

text \<open>The decoder as a function of what was sent.\<close>

definition sent_parity :: "bytes list \<Rightarrow> nat \<Rightarrow> nat \<Rightarrow> (nat \<times> bytes) list \<Rightarrow> bool" where
  "sent_parity orig parity_count width parity \<longleftrightarrow>
    (\<forall>par\<in>set parity. fst par < parity_count \<and> snd par = rs_encode orig parity_count width ! fst par)"

definition restore :: "bytes list \<Rightarrow> nat \<Rightarrow> bytes option list \<Rightarrow> bytes option list" where
  "restore orig width d =
    map (\<lambda>j. if d ! j = None then Some (resize width 0 (orig ! j)) else d ! j) [0..<length d]"

lemma sent_codeword:
  "sent_parity orig parity_count width parity \<Longrightarrow> r < length parity \<Longrightarrow> codeword orig width (parity ! r)"
  unfolding sent_parity_def using codeword_rs_encode by (metis nth_mem prod.collapse)

lemma rs_decode_true_enough:
  "fst (rs_decode d parity width) \<Longrightarrow> length (missing_indices d) \<le> length parity"
  by (auto simp: rs_decode_def Let_def split: if_splits)

lemma restored:
  assumes "erasure_of d orig" "sent_parity orig parity_count width parity" "fst (rs_decode d parity width)"
  shows "rs_decode d parity width = (True, restore orig width d)"
proof -
  obtain d' where d': "rs_decode d parity width = (True, d')"
    using assms(3) by (cases "rs_decode d parity width") auto
  have "codeword orig width (parity ! r)" if "r < length (missing_indices d)" for r
    using sent_codeword [OF assms(2)] rs_decode_true_enough [OF assms(3)] that by simp
  then have "d' = restore orig width d"
    using recovered [OF assms(1) _ d'] by (intro nth_equalityI) (auto simp: restore_def)
  with d' show ?thesis
    by simp
qed

lemma rs_decode_false: "\<not> fst (rs_decode d parity width) \<Longrightarrow> rs_decode d parity width = (False, d)"
  by (auto simp: rs_decode_def Let_def split: if_splits option.splits)

text \<open>
  C5: whatever fragments were lost and whatever parities arrived, the decoder either gives
  up and leaves the fragments as they were, or fills every gap with the bytes that were
  sent, padded to the fragment width, and changes nothing else. It never restores wrong data.
\<close>

theorem rs_decode_never_wrong:
  assumes "erasure_of d orig" "sent_parity orig parity_count width parity"
  shows "rs_decode d parity width = (False, d) \<or> rs_decode d parity width = (True, restore orig width d)"
  using restored [OF assms] rs_decode_false by blast

lemma rs_decode_never_wrong_witness:
  "rs_decode [None, Some [5]] [(1, rs_encode [[7], [5]] 2 1 ! 1)] 1 = (False, [None, Some [5]]) \<or>
   rs_decode [None, Some [5]] [(1, rs_encode [[7], [5]] 2 1 ! 1)] 1 =
     (True, restore [[7], [5]] 1 [None, Some [5]])"
  by (rule rs_decode_never_wrong [where parity_count = 2])
    (auto simp: erasure_of_def sent_parity_def less_Suc_eq nth_Cons')

text \<open>
  C6: with at most 255 data fragments, as many parities as losses, and parity indices that
  form a run (in any order of arrival), the decoder succeeds and restores every fragment.
  A single loss is the case of a run of length one: any one parity repairs it.
\<close>

theorem rs_decode_recovers:
  assumes "erasure_of d orig" "sent_parity orig parity_count width parity"
    and "length d \<le> 255" "length (missing_indices d) \<le> length parity"
    and "(\<lambda>r. fst (parity ! r)) ` {..<length (missing_indices d)} =
      {base..<base + length (missing_indices d)}"
  shows "rs_decode d parity width = (True, restore orig width d)"
  by (rule restored [OF assms(1,2) rs_decode_complete [OF assms(3-5)]])

lemma rs_decode_recovers_witness:
  "rs_decode [None, Some [5], None] [(2, rs_encode [[7], [5], [9, 1]] 3 2 ! 2),
     (1, rs_encode [[7], [5], [9, 1]] 3 2 ! 1)] 2 = (True, [Some [7, 0], Some [5], Some [9, 1]])"
proof -
  have ms: "missing_indices [None, Some [5], None] = [0, 2]"
    by (simp add: missing_indices_def upt_conv_Cons)
  have "{..<2 :: nat} = {0, 1}" "{1..<1 + 2 :: nat} = {2, 1}"
    by auto
  then show ?thesis
    using rs_decode_recovers [of "[None, Some [5], None]" "[[7], [5], [9, 1]]" 3 2
      "[(2, rs_encode [[7], [5], [9, 1]] 3 2 ! 2), (1, rs_encode [[7], [5], [9, 1]] 3 2 ! 1)]" 1]
    by (simp add: ms erasure_of_def sent_parity_def restore_def resize_def upt_conv_Cons less_Suc_eq
        nth_Cons' numeral_2_eq_2)
qed

text \<open>
  Three lost fragments are not always repaired by three parities: parities 0, 1 and 3
  never repair the loss of fragments 0, 1 and 2, whatever the data was. The comment on
  \<open>ReedSolomon\<close> promises recovery from any parities.
\<close>

theorem three_parities_may_fail:
  "rs_decode [None, None, None] [(0, p0), (1, p1), (3, p3)] width = (False, [None, None, None])"
proof -
  let ?d = "[None, None, None] :: bytes option list" and ?par = "[(0, p0), (1, p1), (3 :: nat, p3)]"
  have ms: "missing_indices ?d = [0, 1, 2]"
    by (simp add: missing_indices_def upt_conv_Cons numeral_2_eq_2 nth_Cons')
  let ?a = "map (\<lambda>r. map (\<lambda>c. coef (fst (?par ! r)) ([0, 1, 2] ! c)) [0..<3]) [0..<3]"
    and ?s = "map (\<lambda>r. syndrome ?d (?par ! r) width) [0..<3]"
  let ?v = "\<lambda>c :: nat. GF (word_of_nat (c + 1))"
  have less3: "(\<forall>r<3. P r) \<longleftrightarrow> P 0 \<and> P (Suc 0) \<and> P 2" for P :: "nat \<Rightarrow> bool"
    by (auto simp: numeral_3_eq_3 numeral_2_eq_2 less_Suc_eq)
  have sum3: "(\<Sum>c<3. f c) = f 0 + f 1 + f 2" for f :: "nat \<Rightarrow> gf"
    by (simp add: numeral_3_eq_3 numeral_2_eq_2)
  have three: "GF 3 = GF 2 + 1"
    by (simp add: plus_gf_def one_gf_def)
  have two: "x + x = 0" for x :: gf
    by simp
  have sq: "(x + 1) * (x + 1) = x * x + 1" for x :: gf
  proof -
    have "(x + 1) * (x + 1) = x * x + (x + x) + 1"
      by (simp add: distrib_left distrib_right add.assoc del: gf_add_self)
    then show ?thesis by (simp only: two add_0_right)
  qed
  have square: "GF 2 * GF 2 + (GF 2 + 1) * (GF 2 + 1) = 1"
    by (simp only: sq two add.assoc [symmetric] add_0_left)
  have "x ^ 3 * x = (x * x) * (x * x)" for x :: gf
    by (simp add: power3_eq_cube mult.assoc)
  then have cube: "GF 2 ^ 3 * GF 2 + (GF 2 + 1) ^ 3 * (GF 2 + 1) = 1"
    by (simp only: sq two add.assoc [symmetric] add_0_left)
  have char2: "(2 :: gf) = 0"
    using two [of 1] by (simp only: one_add_one)
  have ker: "solves 3 (ent ?a) ?v (\<lambda>r. 0)"
    using cube square
    by (simp add: solves_def less3 sum3 ent_def GF_coef gcoef_def three GF_hom ac_simps char2)
  have "eliminate width 3 (?a, ?s) [0..<3] = None"
  proof (rule ccontr)
    assume "\<not> ?thesis"
    then obtain a' s' where elim: "eliminate width 3 (?a, ?s) [0..<3] = Some (a', s')"
      by auto
    have "wf_sys 3 width (?a, ?s)" "unit_upto 3 0 ?a"
      by (simp_all add: wf_sys_def unit_upto_def)
    then have "unit_upto 3 3 a'" "solves 3 (ent a') ?v (\<lambda>r. 0)"
      using eliminate_some [OF _ _ _ elim] ker by auto
    then show False
      by (simp add: solves_def less3 sum3 unit_upto_def GF_hom)
  qed
  then show ?thesis
    using rs_decode_cases [of ?d ?par width] by (simp add: ms numeral_3_eq_3)
qed

end
