(* ===== verification/Ordered_Map.thy ===== *)
theory Ordered_Map
  imports Tight_Prelude
begin

text \<open>
  \<open>std::map\<close>: an association list kept in key order. The code iterates over its maps
  (pending packets, missing sequence numbers, half-received messages) in key order,
  so the order is part of the model. The locale states the laws its clients rely on;
  it is interpreted on the association lists below.
\<close>

section \<open>The interface\<close>

locale ordered_map =
  fixes look :: "'m \<Rightarrow> 'k::linorder \<Rightarrow> 'v option"
    and put :: "'k \<Rightarrow> 'v \<Rightarrow> 'm \<Rightarrow> 'm"
    and del :: "'k \<Rightarrow> 'm \<Rightarrow> 'm"
    and keys :: "'m \<Rightarrow> 'k list"
    and ok :: "'m \<Rightarrow> bool"
  assumes look_put: "look (put k v m) = (look m)(k \<mapsto> v)"
    and look_del: "look (del k m) = (look m)(k := None)"
    and ok_put: "ok m \<Longrightarrow> ok (put k v m)"
    and ok_del: "ok m \<Longrightarrow> ok (del k m)"
    and keys_sorted: "ok m \<Longrightarrow> sorted_wrt (<) (keys m)"
    and keys_look: "set (keys m) = dom (look m)"
begin

lemma look_put_other: "j \<noteq> k \<Longrightarrow> look (put k v m) j = look m j"
  by (simp add: look_put)

lemma put_del_look: "look (put k v (del k m)) = look (put k v m)"
  by (simp add: look_put look_del)

lemma keys_put: "set (keys (put k v m)) = insert k (set (keys m))"
  by (simp add: keys_look look_put)

lemma keys_del: "set (keys (del k m)) = set (keys m) - {k}"
  by (auto simp: keys_look look_del split: if_splits)

lemma keys_distinct: "ok m \<Longrightarrow> distinct (keys m)"
  using keys_sorted strict_sorted_iff by blast

lemma size_del: "ok m \<Longrightarrow> length (keys (del k m)) \<le> length (keys m)"
  by (metis keys_distinct ok_del keys_del distinct_card card_mono finite_set Diff_subset)

lemma size_put: "ok m \<Longrightarrow> length (keys (put k v m)) \<le> Suc (length (keys m))"
  by (metis keys_distinct ok_put keys_put distinct_card card_insert_le_m1 finite_set
      card_insert_if le_Suc_eq order_refl)

end

section \<open>Sorted association lists\<close>

type_synonym ('k, 'v) omap = "('k \<times> 'v) list"

fun om_put :: "'k::linorder \<Rightarrow> 'v \<Rightarrow> ('k, 'v) omap \<Rightarrow> ('k, 'v) omap" where
  "om_put k v [] = [(k, v)]"
| "om_put k v ((k', v') # m) =
     (if k < k' then (k, v) # (k', v') # m
      else if k = k' then (k, v) # m
      else (k', v') # om_put k v m)"

definition om_del :: "'k \<Rightarrow> ('k, 'v) omap \<Rightarrow> ('k, 'v) omap" where
  "om_del k m = filter (\<lambda>e. fst e \<noteq> k) m"

definition om_ok :: "('k::linorder, 'v) omap \<Rightarrow> bool" where
  "om_ok m = sorted_wrt (<) (map fst m)"

lemma map_of_om_put [simp]: "map_of (om_put k v m) = (map_of m)(k \<mapsto> v)"
  by (induction m) (auto simp: fun_eq_iff)

lemma map_of_om_del [simp]: "map_of (om_del k m) = (map_of m)(k := None)"
  by (induction m) (auto simp: om_del_def fun_eq_iff)

lemma fst_om_put: "fst ` set (om_put k v m) = insert k (fst ` set m)"
  by (simp add: dom_map_of_conv_image_fst [symmetric])

lemma set_om_put_subset: "set (om_put k v m) \<subseteq> insert (k, v) (set m)"
  by (induction m rule: om_put.induct) (auto split: if_splits)

lemma set_om_del: "set (om_del k m) = {e \<in> set m. fst e \<noteq> k}"
  by (auto simp: om_del_def)

lemma om_ok_Nil [simp]: "om_ok []"
  by (simp add: om_ok_def)

lemma om_ok_put [simp]: "om_ok m \<Longrightarrow> om_ok (om_put k v m)"
  unfolding om_ok_def
proof (induction m)
  case (Cons e m)
  have "set (map fst (om_put k v m)) = insert k (set (map fst m))"
    by (simp add: fst_om_put)
  with Cons show ?case
    by (cases e) (auto simp del: set_map)
qed simp

lemma sorted_filter_fst: "sorted_wrt (<) (map fst m) \<Longrightarrow> sorted_wrt (<) (map fst (filter P m))"
  by (induction m) auto

lemma om_ok_filter [simp]: "om_ok m \<Longrightarrow> om_ok (filter P m)"
  by (simp add: om_ok_def sorted_filter_fst)

lemma om_ok_del [simp]: "om_ok m \<Longrightarrow> om_ok (om_del k m)"
  by (simp add: om_del_def)

lemma om_ok_distinct: "om_ok m \<Longrightarrow> distinct (map fst m)"
  unfolding om_ok_def using strict_sorted_iff by blast

lemma om_ok_map_of: "om_ok m \<Longrightarrow> (k, v) \<in> set m \<longleftrightarrow> map_of m k = Some v"
  using om_ok_distinct by (metis map_of_eq_Some_iff)

interpretation om: ordered_map map_of om_put om_del "map fst" om_ok
proof unfold_locales
  show "sorted_wrt (<) (map fst m)" if "om_ok m" for m :: "('a, 'b) omap"
    using that by (simp add: om_ok_def)
qed (simp_all add: dom_map_of_conv_image_fst)

end
