(* ===== verification/Blocking_Queue.thy ===== *)
theory Blocking_Queue
  imports Tight_Prelude
begin

text \<open>
  \<open>BlockingQueue\<close> of \<open>blocking_queue.hpp\<close>: a bounded FIFO on a singly linked list whose
  nodes are recycled through a free list of at most 64 nodes. The heap of nodes is explicit:
  addresses are numbers, \<open>new\<close> takes a fresh one, \<open>delete\<close> removes the node, and following
  a null or dangling pointer is the value \<open>None\<close> of an operation. A call that has to wait on a
  condition variable returns \<open>Wait\<close> and leaves the queue alone. The second half
  refines the queue to a list and adds the threads waiting on the condition variables.
\<close>

section \<open>State\<close>

record 'a node =
  nd_item :: "'a option"
  nd_next :: "nat option"

record 'a bq =
  bq_capacity :: nat
  bq_size :: nat
  bq_head :: "nat option"
  bq_tail :: "nat option"
  bq_free_nodes :: "nat option"
  bq_free_count :: nat
  bq_closed :: bool
  bq_heap :: "nat \<rightharpoonup> 'a node"
  bq_fresh :: nat

definition bq_new :: "nat \<Rightarrow> 'a bq" where
  "bq_new capacity = \<lparr> bq_capacity = capacity, bq_size = 0, bq_head = None, bq_tail = None,
     bq_free_nodes = None, bq_free_count = 0, bq_closed = False, bq_heap = Map.empty, bq_fresh = 0 \<rparr>"

section \<open>Node lists\<close>

definition obtain_node_locked :: "'a bq \<Rightarrow> (nat \<times> 'a bq) option" where
  "obtain_node_locked q =
    (case bq_free_nodes q of
       Some a \<Rightarrow>
         (case bq_heap q a of
            None \<Rightarrow> None
          | Some n \<Rightarrow> Some (a, q\<lparr> bq_free_nodes := nd_next n,
              bq_heap := (bq_heap q)(a \<mapsto> n\<lparr> nd_next := None \<rparr>),
              bq_free_count := bq_free_count q - 1 \<rparr>))
     | None \<Rightarrow> Some (bq_fresh q, q\<lparr>
         bq_heap := (bq_heap q)(bq_fresh q \<mapsto> \<lparr> nd_item = None, nd_next = None \<rparr>),
         bq_fresh := bq_fresh q + 1 \<rparr>))"

definition recycle_node_locked :: "nat \<Rightarrow> 'a bq \<Rightarrow> 'a bq option" where
  "recycle_node_locked a q =
    (case bq_heap q a of
       None \<Rightarrow> None
     | Some n \<Rightarrow>
         (if bq_free_count q < 64
          then Some (q\<lparr> bq_heap := (bq_heap q)(a \<mapsto> n\<lparr> nd_item := None, nd_next := bq_free_nodes q \<rparr>),
            bq_free_nodes := Some a, bq_free_count := bq_free_count q + 1 \<rparr>)
          else Some (q\<lparr> bq_heap := (bq_heap q)(a := None) \<rparr>)))"

definition emplace :: "nat \<Rightarrow> 'a \<Rightarrow> 'a bq \<Rightarrow> 'a bq option" where
  "emplace a x q =
    (case bq_heap q a of
       None \<Rightarrow> None
     | Some n \<Rightarrow> Some (q\<lparr> bq_heap := (bq_heap q)(a \<mapsto> n\<lparr> nd_item := Some x \<rparr>) \<rparr>))"

definition link_tail :: "nat \<Rightarrow> 'a bq \<Rightarrow> 'a bq option" where
  "link_tail a q =
    (case bq_tail q of
       Some t \<Rightarrow>
         (case bq_heap q t of
            None \<Rightarrow> None
          | Some n \<Rightarrow> Some (q\<lparr> bq_heap := (bq_heap q)(t \<mapsto> n\<lparr> nd_next := Some a \<rparr>),
              bq_tail := Some a, bq_size := bq_size q + 1 \<rparr>))
     | None \<Rightarrow> Some (q\<lparr> bq_head := Some a, bq_tail := Some a, bq_size := bq_size q + 1 \<rparr>))"

definition unlink_head_locked :: "'a bq \<Rightarrow> ('a \<times> 'a bq) option" where
  "unlink_head_locked q =
    (case bq_head q of
       None \<Rightarrow> None
     | Some a \<Rightarrow>
         (case bq_heap q a of
            None \<Rightarrow> None
          | Some n \<Rightarrow>
              (let q = q\<lparr> bq_head := nd_next n \<rparr>;
                   q = (if bq_head q = None then q\<lparr> bq_tail := None \<rparr> else q);
                   q = q\<lparr> bq_size := bq_size q - 1 \<rparr>
               in case nd_item n of
                    None \<Rightarrow> None
                  | Some x \<Rightarrow>
                      (case recycle_node_locked a q of
                         None \<Rightarrow> None
                       | Some q \<Rightarrow> Some (x, q)))))"

section \<open>Operations\<close>

datatype 'r outcome = Wait | Done 'r

definition append_item :: "'a \<Rightarrow> 'a bq \<Rightarrow> 'a bq option" where
  "append_item x q =
    (case obtain_node_locked q of
       None \<Rightarrow> None
     | Some (a, q) \<Rightarrow>
         (case emplace a x q of
            None \<Rightarrow> None
          | Some q \<Rightarrow> link_tail a q))"

definition bq_push :: "'a \<Rightarrow> 'a bq \<Rightarrow> (bool outcome \<times> 'a bq) option" where
  "bq_push x q =
    (if bq_closed q then Some (Done False, q)
     else if bq_capacity q > 0 \<and> bq_size q \<ge> bq_capacity q \<and> \<not> (bq_size q < bq_capacity q \<or> bq_closed q)
     then Some (Wait, q)
     else case append_item x q of
            None \<Rightarrow> None
          | Some q \<Rightarrow> Some (Done True, q))"

definition bq_try_push :: "'a \<Rightarrow> 'a bq \<Rightarrow> (bool \<times> 'a bq) option" where
  "bq_try_push x q =
    (if bq_closed q \<or> (bq_capacity q > 0 \<and> bq_size q \<ge> bq_capacity q) then Some (False, q)
     else case append_item x q of
            None \<Rightarrow> None
          | Some q \<Rightarrow> Some (True, q))"

definition bq_unlink_some :: "'a bq \<Rightarrow> ('a option \<times> 'a bq) option" where
  "bq_unlink_some q = (case unlink_head_locked q of None \<Rightarrow> None | Some (x, q) \<Rightarrow> Some (Some x, q))"

definition bq_take :: "'a bq \<Rightarrow> ('a option outcome \<times> 'a bq) option" where
  "bq_take q =
    (if \<not> (bq_size q > 0 \<or> bq_closed q) then Some (Wait, q)
     else if bq_closed q \<and> bq_size q = 0 then Some (Done None, q)
     else map_option (\<lambda>(r, q). (Done r, q)) (bq_unlink_some q))"

text \<open>\<open>timed_out\<close>: the timeout elapsed before the queue was notified.\<close>

definition bq_take_for :: "bool \<Rightarrow> 'a bq \<Rightarrow> ('a option outcome \<times> 'a bq) option" where
  "bq_take_for timed_out q =
    (let ok = (bq_size q > 0 \<or> bq_closed q)
     in if \<not> ok \<and> \<not> timed_out then Some (Wait, q)
        else if \<not> ok \<or> (bq_closed q \<and> bq_size q = 0) then Some (Done None, q)
        else map_option (\<lambda>(r, q). (Done r, q)) (bq_unlink_some q))"

definition bq_poll :: "'a bq \<Rightarrow> ('a option \<times> 'a bq) option" where
  "bq_poll q = (if bq_size q = 0 then Some (None, q) else bq_unlink_some q)"

definition bq_close :: "'a bq \<Rightarrow> 'a bq" where
  "bq_close q = q\<lparr> bq_closed := True \<rparr>"

text \<open>\<open>drain_list\<close>, the destructor's loop; \<open>fuel\<close> bounds the walk along the list.\<close>

fun drain_list :: "nat \<Rightarrow> nat option \<Rightarrow> 'a bq \<Rightarrow> 'a bq option" where
  "drain_list fuel None q = Some q"
| "drain_list 0 (Some a) q = None"
| "drain_list (Suc fuel) (Some a) q =
    (case bq_heap q a of
       None \<Rightarrow> None
     | Some n \<Rightarrow> drain_list fuel (nd_next n) (q\<lparr> bq_heap := (bq_heap q)(a := None) \<rparr>))"

definition bq_destroy :: "'a bq \<Rightarrow> 'a bq option" where
  "bq_destroy q =
    (let q = bq_close q; fuel = bq_size q + bq_free_count q
     in case drain_list fuel (bq_head q) q of
          None \<Rightarrow> None
        | Some q \<Rightarrow> drain_list fuel (bq_free_nodes q) q)"

section \<open>Invariant\<close>

fun chain :: "(nat \<rightharpoonup> 'a node) \<Rightarrow> nat option \<Rightarrow> nat list \<Rightarrow> bool" where
  "chain h p [] \<longleftrightarrow> p = None"
| "chain h p (a # as) \<longleftrightarrow> p = Some a \<and> (case h a of None \<Rightarrow> False | Some n \<Rightarrow> chain h (nd_next n) as)"

definition bq_rep :: "'a bq \<Rightarrow> nat list \<Rightarrow> nat list \<Rightarrow> bool" where
  "bq_rep q as fs \<longleftrightarrow>
    chain (bq_heap q) (bq_head q) as \<and> chain (bq_heap q) (bq_free_nodes q) fs \<and>
    bq_tail q = (if as = [] then None else Some (last as)) \<and>
    distinct (as @ fs) \<and> dom (bq_heap q) = set (as @ fs) \<and>
    bq_size q = length as \<and> bq_free_count q = length fs \<and> length fs \<le> 64 \<and>
    (\<forall>a\<in>set as. nd_item (the (bq_heap q a)) \<noteq> None) \<and>
    (\<forall>a\<in>set (as @ fs). a < bq_fresh q) \<and>
    (bq_capacity q > 0 \<longrightarrow> bq_size q \<le> bq_capacity q)"

definition bq_ok :: "'a bq \<Rightarrow> bool" where
  "bq_ok q \<longleftrightarrow> (\<exists>as fs. bq_rep q as fs)"

text \<open>The queue's contents, read along the list.\<close>

fun walk :: "nat \<Rightarrow> (nat \<rightharpoonup> 'a node) \<Rightarrow> nat option \<Rightarrow> 'a list" where
  "walk (Suc n) h (Some a) =
    (case h a of
       None \<Rightarrow> []
     | Some nd \<Rightarrow> (case nd_item nd of None \<Rightarrow> [] | Some x \<Rightarrow> x # walk n h (nd_next nd)))"
| "walk n h p = []"

definition bq_items :: "'a bq \<Rightarrow> 'a list" where
  "bq_items q = walk (bq_size q) (bq_heap q) (bq_head q)"

section \<open>List segments\<close>

lemma chain_frame [simp]:
  "b \<notin> set as \<Longrightarrow> chain (h(b \<mapsto> n)) p as = chain h p as"
  "b \<notin> set as \<Longrightarrow> chain (h(b := None)) p as = chain h p as"
  by (induction as arbitrary: p) (auto split: option.splits)

lemma chain_dom: "chain h p as \<Longrightarrow> set as \<subseteq> dom h"
  by (induction as arbitrary: p) (auto split: option.splits)

lemma chain_head: "chain h p as \<Longrightarrow> p = (case as of [] \<Rightarrow> None | a # _ \<Rightarrow> Some a)"
  by (cases as) auto

lemma chain_item_update:
  "h b = Some n \<Longrightarrow> nd_next n' = nd_next n \<Longrightarrow> chain (h(b \<mapsto> n')) p as = chain h p as"
  by (induction as arbitrary: p) (auto split: option.splits)

lemma chain_snoc:
  assumes "chain h p as" "as \<noteq> []" "distinct (as @ [a])" "h (last as) = Some n"
    "h a = Some m" "nd_next m = None"
  shows "chain (h(last as \<mapsto> n\<lparr> nd_next := Some a \<rparr>)) p (as @ [a])"
  using assms
proof (induction as arbitrary: p)
  case (Cons b as)
  show ?case
  proof (cases "as = []")
    case True
    with Cons.prems show ?thesis
      by auto
  next
    case False
    with Cons.prems have "b \<noteq> last as"
      by (metis distinct.simps(2) distinct_append last_in_set)
    moreover obtain k where "h b = Some k" "chain h (nd_next k) as" "p = Some b"
      using Cons.prems by (auto split: option.splits)
    ultimately show ?thesis
      using Cons.IH [of "nd_next k"] Cons.prems False by simp
  qed
qed simp

lemma walk_chain:
  "chain h p as \<Longrightarrow> \<forall>a\<in>set as. nd_item (the (h a)) \<noteq> None \<Longrightarrow>
   walk (length as) h p = map (\<lambda>a. the (nd_item (the (h a)))) as"
  by (induction as arbitrary: p) (auto split: option.splits)

lemma bq_items_rep: "bq_rep q as fs \<Longrightarrow> bq_items q = map (\<lambda>a. the (nd_item (the (bq_heap q a)))) as"
  by (simp add: bq_rep_def bq_items_def walk_chain)

lemma length_bq_items: "bq_rep q as fs \<Longrightarrow> length (bq_items q) = bq_size q"
  by (simp add: bq_items_rep) (simp add: bq_rep_def)

section \<open>Appending and removing\<close>

text \<open>A node taken from the free list, or a fresh one, is off both lists.\<close>

lemma obtain_node_rep:
  assumes "bq_rep q as fs"
  obtains a fs' q' where "obtain_node_locked q = Some (a, q')"
    "bq_heap q' = (bq_heap q)(a \<mapsto> the (bq_heap q' a))" "nd_next (the (bq_heap q' a)) = None"
    "a \<notin> set as" "a \<notin> set fs'" "distinct fs'" "set fs' \<inter> set as = {}"
    "chain (bq_heap q) (bq_free_nodes q') fs'" "insert a (dom (bq_heap q)) = insert a (set as \<union> set fs')"
    "bq_free_count q' = length fs'" "length fs' \<le> 64"
    "\<forall>b\<in>insert a (set as \<union> set fs'). b < bq_fresh q'"
    "bq_head q' = bq_head q" "bq_tail q' = bq_tail q" "bq_size q' = bq_size q"
    "bq_capacity q' = bq_capacity q" "bq_closed q' = bq_closed q"
proof (cases fs)
  case Nil
  let ?h = "(bq_heap q)(bq_fresh q \<mapsto> \<lparr> nd_item = None, nd_next = None \<rparr>)"
  let ?q = "q\<lparr> bq_heap := ?h, bq_fresh := bq_fresh q + 1 \<rparr>"
  have "obtain_node_locked q = Some (bq_fresh q, ?q)"
    using assms Nil by (simp add: bq_rep_def obtain_node_locked_def)
  then show thesis
    by (rule that [where fs' = "[]"]) (use assms Nil in \<open>auto simp: bq_rep_def less_Suc_eq\<close>)
next
  case (Cons f fs')
  then obtain n where n: "bq_heap q f = Some n" "bq_free_nodes q = Some f" "chain (bq_heap q) (nd_next n) fs'"
    using assms by (auto simp: bq_rep_def split: option.splits)
  let ?q = "q\<lparr> bq_free_nodes := nd_next n, bq_heap := (bq_heap q)(f \<mapsto> n\<lparr> nd_next := None \<rparr>),
      bq_free_count := bq_free_count q - 1 \<rparr>"
  have "obtain_node_locked q = Some (f, ?q)"
    using n by (simp add: obtain_node_locked_def)
  then show thesis
    by (rule that [where fs' = fs']) (use assms Cons n in \<open>auto simp: bq_rep_def\<close>)
qed

lemma append_item_rep:
  assumes rep: "bq_rep q as fs" and room: "bq_capacity q > 0 \<Longrightarrow> bq_size q < bq_capacity q"
  obtains q' a fs' where "append_item x q = Some q'" "bq_rep q' (as @ [a]) fs'"
    "bq_items q' = bq_items q @ [x]" "bq_capacity q' = bq_capacity q" "bq_closed q' = bq_closed q"
proof -
  obtain a fs' q1 where q1: "obtain_node_locked q = Some (a, q1)"
    "bq_heap q1 = (bq_heap q)(a \<mapsto> the (bq_heap q1 a))" "nd_next (the (bq_heap q1 a)) = None"
    "a \<notin> set as" "a \<notin> set fs'" "distinct fs'" "set fs' \<inter> set as = {}"
    "chain (bq_heap q) (bq_free_nodes q1) fs'" "insert a (dom (bq_heap q)) = insert a (set as \<union> set fs')"
    "bq_free_count q1 = length fs'" "length fs' \<le> 64"
    "\<forall>b\<in>insert a (set as \<union> set fs'). b < bq_fresh q1"
    "bq_head q1 = bq_head q" "bq_tail q1 = bq_tail q" "bq_size q1 = bq_size q"
    "bq_capacity q1 = bq_capacity q" "bq_closed q1 = bq_closed q"
    by (rule obtain_node_rep [OF rep])
  define n where "n = the (bq_heap q1 a)"
  define m where "m = n\<lparr> nd_item := Some x \<rparr>"
  have heap1: "bq_heap q1 = (bq_heap q)(a \<mapsto> n)" "nd_next n = None"
    using q1(2,3) by (simp_all add: n_def)
  have a1: "bq_heap q1 a = Some n"
    by (simp add: heap1)
  define q2 where "q2 = q1\<lparr> bq_heap := (bq_heap q)(a \<mapsto> m) \<rparr>"
  have emp: "emplace a x q1 = Some q2"
    using a1 by (simp add: emplace_def q2_def m_def heap1)
  have as: "chain (bq_heap q) (bq_head q) as" "distinct as" "bq_tail q = (if as = [] then None else Some (last as))"
    "\<forall>b\<in>set as. nd_item (the (bq_heap q b)) \<noteq> None" "bq_size q = length as"
    using rep by (auto simp: bq_rep_def)
  have m: "nd_next m = None" "nd_item m = Some x"
    by (simp_all add: m_def heap1)
  show thesis
  proof (cases "as = []")
    case True
    define q3 where "q3 = q2\<lparr> bq_head := Some a, bq_tail := Some a, bq_size := bq_size q2 + 1 \<rparr>"
    have "append_item x q = Some q3"
      using True as(3) q1 by (simp add: append_item_def emp link_tail_def q3_def q2_def)
    moreover have rep3: "bq_rep q3 (as @ [a]) fs'"
      using True q1 as m room by (auto simp: bq_rep_def q3_def q2_def)
    ultimately show thesis
      by (rule that) (use True rep rep3 m in \<open>auto simp: bq_items_rep q3_def q2_def q1\<close>)
  next
    case False
    obtain l where l: "bq_heap q (last as) = Some l"
      using False chain_dom [OF as(1)] last_in_set [OF False] by blast
    have "last as \<noteq> a"
      using False q1(4) last_in_set by metis
    with l have l2: "bq_heap q2 (last as) = Some l" "bq_heap q2 a = Some m"
      by (simp_all add: q2_def)
    define q3 where "q3 = q2\<lparr> bq_heap := (bq_heap q2)(last as \<mapsto> l\<lparr> nd_next := Some a \<rparr>),
        bq_tail := Some a, bq_size := bq_size q2 + 1 \<rparr>"
    have app: "append_item x q = Some q3"
      using False as(3) q1 l2 by (simp add: append_item_def emp link_tail_def q3_def q2_def)
    have "chain (bq_heap q2) (bq_head q) as"
      using as(1) q1(4) by (simp add: q2_def)
    then have ch: "chain (bq_heap q3) (bq_head q) (as @ [a])"
      using chain_snoc [OF _ False _ l2 m(1)] as(2) q1(4) by (simp add: q3_def)
    have last: "last as \<in> set as" "last as \<notin> set fs'"
      using False q1(7) by auto
    have items: "nd_item (the (bq_heap q3 b)) = (if b = a then Some x else nd_item (the (bq_heap q b)))" for b
      using l l2 m \<open>last as \<noteq> a\<close> by (auto simp: q3_def q2_def)
    have "dom (bq_heap q3) = set ((as @ [a]) @ fs')"
      using q1(9) last(1) by (auto simp: q3_def q2_def)
    moreover have "chain (bq_heap q3) (bq_free_nodes q3) fs'"
      using q1 last by (simp add: q3_def q2_def)
    ultimately have rep3: "bq_rep q3 (as @ [a]) fs'"
      using ch q1 as room items unfolding bq_rep_def by (auto simp: q3_def q2_def)
    show thesis
      using items q1(4) bq_items_rep [OF rep] bq_items_rep [OF rep3]
      by (intro that [OF app rep3]) (auto simp: q3_def q2_def q1)
  qed
qed

lemma unlink_rep:
  assumes rep: "bq_rep q (a # as) fs"
  obtains x q' fs' where "unlink_head_locked q = Some (x, q')" "bq_rep q' as fs'"
    "bq_items q = x # bq_items q'" "bq_capacity q' = bq_capacity q" "bq_closed q' = bq_closed q"
proof -
  obtain n where n: "bq_heap q a = Some n" "bq_head q = Some a" "chain (bq_heap q) (nd_next n) as"
    using rep by (auto simp: bq_rep_def split: option.splits)
  obtain x where x: "nd_item n = Some x"
    using rep n by (auto simp: bq_rep_def)
  have a: "a \<notin> set as" "a \<notin> set fs" "distinct as" "distinct fs" "set as \<inter> set fs = {}"
    using rep by (auto simp: bq_rep_def)
  have next_None: "nd_next n = None \<longleftrightarrow> as = []"
    using chain_head [OF n(3)] by (cases as) auto
  define q1 where "q1 = q\<lparr> bq_head := nd_next n, bq_tail := if as = [] then None else bq_tail q,
      bq_size := bq_size q - 1 \<rparr>"
  have unlink: "unlink_head_locked q =
      (case recycle_node_locked a q1 of None \<Rightarrow> None | Some q \<Rightarrow> Some (x, q))"
    using n x by (simp add: unlink_head_locked_def Let_def q1_def next_None)
  have q: "bq_tail q = Some (last (a # as))" "bq_size q = Suc (length as)" "bq_free_count q = length fs"
    "length fs \<le> 64" "chain (bq_heap q) (bq_free_nodes q) fs" "dom (bq_heap q) = insert a (set as \<union> set fs)"
    "\<forall>b\<in>set as. nd_item (the (bq_heap q b)) \<noteq> None" "\<forall>b\<in>insert a (set as \<union> set fs). b < bq_fresh q"
    "bq_capacity q > 0 \<longrightarrow> bq_size q \<le> bq_capacity q"
    using rep by (auto simp: bq_rep_def)
  have items: "bq_items q = x # map (\<lambda>a. the (nd_item (the (bq_heap q a)))) as"
    using n x by (simp add: bq_items_rep [OF rep])
  show thesis
  proof (cases "length fs < 64")
    case True
    define q2 where "q2 = q1\<lparr> bq_heap := (bq_heap q)(a \<mapsto> n\<lparr> nd_item := None, nd_next := bq_free_nodes q \<rparr>),
        bq_free_nodes := Some a, bq_free_count := length fs + 1 \<rparr>"
    have "unlink_head_locked q = Some (x, q2)"
      using True n q by (simp add: unlink recycle_node_locked_def q1_def q2_def)
    moreover have rep2: "bq_rep q2 as (a # fs)"
      unfolding bq_rep_def using a n q True by (auto simp: q1_def q2_def)
    ultimately show thesis
      by (rule that) (use a items bq_items_rep [OF rep2] in \<open>auto simp: q1_def q2_def\<close>)
  next
    case False
    define q2 where "q2 = q1\<lparr> bq_heap := (bq_heap q)(a := None) \<rparr>"
    have "unlink_head_locked q = Some (x, q2)"
      using False n q by (simp add: unlink recycle_node_locked_def q1_def q2_def)
    moreover have rep2: "bq_rep q2 as fs"
      unfolding bq_rep_def using a n q False by (auto simp: q1_def q2_def)
    ultimately show thesis
      by (rule that) (use a items bq_items_rep [OF rep2] in \<open>auto simp: q1_def q2_def\<close>)
  qed
qed

section \<open>Refinement of a bounded list\<close>

lemma bq_new_ok: "bq_ok (bq_new c)" "bq_items (bq_new c) = []"
  by (simp_all add: bq_ok_def bq_items_def bq_new_def bq_rep_def exI [of _ "[]"])

lemma bq_close_ok: "bq_ok q \<Longrightarrow> bq_ok (bq_close q)" "bq_items (bq_close q) = bq_items q"
  by (simp_all add: bq_ok_def bq_close_def bq_rep_def bq_items_def)

lemma bq_size_items: "bq_ok q \<Longrightarrow> bq_size q = length (bq_items q)"
  by (auto simp: bq_ok_def length_bq_items)

lemma append_item_ok:
  assumes "bq_ok q" "bq_capacity q > 0 \<Longrightarrow> bq_size q < bq_capacity q"
  obtains q' where "append_item x q = Some q'" "bq_ok q'" "bq_items q' = bq_items q @ [x]"
    "bq_capacity q' = bq_capacity q" "bq_closed q' = bq_closed q"
  using assms append_item_rep unfolding bq_ok_def by metis

lemma bq_unlink_some_ok:
  assumes "bq_ok q" "bq_size q > 0"
  obtains x q' where "bq_unlink_some q = Some (Some x, q')" "bq_ok q'" "bq_items q = x # bq_items q'"
    "bq_capacity q' = bq_capacity q" "bq_closed q' = bq_closed q"
proof -
  obtain as fs where rep: "bq_rep q as fs"
    using assms(1) by (auto simp: bq_ok_def)
  then obtain a as' where "as = a # as'"
    using assms(2) by (cases as) (auto simp: bq_rep_def)
  with rep obtain x q' fs' where "unlink_head_locked q = Some (x, q')" "bq_rep q' as' fs'"
    "bq_items q = x # bq_items q'" "bq_capacity q' = bq_capacity q" "bq_closed q' = bq_closed q"
    using unlink_rep by metis
  then show thesis
    using that by (auto simp: bq_unlink_some_def bq_ok_def)
qed

text \<open>The abstract queue: contents, bound (0: unbounded) and closed flag.\<close>

definition full :: "nat \<Rightarrow> 'a list \<Rightarrow> bool" where
  "full c xs \<longleftrightarrow> c > 0 \<and> length xs \<ge> c"

lemma bq_try_push_spec:
  assumes "bq_ok q"
  shows "\<exists>q'. bq_try_push x q = Some (\<not> bq_closed q \<and> \<not> full (bq_capacity q) (bq_items q), q') \<and> bq_ok q' \<and>
    bq_items q' = (if bq_closed q \<or> full (bq_capacity q) (bq_items q) then bq_items q else bq_items q @ [x]) \<and>
    bq_capacity q' = bq_capacity q \<and> bq_closed q' = bq_closed q"
proof (cases "bq_closed q \<or> full (bq_capacity q) (bq_items q)")
  case True
  with assms show ?thesis
    by (auto simp: bq_try_push_def full_def bq_size_items)
next
  case False
  obtain q' where "append_item x q = Some q'" "bq_ok q'" "bq_items q' = bq_items q @ [x]"
    "bq_capacity q' = bq_capacity q" "bq_closed q' = bq_closed q"
    using append_item_ok [OF assms] False bq_size_items [OF assms] unfolding full_def by (metis not_le)
  with False assms show ?thesis
    by (auto simp: bq_try_push_def full_def bq_size_items)
qed

lemma bq_poll_spec:
  assumes "bq_ok q"
  shows "\<exists>q'. bq_poll q = Some (case bq_items q of [] \<Rightarrow> None | x # _ \<Rightarrow> Some x, q') \<and> bq_ok q' \<and>
    bq_items q' = tl (bq_items q) \<and> bq_capacity q' = bq_capacity q \<and> bq_closed q' = bq_closed q"
proof (cases "bq_size q = 0")
  case True
  with assms show ?thesis
    by (simp add: bq_poll_def bq_size_items)
next
  case False
  then obtain x q' where "bq_unlink_some q = Some (Some x, q')" "bq_ok q'" "bq_items q = x # bq_items q'"
    "bq_capacity q' = bq_capacity q" "bq_closed q' = bq_closed q"
    using bq_unlink_some_ok [OF assms] by auto
  with False show ?thesis
    by (simp add: bq_poll_def)
qed

section \<open>The interface its users rely on\<close>

datatype 'a fifo_op = Push 'a | Poll | Close

text \<open>A run of calls: the items accepted, the items polled, the final queue.\<close>

primrec fifo_run :: "('a \<Rightarrow> 'q \<Rightarrow> (bool \<times> 'q) option) \<Rightarrow> ('q \<Rightarrow> ('a option \<times> 'q) option) \<Rightarrow> ('q \<Rightarrow> 'q) \<Rightarrow>
    'a fifo_op list \<Rightarrow> 'q \<Rightarrow> ('a list \<times> 'a list \<times> 'q) option" where
  "fifo_run push poll close [] q = Some ([], [], q)"
| "fifo_run push poll close (op # ops) q =
    (case op of
       Push x \<Rightarrow>
         (case push x q of
            None \<Rightarrow> None
          | Some (b, q) \<Rightarrow> map_option (\<lambda>(ins, outs, q). ((if b then [x] else []) @ ins, outs, q))
              (fifo_run push poll close ops q))
     | Poll \<Rightarrow>
         (case poll q of
            None \<Rightarrow> None
          | Some (r, q) \<Rightarrow> map_option (\<lambda>(ins, outs, q). (ins, (case r of None \<Rightarrow> [] | Some x \<Rightarrow> [x]) @ outs, q))
              (fifo_run push poll close ops q))
     | Close \<Rightarrow> fifo_run push poll close ops (close q))"

text \<open>The consumers' loop \<open>while (auto x = q.poll())\<close>, at most \<open>n\<close> rounds.\<close>

primrec drain :: "('q \<Rightarrow> ('a option \<times> 'q) option) \<Rightarrow> nat \<Rightarrow> 'q \<Rightarrow> ('a list \<times> 'q) option" where
  "drain poll 0 q = Some ([], q)"
| "drain poll (Suc n) q =
    (case poll q of
       None \<Rightarrow> None
     | Some (None, q) \<Rightarrow> Some ([], q)
     | Some (Some x, q) \<Rightarrow> map_option (\<lambda>(xs, q). (x # xs, q)) (drain poll n q))"

locale bounded_fifo =
  fixes items :: "'q \<Rightarrow> 'a list" and ok :: "'q \<Rightarrow> bool" and bound :: "'q \<Rightarrow> nat" and shut :: "'q \<Rightarrow> bool"
    and push :: "'a \<Rightarrow> 'q \<Rightarrow> (bool \<times> 'q) option"
    and poll :: "'q \<Rightarrow> ('a option \<times> 'q) option"
    and close :: "'q \<Rightarrow> 'q"
  assumes push_law: "ok q \<Longrightarrow> \<exists>q'. push x q = Some (\<not> shut q \<and> \<not> full (bound q) (items q), q') \<and> ok q' \<and>
      items q' = (if shut q \<or> full (bound q) (items q) then items q else items q @ [x]) \<and>
      bound q' = bound q \<and> shut q' = shut q"
    and poll_law: "ok q \<Longrightarrow> \<exists>q'. poll q = Some (case items q of [] \<Rightarrow> None | x # _ \<Rightarrow> Some x, q') \<and> ok q' \<and>
      items q' = tl (items q) \<and> bound q' = bound q \<and> shut q' = shut q"
    and close_law: "ok q \<Longrightarrow> ok (close q) \<and> items (close q) = items q \<and> bound (close q) = bound q \<and> shut (close q)"
begin

lemma push_never_overfills:
  assumes "ok q" "push x q = Some (b, q')" "bound q > 0 \<Longrightarrow> length (items q) \<le> bound q"
  shows "bound q' > 0 \<Longrightarrow> length (items q') \<le> bound q'"
  using push_law [OF assms(1), of x] assms(2,3) by (auto simp: full_def split: if_splits)

lemma run_fifo:
  "ok q \<Longrightarrow> \<exists>ins outs q'. fifo_run push poll close ops q = Some (ins, outs, q') \<and> ok q' \<and>
     items q @ ins = outs @ items q' \<and> bound q' = bound q"
proof (induction ops arbitrary: q)
  case (Cons op ops)
  show ?case
  proof (cases op)
    case (Push x)
    let ?b = "\<not> shut q \<and> \<not> full (bound q) (items q)"
    obtain q1 where q1: "push x q = Some (?b, q1)" "ok q1" "items q1 = items q @ (if ?b then [x] else [])"
      "bound q1 = bound q"
      using push_law [OF Cons.prems, of x] by auto
    from Cons.IH [OF q1(2)] obtain ins outs q' where "fifo_run push poll close ops q1 = Some (ins, outs, q')"
      "ok q'" "items q1 @ ins = outs @ items q'" "bound q' = bound q1"
      by blast
    with Push q1 show ?thesis
      by auto
  next
    case Poll
    obtain r q1 where q1: "poll q = Some (r, q1)" "ok q1"
      "items q = (case r of None \<Rightarrow> [] | Some x \<Rightarrow> [x]) @ items q1" "bound q1 = bound q"
      using poll_law [OF Cons.prems] by (cases "items q") auto
    from Cons.IH [OF q1(2)] obtain ins outs q' where "fifo_run push poll close ops q1 = Some (ins, outs, q')"
      "ok q'" "items q1 @ ins = outs @ items q'" "bound q' = bound q1"
      by blast
    with Poll q1 show ?thesis
      by auto
  next
    case Close
    with Cons.IH [of "close q"] close_law [OF Cons.prems] show ?thesis
      by auto
  qed
qed simp

lemma drain_all:
  "ok q \<Longrightarrow> length (items q) \<le> n \<Longrightarrow> \<exists>q'. drain poll n q = Some (items q, q') \<and> ok q' \<and> items q' = []"
proof (induction n arbitrary: q)
  case (Suc n)
  obtain q1 where q1: "poll q = Some (case items q of [] \<Rightarrow> None | x # _ \<Rightarrow> Some x, q1)" "ok q1"
    "items q1 = tl (items q)"
    using poll_law [OF Suc.prems(1)] by blast
  show ?case
    using Suc.IH [OF q1(2)] Suc.prems q1 by (cases "items q") auto
qed simp

end

interpretation bq: bounded_fifo bq_items bq_ok bq_capacity bq_closed bq_try_push bq_poll bq_close
  by unfold_locales (simp_all add: bq_try_push_spec bq_poll_spec bq_close_ok, simp_all add: bq_close_def)

section \<open>Refinement of the calls\<close>

text \<open>Every call of the interface; the flag of \<open>Call_Take_For\<close> says that the timeout elapsed.\<close>

datatype 'a queue_call = Call_Push 'a | Call_Try_Push 'a | Call_Take | Call_Take_For bool | Call_Poll | Call_Close
datatype 'a queue_answer = Push_Answer "bool outcome" | Take_Answer "'a option outcome" | Close_Answer

fun bq_call :: "'a queue_call \<Rightarrow> 'a bq \<Rightarrow> ('a queue_answer \<times> 'a bq) option" where
  "bq_call (Call_Push x) q = map_option (map_prod Push_Answer id) (bq_push x q)"
| "bq_call (Call_Try_Push x) q = map_option (map_prod (Push_Answer \<circ> Done) id) (bq_try_push x q)"
| "bq_call Call_Take q = map_option (map_prod Take_Answer id) (bq_take q)"
| "bq_call (Call_Take_For timed_out) q = map_option (map_prod Take_Answer id) (bq_take_for timed_out q)"
| "bq_call Call_Poll q = map_option (map_prod (Take_Answer \<circ> Done) id) (bq_poll q)"
| "bq_call Call_Close q = Some (Close_Answer, bq_close q)"

text \<open>
  The queue the callers reckon with: a bound (0 for none), the items from the oldest to the
  newest, and the closed flag. A full queue makes \<open>push\<close> wait and \<open>try_push\<close> fail, an empty one
  makes \<open>take\<close> wait until it is closed; a closed queue accepts nothing and is emptied.
\<close>

type_synonym 'a fifo_state = "nat \<times> 'a list \<times> bool"

fun fifo_pop :: "'a option outcome \<Rightarrow> 'a fifo_state \<Rightarrow> 'a queue_answer \<times> 'a fifo_state" where
  "fifo_pop if_empty (c, [], shut) = (Take_Answer if_empty, c, [], shut)"
| "fifo_pop if_empty (c, x # xs, shut) = (Take_Answer (Done (Some x)), c, xs, shut)"

fun fifo_call :: "'a queue_call \<Rightarrow> 'a fifo_state \<Rightarrow> 'a queue_answer \<times> 'a fifo_state" where
  "fifo_call (Call_Push x) (c, xs, shut) =
    (if shut then (Push_Answer (Done False), c, xs, shut)
     else if full c xs then (Push_Answer Wait, c, xs, shut)
     else (Push_Answer (Done True), c, xs @ [x], shut))"
| "fifo_call (Call_Try_Push x) (c, xs, shut) =
    (if shut \<or> full c xs then (Push_Answer (Done False), c, xs, shut)
     else (Push_Answer (Done True), c, xs @ [x], shut))"
| "fifo_call Call_Take (c, xs, shut) = fifo_pop (if shut then Done None else Wait) (c, xs, shut)"
| "fifo_call (Call_Take_For timed_out) (c, xs, shut) =
    fifo_pop (if shut \<or> timed_out then Done None else Wait) (c, xs, shut)"
| "fifo_call Call_Poll (c, xs, shut) = fifo_pop (Done None) (c, xs, shut)"
| "fifo_call Call_Close (c, xs, shut) = (Close_Answer, c, xs, True)"

definition bq_abs :: "'a bq \<Rightarrow> 'a fifo_state" where
  "bq_abs q = (bq_capacity q, bq_items q, bq_closed q)"

primrec run_calls :: "('c \<Rightarrow> 's \<Rightarrow> ('r \<times> 's) option) \<Rightarrow> 'c list \<Rightarrow> 's \<Rightarrow> ('r list \<times> 's) option" where
  "run_calls call [] s = Some ([], s)"
| "run_calls call (c # cs) s =
    (case call c s of
       None \<Rightarrow> None
     | Some (r, s) \<Rightarrow> map_option (\<lambda>(rs, s). (r # rs, s)) (run_calls call cs s))"

primrec run_spec :: "('c \<Rightarrow> 'a \<Rightarrow> 'r \<times> 'a) \<Rightarrow> 'c list \<Rightarrow> 'a \<Rightarrow> 'r list \<times> 'a" where
  "run_spec spec [] a = ([], a)"
| "run_spec spec (c # cs) a = (case spec c a of (r, a) \<Rightarrow> apfst (Cons r) (run_spec spec cs a))"

text \<open>An implementation that answers each call like its specification does so over any sequence of calls.\<close>

locale call_refinement =
  fixes abs :: "'s \<Rightarrow> 'a" and ok :: "'s \<Rightarrow> bool" and call :: "'c \<Rightarrow> 's \<Rightarrow> ('r \<times> 's) option"
    and spec :: "'c \<Rightarrow> 'a \<Rightarrow> 'r \<times> 'a"
  assumes call_refines: "ok s \<Longrightarrow> \<exists>s'. call c s = Some (fst (spec c (abs s)), s') \<and> ok s' \<and> abs s' = snd (spec c (abs s))"
begin

lemma run_refines:
  "ok s \<Longrightarrow> \<exists>s'. run_calls call cs s = Some (fst (run_spec spec cs (abs s)), s') \<and> ok s' \<and>
    abs s' = snd (run_spec spec cs (abs s))"
proof (induction cs arbitrary: s)
  case (Cons c cs)
  obtain s1 where s1: "call c s = Some (fst (spec c (abs s)), s1)" "ok s1" "abs s1 = snd (spec c (abs s))"
    using call_refines [OF Cons.prems] by blast
  then show ?case
    using Cons.IH [OF s1(2)] by (cases "spec c (abs s)") auto
qed simp

end

lemma bq_push_refines:
  assumes "bq_ok q"
  shows "\<exists>q'. bq_call (Call_Push x) q = Some (fst (fifo_call (Call_Push x) (bq_abs q)), q') \<and> bq_ok q' \<and>
    bq_abs q' = snd (fifo_call (Call_Push x) (bq_abs q))"
proof (cases "bq_closed q \<or> full (bq_capacity q) (bq_items q)")
  case True
  with assms show ?thesis
    by (auto simp: bq_push_def bq_abs_def full_def bq_size_items)
next
  case False
  obtain q' where "append_item x q = Some q'" "bq_ok q'" "bq_items q' = bq_items q @ [x]"
    "bq_capacity q' = bq_capacity q" "bq_closed q' = bq_closed q"
    using append_item_ok [OF assms] False bq_size_items [OF assms] unfolding full_def by (metis not_le)
  with False assms show ?thesis
    by (auto simp: bq_push_def bq_abs_def full_def bq_size_items)
qed

text \<open>\<open>poll\<close>, \<open>take\<close> and \<open>take_for\<close> differ only in what they answer when there is nothing to take.\<close>

lemma pop_refines:
  assumes "bq_ok q" "bq_items q = [] \<Longrightarrow> r = Some (if_empty, q)"
    and "bq_items q \<noteq> [] \<Longrightarrow> r = map_option (\<lambda>(x, q). (Done x, q)) (bq_unlink_some q)"
  shows "\<exists>q'. map_option (map_prod Take_Answer id) r = Some (fst (fifo_pop if_empty (bq_abs q)), q') \<and> bq_ok q' \<and>
    bq_abs q' = snd (fifo_pop if_empty (bq_abs q))"
proof (cases "bq_items q")
  case Nil
  with assms show ?thesis
    by (simp add: bq_abs_def)
next
  case (Cons y ys)
  then obtain x q' where "bq_unlink_some q = Some (Some x, q')" "bq_ok q'" "bq_items q = x # bq_items q'"
    "bq_capacity q' = bq_capacity q" "bq_closed q' = bq_closed q"
    using bq_unlink_some_ok [OF assms(1)] bq_size_items [OF assms(1)] by auto
  with assms(3) Cons show ?thesis
    by (auto simp: bq_abs_def)
qed

lemma bq_call_refines:
  assumes "bq_ok q"
  shows "\<exists>q'. bq_call c q = Some (fst (fifo_call c (bq_abs q)), q') \<and> bq_ok q' \<and> bq_abs q' = snd (fifo_call c (bq_abs q))"
proof (cases c)
  case (Call_Push x)
  with bq_push_refines [OF assms] show ?thesis
    by simp
next
  case (Call_Try_Push x)
  with bq_try_push_spec [OF assms, of x] show ?thesis
    by (auto simp: bq_abs_def)
next
  case Call_Take
  have "fifo_call c (bq_abs q) = fifo_pop (if bq_closed q then Done None else Wait) (bq_abs q)"
    by (simp add: Call_Take bq_abs_def)
  then show ?thesis
    using pop_refines [OF assms, of "bq_take q" "if bq_closed q then Done None else Wait"] Call_Take
    by (simp add: bq_take_def bq_size_items [OF assms])
next
  case (Call_Take_For t)
  have "fifo_call c (bq_abs q) = fifo_pop (if bq_closed q \<or> t then Done None else Wait) (bq_abs q)"
    by (simp add: Call_Take_For bq_abs_def)
  then show ?thesis
    using pop_refines [OF assms, of "bq_take_for t q" "if bq_closed q \<or> t then Done None else Wait"] Call_Take_For
    by (simp add: bq_take_for_def bq_size_items [OF assms])
next
  case Call_Poll
  have "fifo_call c (bq_abs q) = fifo_pop (Done None) (bq_abs q)"
    by (simp add: Call_Poll bq_abs_def)
  moreover have "bq_call c q = map_option (map_prod Take_Answer id) (map_option (\<lambda>(r, q). (Done r, q)) (bq_poll q))"
    by (auto simp: Call_Poll option.map_comp comp_def split: prod.splits intro!: option.map_cong)
  ultimately show ?thesis
    using pop_refines [OF assms, of "map_option (\<lambda>(r, q). (Done r, q)) (bq_poll q)" "Done None"]
    by (simp add: bq_poll_def bq_size_items [OF assms])
next
  case Call_Close
  with assms show ?thesis
    by (simp add: bq_abs_def bq_close_ok) (simp add: bq_close_def)
qed

interpretation bqc: call_refinement bq_abs bq_ok bq_call fifo_call
  by unfold_locales (rule bq_call_refines)

text \<open>The items a sequence of calls put in, and those it took out.\<close>

fun put_in :: "'a queue_call \<Rightarrow> 'a queue_answer \<Rightarrow> 'a list" where
  "put_in (Call_Push x) (Push_Answer (Done True)) = [x]"
| "put_in (Call_Try_Push x) (Push_Answer (Done True)) = [x]"
| "put_in _ _ = []"

fun taken_out :: "'a queue_answer \<Rightarrow> 'a list" where
  "taken_out (Take_Answer (Done (Some x))) = [x]"
| "taken_out _ = []"

lemma fifo_call_conserves:
  "fifo_call c (n, xs, shut) = (r, n', xs', shut') \<Longrightarrow> xs @ put_in c r = taken_out r @ xs' \<and> n' = n \<and>
    (n = 0 \<or> length xs \<le> n \<longrightarrow> n = 0 \<or> length xs' \<le> n)"
  by (cases c; cases xs) (auto simp: full_def split: if_splits)

lemma fifo_calls_conserve:
  "run_spec fifo_call cs (n, xs, shut) = (rs, n', xs', shut') \<Longrightarrow> n = 0 \<or> length xs \<le> n \<Longrightarrow>
    xs @ concat (map2 put_in cs rs) = concat (map taken_out rs) @ xs' \<and> n' = n \<and> (n = 0 \<or> length xs' \<le> n)"
proof (induction cs arbitrary: xs shut rs)
  case (Cons c cs)
  obtain r n1 xs1 shut1 where one: "fifo_call c (n, xs, shut) = (r, n1, xs1, shut1)"
    by (cases "fifo_call c (n, xs, shut)") auto
  note step = fifo_call_conserves [OF one]
  obtain rs1 where rs: "rs = r # rs1" "run_spec fifo_call cs (n, xs1, shut1) = (rs1, n', xs', shut')"
    using Cons.prems(1) one step by (auto simp: apfst_def map_prod_def split: prod.splits)
  have "n = 0 \<or> length xs1 \<le> n"
    using step Cons.prems(2) by blast
  from Cons.IH [OF rs(2) this] step have "xs @ put_in c r @ concat (map2 put_in cs rs1) =
      taken_out r @ concat (map taken_out rs1) @ xs'" "n' = n" "n = 0 \<or> length xs' \<le> n"
    by (metis append_assoc)+
  then show ?case
    by (simp add: rs(1))
qed simp

text \<open>
  C7: the queue is a bounded FIFO. Over any sequence of calls of the whole interface, from any
  capacity, the linked queue with its recycled nodes gives each call the answer of the abstract
  queue \<open>fifo_call\<close> (accepted, refused, wait, an item, nothing) and ends in the state that
  represents the abstract one; no call follows a null or dangling pointer. In particular the items
  put in are, in order, the items taken out followed by those still queued, which are never more
  than the capacity.
\<close>

theorem queue_is_fifo:
  "\<exists>q answers. run_calls bq_call calls (bq_new capacity) = Some (answers, q) \<and>
     run_spec fifo_call calls (capacity, [], False) = (answers, bq_capacity q, bq_items q, bq_closed q) \<and>
     concat (map2 put_in calls answers) = concat (map taken_out answers) @ bq_items q \<and>
     (capacity = 0 \<or> length (bq_items q) \<le> capacity)"
proof -
  have start: "bq_abs (bq_new capacity) = (capacity, [], False)"
    by (simp add: bq_abs_def bq_new_ok) (simp add: bq_new_def)
  obtain q where q: "run_calls bq_call calls (bq_new capacity) = Some (fst (run_spec fifo_call calls (capacity, [], False)), q)"
    "bq_abs q = snd (run_spec fifo_call calls (capacity, [], False))"
    using bqc.run_refines [OF bq_new_ok(1), of calls capacity] unfolding start by blast
  then have r: "run_spec fifo_call calls (capacity, [], False) =
      (fst (run_spec fifo_call calls (capacity, [], False)), bq_capacity q, bq_items q, bq_closed q)"
    by (metis bq_abs_def prod.collapse)
  from fifo_calls_conserve [OF r] q(1) r show ?thesis
    by auto
qed

section \<open>Waiting threads\<close>

text \<open>
  The mutex makes every call one step. What remains of concurrency are the two condition
  variables: threads asleep in \<open>wait\<close>, and threads already notified that have not run again.
  \<open>notify_one\<close> wakes one sleeper if there is one; a woken thread looks at its predicate again.
\<close>

record 'a monitor =
  mon_queue :: "'a bq"
  takers_asleep :: nat
  takers_woken :: nat
  pushers_asleep :: nat
  pushers_woken :: nat

definition notify_not_empty :: "'a monitor \<Rightarrow> 'a monitor" where
  "notify_not_empty s = (if takers_asleep s = 0 then s
     else s\<lparr> takers_asleep := takers_asleep s - 1, takers_woken := takers_woken s + 1 \<rparr>)"

definition notify_not_full :: "'a monitor \<Rightarrow> 'a monitor" where
  "notify_not_full s = (if pushers_asleep s = 0 then s
     else s\<lparr> pushers_asleep := pushers_asleep s - 1, pushers_woken := pushers_woken s + 1 \<rparr>)"

definition notify_all :: "'a monitor \<Rightarrow> 'a monitor" where
  "notify_all s = s\<lparr> takers_asleep := 0, takers_woken := takers_woken s + takers_asleep s,
     pushers_asleep := 0, pushers_woken := pushers_woken s + pushers_asleep s \<rparr>"

definition after_push :: "bool \<Rightarrow> 'a bq \<Rightarrow> 'a monitor \<Rightarrow> 'a monitor" where
  "after_push pushed q s = (if pushed then notify_not_empty (s\<lparr> mon_queue := q \<rparr>) else s\<lparr> mon_queue := q \<rparr>)"

definition after_take :: "'a option \<Rightarrow> 'a bq \<Rightarrow> 'a monitor \<Rightarrow> 'a monitor" where
  "after_take r q s = (if r \<noteq> None then notify_not_full (s\<lparr> mon_queue := q \<rparr>) else s\<lparr> mon_queue := q \<rparr>)"

inductive mon_step :: "'a monitor \<Rightarrow> 'a monitor \<Rightarrow> bool" where
  push_call: "bq_push x (mon_queue s) = Some (Done b, q) \<Longrightarrow> mon_step s (after_push b q s)"
| push_sleeps: "bq_push x (mon_queue s) = Some (Wait, q) \<Longrightarrow>
    mon_step s (s\<lparr> pushers_asleep := pushers_asleep s + 1 \<rparr>)"
| push_resumes: "pushers_woken s > 0 \<Longrightarrow> bq_push x (mon_queue s) = Some (Done b, q) \<Longrightarrow>
    mon_step s (after_push b q (s\<lparr> pushers_woken := pushers_woken s - 1 \<rparr>))"
| push_sleeps_again: "pushers_woken s > 0 \<Longrightarrow> bq_push x (mon_queue s) = Some (Wait, q) \<Longrightarrow>
    mon_step s (s\<lparr> pushers_woken := pushers_woken s - 1, pushers_asleep := pushers_asleep s + 1 \<rparr>)"
| try_push_call: "bq_try_push x (mon_queue s) = Some (b, q) \<Longrightarrow> mon_step s (after_push b q s)"
| take_call: "bq_take (mon_queue s) = Some (Done r, q) \<Longrightarrow> mon_step s (after_take r q s)"
| take_sleeps: "bq_take (mon_queue s) = Some (Wait, q) \<Longrightarrow>
    mon_step s (s\<lparr> takers_asleep := takers_asleep s + 1 \<rparr>)"
| take_resumes: "takers_woken s > 0 \<Longrightarrow> bq_take (mon_queue s) = Some (Done r, q) \<Longrightarrow>
    mon_step s (after_take r q (s\<lparr> takers_woken := takers_woken s - 1 \<rparr>))"
| take_sleeps_again: "takers_woken s > 0 \<Longrightarrow> bq_take (mon_queue s) = Some (Wait, q) \<Longrightarrow>
    mon_step s (s\<lparr> takers_woken := takers_woken s - 1, takers_asleep := takers_asleep s + 1 \<rparr>)"
| take_times_out: "takers_asleep s > 0 \<Longrightarrow> bq_take_for True (mon_queue s) = Some (Done r, q) \<Longrightarrow>
    mon_step s (after_take r q (s\<lparr> takers_asleep := takers_asleep s - 1 \<rparr>))"
| poll_call: "bq_poll (mon_queue s) = Some (r, q) \<Longrightarrow> mon_step s (after_take r q s)"
| taker_wakes: "takers_asleep s > 0 \<Longrightarrow>
    mon_step s (s\<lparr> takers_asleep := takers_asleep s - 1, takers_woken := takers_woken s + 1 \<rparr>)"
| pusher_wakes: "pushers_asleep s > 0 \<Longrightarrow>
    mon_step s (s\<lparr> pushers_asleep := pushers_asleep s - 1, pushers_woken := pushers_woken s + 1 \<rparr>)"
| close_call: "mon_step s (notify_all (s\<lparr> mon_queue := bq_close (mon_queue s) \<rparr>))"

definition mon_start :: "nat \<Rightarrow> 'a monitor" where
  "mon_start c = \<lparr> mon_queue = bq_new c, takers_asleep = 0, takers_woken = 0,
     pushers_asleep = 0, pushers_woken = 0 \<rparr>"

inductive mon_reachable :: "nat \<Rightarrow> 'a monitor \<Rightarrow> bool" for c where
  start: "mon_reachable c (mon_start c)"
| step: "mon_reachable c s \<Longrightarrow> mon_step s t \<Longrightarrow> mon_reachable c t"

definition mon_inv :: "'a monitor \<Rightarrow> bool" where
  "mon_inv s \<longleftrightarrow> bq_ok (mon_queue s) \<and>
    (let q = mon_queue s in
      (takers_asleep s > 0 \<longrightarrow> \<not> bq_closed q \<and> length (bq_items q) \<le> takers_woken s) \<and>
      (pushers_asleep s > 0 \<longrightarrow> \<not> bq_closed q \<and> bq_capacity q > 0 \<and>
         bq_capacity q \<le> length (bq_items q) + pushers_woken s))"

text \<open>What the four calls do, in one shape.\<close>

definition pushes :: "'a bq \<Rightarrow> bool \<Rightarrow> 'a bq \<Rightarrow> bool" where
  "pushes q b q' \<longleftrightarrow> bq_ok q' \<and> bq_capacity q' = bq_capacity q \<and> bq_closed q' = bq_closed q \<and>
    (if b then \<not> bq_closed q \<and> \<not> full (bq_capacity q) (bq_items q) \<and>
         length (bq_items q') = length (bq_items q) + 1
     else q' = q)"

definition takes :: "'a bq \<Rightarrow> 'a option \<Rightarrow> 'a bq \<Rightarrow> bool" where
  "takes q r q' \<longleftrightarrow> bq_ok q' \<and> bq_capacity q' = bq_capacity q \<and> bq_closed q' = bq_closed q \<and>
    (if r = None then q' = q \<and> bq_items q = [] else length (bq_items q) = length (bq_items q') + 1)"

lemma append_pushes:
  assumes "bq_ok q" "append_item x q = Some q'" "\<not> bq_closed q" "\<not> full (bq_capacity q) (bq_items q)"
  shows "pushes q True q'"
proof -
  have "bq_capacity q > 0 \<Longrightarrow> bq_size q < bq_capacity q"
    using assms(4) by (simp add: full_def bq_size_items [OF assms(1)])
  then obtain q'' where "append_item x q = Some q''" "bq_ok q''" "bq_items q'' = bq_items q @ [x]"
    "bq_capacity q'' = bq_capacity q" "bq_closed q'' = bq_closed q"
    by (rule append_item_ok [OF assms(1)])
  with assms show ?thesis
    by (simp add: pushes_def)
qed

lemma push_result:
  assumes "bq_ok q"
  shows "bq_push x q = Some (Done b, q') \<Longrightarrow> pushes q b q'"
    and "bq_push x q = Some (Wait, q') \<Longrightarrow> q' = q \<and> \<not> bq_closed q \<and> full (bq_capacity q) (bq_items q)"
    and "bq_try_push x q = Some (b, q') \<Longrightarrow> pushes q b q'"
proof -
  have full: "full (bq_capacity q) (bq_items q) \<longleftrightarrow> bq_capacity q > 0 \<and> bq_size q \<ge> bq_capacity q"
    by (simp add: full_def bq_size_items [OF assms])
  have refused: "pushes q False q"
    using assms by (simp add: pushes_def)
  show "bq_push x q = Some (Done b, q') \<Longrightarrow> pushes q b q'"
    using append_pushes [OF assms] refused
    by (auto simp: bq_push_def full split: if_splits option.splits)
  show "bq_push x q = Some (Wait, q') \<Longrightarrow> q' = q \<and> \<not> bq_closed q \<and> full (bq_capacity q) (bq_items q)"
    by (auto simp: bq_push_def full split: if_splits option.splits)
  show "bq_try_push x q = Some (b, q') \<Longrightarrow> pushes q b q'"
    using append_pushes [OF assms] refused
    by (auto simp: bq_try_push_def full split: if_splits option.splits)
qed

lemma unlink_takes:
  assumes "bq_ok q" "bq_unlink_some q = Some (r, q')" "bq_size q > 0"
  shows "takes q r q'"
proof -
  obtain x q'' where "bq_unlink_some q = Some (Some x, q'')" "bq_ok q''" "bq_items q = x # bq_items q''"
    "bq_capacity q'' = bq_capacity q" "bq_closed q'' = bq_closed q"
    by (rule bq_unlink_some_ok [OF assms(1,3)])
  with assms(2) show ?thesis
    by (auto simp: takes_def)
qed

lemma take_result:
  assumes "bq_ok q"
  shows "bq_take q = Some (Done r, q') \<Longrightarrow> takes q r q'"
    and "bq_take q = Some (Wait, q') \<Longrightarrow> q' = q \<and> \<not> bq_closed q \<and> bq_items q = []"
    and "bq_take_for True q = Some (Done r, q') \<Longrightarrow> takes q r q'"
    and "bq_poll q = Some (r, q') \<Longrightarrow> takes q r q'"
proof -
  have empty: "bq_size q = 0 \<longleftrightarrow> bq_items q = []"
    by (simp add: bq_size_items [OF assms])
  have none: "bq_size q = 0 \<Longrightarrow> takes q None q"
    using assms empty by (simp add: takes_def)
  note some = unlink_takes [OF assms]
  show "bq_take q = Some (Done r, q') \<Longrightarrow> takes q r q'"
    using some none by (auto simp: bq_take_def split: if_splits)
  show "bq_take q = Some (Wait, q') \<Longrightarrow> q' = q \<and> \<not> bq_closed q \<and> bq_items q = []"
    using empty by (auto simp: bq_take_def split: if_splits)
  show "bq_take_for True q = Some (Done r, q') \<Longrightarrow> takes q r q'"
    using some none by (auto simp: bq_take_for_def Let_def split: if_splits)
  show "bq_poll q = Some (r, q') \<Longrightarrow> takes q r q'"
    using some none by (auto simp: bq_poll_def split: if_splits)
qed

lemma after_push_inv:
  assumes "mon_inv s" "pushes (mon_queue s) b q"
  shows "mon_inv (after_push b q s)"
  using assms
  by (auto simp: mon_inv_def pushes_def after_push_def notify_not_empty_def Let_def full_def split: if_splits)

lemma after_push_inv_resumed:
  assumes "mon_inv s" "pushers_woken s > 0" "pushes (mon_queue s) b q"
    and "b = False \<Longrightarrow> bq_closed (mon_queue s)"
  shows "mon_inv (after_push b q (s\<lparr> pushers_woken := pushers_woken s - 1 \<rparr>))"
  using assms
  by (auto simp: mon_inv_def pushes_def after_push_def notify_not_empty_def Let_def full_def split: if_splits)

lemma after_take_inv:
  assumes "mon_inv s" "takes (mon_queue s) r q"
  shows "mon_inv (after_take r q s)"
  using assms
  by (cases r) (auto simp: mon_inv_def takes_def after_take_def notify_not_full_def Let_def)

lemma after_take_inv_resumed:
  assumes "mon_inv s" "takers_woken s > 0" "takes (mon_queue s) r q"
  shows "mon_inv (after_take r q (s\<lparr> takers_woken := takers_woken s - 1 \<rparr>))"
  using assms
  by (cases r) (auto simp: mon_inv_def takes_def after_take_def notify_not_full_def Let_def)

lemma after_take_inv_timed_out:
  assumes "mon_inv s" "takers_asleep s > 0" "takes (mon_queue s) r q"
  shows "mon_inv (after_take r q (s\<lparr> takers_asleep := takers_asleep s - 1 \<rparr>))"
  using assms
  by (cases r) (auto simp: mon_inv_def takes_def after_take_def notify_not_full_def Let_def)

lemma push_refused_closed: "bq_push x q = Some (Done False, q') \<Longrightarrow> bq_closed q"
  by (auto simp: bq_push_def split: if_splits option.splits)

lemma mon_step_inv:
  assumes "mon_step s t" "mon_inv s"
  shows "mon_inv t"
proof -
  have ok: "bq_ok (mon_queue s)"
    using assms(2) by (simp add: mon_inv_def)
  note push = push_result [OF ok] and tak = take_result [OF ok]
  from assms(1) show ?thesis
  proof cases
    case (push_call x b q)
    then show ?thesis using after_push_inv [OF assms(2)] push(1) by simp
  next
    case (push_sleeps x q)
    then show ?thesis
      using assms(2) push(2) by (fastforce simp: mon_inv_def Let_def full_def)
  next
    case (push_resumes x b q)
    then show ?thesis
      using after_push_inv_resumed [OF assms(2)] push(1) push_refused_closed [of x "mon_queue s" q] by auto
  next
    case (push_sleeps_again x q)
    then show ?thesis
      using assms(2) push(2) by (fastforce simp: mon_inv_def Let_def full_def)
  next
    case (try_push_call x b q)
    then show ?thesis using after_push_inv [OF assms(2)] push(3) by simp
  next
    case (take_call r q)
    then show ?thesis using after_take_inv [OF assms(2)] tak(1) by simp
  next
    case (take_sleeps q)
    then show ?thesis
      using assms(2) tak(2) by (fastforce simp: mon_inv_def Let_def)
  next
    case (take_resumes r q)
    then show ?thesis using after_take_inv_resumed [OF assms(2)] tak(1) by simp
  next
    case (take_sleeps_again q)
    then show ?thesis
      using assms(2) tak(2) by (fastforce simp: mon_inv_def Let_def)
  next
    case (take_times_out r q)
    then show ?thesis using after_take_inv_timed_out [OF assms(2)] tak(3) by simp
  next
    case (poll_call r q)
    then show ?thesis using after_take_inv [OF assms(2)] tak(4) by simp
  next
    case taker_wakes
    then show ?thesis using assms(2) by (auto simp: mon_inv_def Let_def)
  next
    case pusher_wakes
    then show ?thesis using assms(2) by (auto simp: mon_inv_def Let_def)
  next
    case close_call
    then show ?thesis using assms(2) by (simp add: mon_inv_def notify_all_def bq_close_ok)
  qed
qed

lemma mon_reachable_inv: "mon_reachable c s \<Longrightarrow> mon_inv s"
  by (induction rule: mon_reachable.induct)
    (simp_all add: mon_step_inv, simp add: mon_inv_def mon_start_def bq_new_ok)

text \<open>
  C8: no wakeup is lost. In every reachable state of the queue and the threads using it, if
  a consumer sleeps while items are queued then at least as many consumers are already woken
  as there are items, if a producer sleeps while there is room then at least as many
  producers are woken as there are free slots, and nobody sleeps on a closed queue.
\<close>

theorem no_lost_wakeup:
  assumes "mon_reachable c s"
  shows "(takers_asleep s > 0 \<longrightarrow> length (bq_items (mon_queue s)) \<le> takers_woken s) \<and>
    (pushers_asleep s > 0 \<longrightarrow> bq_capacity (mon_queue s) - length (bq_items (mon_queue s)) \<le> pushers_woken s) \<and>
    (bq_closed (mon_queue s) \<longrightarrow> takers_asleep s = 0 \<and> pushers_asleep s = 0)"
  using mon_reachable_inv [OF assms] by (auto simp: mon_inv_def Let_def)

lemma no_lost_wakeup_witness:
  "let s = (mon_start 2 :: nat monitor)\<lparr> takers_asleep := 1 \<rparr> in
    (takers_asleep s > 0 \<longrightarrow> length (bq_items (mon_queue s)) \<le> takers_woken s) \<and>
    (pushers_asleep s > 0 \<longrightarrow> bq_capacity (mon_queue s) - length (bq_items (mon_queue s)) \<le> pushers_woken s) \<and>
    (bq_closed (mon_queue s) \<longrightarrow> takers_asleep s = 0 \<and> pushers_asleep s = 0)"
proof -
  have "bq_take (mon_queue (mon_start 2 :: nat monitor)) = Some (Wait, mon_queue (mon_start 2))"
    by (simp add: bq_take_def mon_start_def bq_new_def)
  from mon_reachable.step [OF mon_reachable.start mon_step.take_sleeps [OF this]]
  have "mon_reachable 2 ((mon_start 2 :: nat monitor)\<lparr> takers_asleep := 1 \<rparr>)"
    by (simp add: mon_start_def)
  from no_lost_wakeup [OF this] show ?thesis
    unfolding Let_def .
qed

section \<open>Storage\<close>

lemma drain_list_chain:
  "chain (bq_heap q) p as \<Longrightarrow> distinct as \<Longrightarrow> length as \<le> fuel \<Longrightarrow>
   drain_list fuel p q = Some (q\<lparr> bq_heap := bq_heap q |` (- set as) \<rparr>)"
proof (induction as arbitrary: fuel p q)
  case (Cons a as)
  obtain n f where n: "bq_heap q a = Some n" "p = Some a" "chain (bq_heap q) (nd_next n) as" "fuel = Suc f"
    using Cons.prems by (cases fuel) (auto split: option.splits)
  let ?q = "q\<lparr> bq_heap := (bq_heap q)(a := None) \<rparr>"
  have "drain_list f (nd_next n) ?q = Some (?q\<lparr> bq_heap := bq_heap ?q |` (- set as) \<rparr>)"
  proof (rule Cons.IH)
    show "chain (bq_heap ?q) (nd_next n) as"
      using n Cons.prems(2) by simp
  qed (use Cons.prems n in auto)
  moreover have "((bq_heap q)(a := None)) |` (- set as) = bq_heap q |` (- set (a # as))"
    by (auto simp: restrict_map_def fun_eq_iff)
  ultimately show ?case
    using n by simp
qed (cases fuel; simp add: restrict_map_def)

text \<open>
  C15: the queue stays within its bound, and destroying it frees every node it ever kept:
  after any sequence of calls the list holds at most \<open>capacity\<close> items, at most 64 nodes are
  kept for reuse, and the destructor leaves an empty heap.
\<close>

theorem queue_storage_bounded_and_freed:
  assumes "fifo_run bq_try_push bq_poll bq_close ops (bq_new capacity) = Some (ins, outs, q)"
  shows "(capacity > 0 \<longrightarrow> length (bq_items q) \<le> capacity) \<and> bq_free_count q \<le> 64 \<and>
    (\<exists>q'. bq_destroy q = Some q' \<and> bq_heap q' = Map.empty)"
proof -
  have ok: "bq_ok q" and cap: "bq_capacity q = capacity"
    using bq.run_fifo [OF bq_new_ok(1) [of capacity], of ops] assms by (auto simp: bq_new_def)
  then obtain as fs where rep: "bq_rep q as fs"
    by (auto simp: bq_ok_def)
  then have rep': "chain (bq_heap q) (bq_head q) as" "chain (bq_heap q) (bq_free_nodes q) fs"
    "distinct as" "distinct fs" "set as \<inter> set fs = {}" "dom (bq_heap q) = set as \<union> set fs"
    "bq_size q = length as" "bq_free_count q = length fs" "length fs \<le> 64"
    "bq_capacity q > 0 \<longrightarrow> bq_size q \<le> bq_capacity q"
    by (auto simp: bq_rep_def)
  let ?c = "bq_close q" and ?h = "bq_heap q |` (- set as)"
  have d1: "drain_list (length as + length fs) (bq_head q) ?c = Some (?c\<lparr> bq_heap := ?h \<rparr>)"
    using drain_list_chain [of ?c "bq_head q" as "length as + length fs"] rep' by (simp add: bq_close_def)
  have "chain ?h p bs" if "chain (bq_heap q) p bs" "set bs \<inter> set as = {}" for p bs
    using that by (induction bs arbitrary: p) (auto simp: restrict_map_def split: option.splits)
  then have "chain ?h (bq_free_nodes q) fs"
    using rep' by blast
  then have d2: "drain_list (length as + length fs) (bq_free_nodes q) (?c\<lparr> bq_heap := ?h \<rparr>) =
      Some (?c\<lparr> bq_heap := ?h |` (- set fs) \<rparr>)"
    using drain_list_chain [of "?c\<lparr> bq_heap := ?h \<rparr>" "bq_free_nodes q" fs] rep' by simp
  have "?h |` (- set fs) = Map.empty"
    using rep'(6) by (auto simp: restrict_map_def fun_eq_iff dom_def)
  with d1 d2 rep' have "bq_destroy q = Some (?c\<lparr> bq_heap := Map.empty \<rparr>)"
    by (simp add: bq_destroy_def Let_def) (simp add: bq_close_def)
  with rep' cap bq_size_items [OF ok] show ?thesis
    by auto
qed

lemma queue_storage_bounded_and_freed_witness:
  "\<exists>q. fifo_run bq_try_push bq_poll bq_close [Push (1 :: nat), Push 2, Push 3, Poll] (bq_new 2) =
      Some ([1, 2], [1], q) \<and>
    (2 > (0 :: nat) \<longrightarrow> length (bq_items q) \<le> 2) \<and> bq_free_count q \<le> 64 \<and>
    (\<exists>q'. bq_destroy q = Some q' \<and> bq_heap q' = Map.empty)"
proof -
  let ?q0 = "bq_new 2 :: nat bq"
  have q0: "bq_ok ?q0" "bq_items ?q0 = []" "bq_capacity ?q0 = 2" "\<not> bq_closed ?q0"
    by (simp_all add: bq_new_ok) (simp_all add: bq_new_def)
  obtain q1 where q1: "bq_try_push 1 ?q0 = Some (True, q1)" "bq_ok q1" "bq_items q1 = [1]"
    "bq_capacity q1 = 2" "\<not> bq_closed q1"
    using bq_try_push_spec [OF q0(1), of 1] q0 by (auto simp: full_def)
  obtain q2 where q2: "bq_try_push 2 q1 = Some (True, q2)" "bq_ok q2" "bq_items q2 = [1, 2]"
    "bq_capacity q2 = 2" "\<not> bq_closed q2"
    using bq_try_push_spec [OF q1(2), of 2] q1 by (auto simp: full_def)
  obtain q3 where q3: "bq_try_push 3 q2 = Some (False, q3)" "bq_ok q3" "bq_items q3 = [1, 2]"
    using bq_try_push_spec [OF q2(2), of 3] q2 by (auto simp: full_def)
  obtain q4 where q4: "bq_poll q3 = Some (Some 1, q4)"
    using bq_poll_spec [OF q3(2)] q3 by auto
  have q: "fifo_run bq_try_push bq_poll bq_close [Push 1, Push 2, Push 3, Poll] ?q0 = Some ([1, 2], [1], q4)"
    by (simp add: q1 q2 q3 q4 del: One_nat_def)
  show ?thesis
    by (rule exI, rule conjI, rule q, rule queue_storage_bounded_and_freed [OF q])
qed

end
