(* ===== verification/Buffer_Pool.thy ===== *)
theory Buffer_Pool
  imports Tight_Prelude
begin

text \<open>
  \<open>PooledAllocator\<close> of \<open>buffer_pool.hpp\<close>: datagram buffers from a per-thread free list of
  blocks of one size. The heap records the size of every block obtained from
  \<open>operator new\<close>; \<open>sz\<close> is \<open>sizeof(T)\<close>. Blocks may be freed on another thread's list,
  so there is one free list per thread over one heap.
\<close>

definition kPoolBlockSize :: nat where "kPoolBlockSize = 2048"
definition kPoolMaxFreePerThread :: nat where "kPoolMaxFreePerThread = 16"

record pool =
  pl_lists :: "nat \<Rightarrow> nat list"
  pl_heap :: "nat \<rightharpoonup> nat"
  pl_fresh :: nat

definition operator_new :: "nat \<Rightarrow> pool \<Rightarrow> nat \<times> pool" where
  "operator_new n s = (pl_fresh s, s\<lparr> pl_heap := (pl_heap s)(pl_fresh s \<mapsto> n), pl_fresh := pl_fresh s + 1 \<rparr>)"

definition pool_allocate :: "nat \<Rightarrow> nat \<Rightarrow> nat \<Rightarrow> pool \<Rightarrow> nat \<times> pool" where
  "pool_allocate sz thread n s =
    (if n \<le> kPoolBlockSize div sz then
       (let l = pl_lists s thread
        in if l \<noteq> [] then (last l, s\<lparr> pl_lists := (pl_lists s)(thread := butlast l) \<rparr>)
           else operator_new kPoolBlockSize s)
     else operator_new (n * sz) s)"

definition pool_deallocate :: "nat \<Rightarrow> nat \<Rightarrow> nat \<Rightarrow> nat \<Rightarrow> pool \<Rightarrow> pool" where
  "pool_deallocate sz thread p n s =
    (if n \<le> kPoolBlockSize div sz \<and> length (pl_lists s thread) < kPoolMaxFreePerThread
     then s\<lparr> pl_lists := (pl_lists s)(thread := pl_lists s thread @ [p]) \<rparr>
     else s\<lparr> pl_heap := (pl_heap s)(p := None) \<rparr>)"

section \<open>Correct use\<close>

text \<open>\<open>live\<close>: the buffers the program holds, with the element count each was requested for.\<close>

definition lists_ok :: "(nat \<Rightarrow> nat list) \<Rightarrow> bool" where
  "lists_ok ls \<longleftrightarrow> (\<forall>t. length (ls t) \<le> kPoolMaxFreePerThread \<and> distinct (ls t)) \<and>
    (\<forall>t u p. p \<in> set (ls t) \<longrightarrow> p \<in> set (ls u) \<longrightarrow> t = u)"

definition block_size :: "nat \<Rightarrow> nat \<Rightarrow> nat" where
  "block_size sz n = (if n \<le> kPoolBlockSize div sz then kPoolBlockSize else n * sz)"

definition pool_inv :: "nat \<Rightarrow> (nat \<rightharpoonup> nat) \<Rightarrow> pool \<Rightarrow> bool" where
  "pool_inv sz live s \<longleftrightarrow> lists_ok (pl_lists s) \<and>
    (\<forall>t. \<forall>p\<in>set (pl_lists s t). pl_heap s p = Some kPoolBlockSize \<and> live p = None) \<and>
    (\<forall>p n. live p = Some n \<longrightarrow> pl_heap s p = Some (block_size sz n)) \<and>
    (\<forall>p. p \<ge> pl_fresh s \<longrightarrow> pl_heap s p = None)"

definition pool_empty :: pool where
  "pool_empty = \<lparr> pl_lists = (\<lambda>t. []), pl_heap = Map.empty, pl_fresh = 0 \<rparr>"

lemma pool_inv_empty: "pool_inv sz Map.empty pool_empty"
  by (simp add: pool_inv_def pool_empty_def lists_ok_def)

lemma block_size_enough: "n * sz \<le> block_size sz n"
  unfolding block_size_def by (auto intro: order_trans [OF mult_le_mono1 div_times_less_eq_dividend])

lemma lists_ok_pop:
  assumes "lists_ok ls" "ls t = xs @ [p]"
  shows "lists_ok (ls(t := xs))" "p \<notin> set ((ls(t := xs)) u)"
proof -
  have "p \<notin> set xs" "distinct xs" "length xs \<le> kPoolMaxFreePerThread" "set xs \<subseteq> set (ls t)"
    using assms by (auto simp: lists_ok_def dest: spec [of _ t])
  moreover have "p \<notin> set (ls u)" if "u \<noteq> t"
    using assms that unfolding lists_ok_def by (metis in_set_conv_decomp)
  ultimately show "p \<notin> set ((ls(t := xs)) u)"
    by simp
  show "lists_ok (ls(t := xs))"
    using assms(1) \<open>distinct xs\<close> \<open>length xs \<le> _\<close> \<open>set xs \<subseteq> _\<close>
    unfolding lists_ok_def by (auto split: if_splits)
qed

lemma lists_ok_push:
  assumes "lists_ok ls" "\<And>u. p \<notin> set (ls u)" "length (ls t) < kPoolMaxFreePerThread"
  shows "lists_ok (ls(t := ls t @ [p]))"
  using assms unfolding lists_ok_def by (auto split: if_splits)

lemma operator_new_inv:
  assumes inv: "pool_inv sz live s" and new: "operator_new (block_size sz n) s = (p, s')"
  shows "live p = None" "pool_inv sz (live(p \<mapsto> n)) s'" "pl_heap s' p = Some (block_size sz n)"
proof -
  have none: "pl_heap s (pl_fresh s) = None"
    using inv by (simp add: pool_inv_def)
  then show live: "live p = None"
    using inv new by (cases "live p") (auto simp: pool_inv_def operator_new_def)
  have "p \<notin> set (pl_lists s t)" for t
    using inv new none by (auto simp: pool_inv_def operator_new_def)
  with inv new show "pool_inv sz (live(p \<mapsto> n)) s'"
    by (auto simp: pool_inv_def operator_new_def)
  show "pl_heap s' p = Some (block_size sz n)"
    using new by (auto simp: operator_new_def)
qed

lemma pool_allocate_inv:
  assumes inv: "pool_inv sz live s" and alloc: "pool_allocate sz thread n s = (p, s')"
  shows "live p = None" "pool_inv sz (live(p \<mapsto> n)) s'" "pl_heap s' p = Some (block_size sz n)"
proof -
  have "live p = None \<and> pool_inv sz (live(p \<mapsto> n)) s' \<and> pl_heap s' p = Some (block_size sz n)"
  proof (cases "n \<le> kPoolBlockSize div sz \<and> pl_lists s thread \<noteq> []")
    case True
    define xs where "xs = butlast (pl_lists s thread)"
    have l: "pl_lists s thread = xs @ [p]" and s': "s' = s\<lparr> pl_lists := (pl_lists s)(thread := xs) \<rparr>"
      using True alloc by (auto simp: pool_allocate_def Let_def xs_def)
    have lists: "lists_ok (pl_lists s)"
      using inv by (simp add: pool_inv_def)
    note pop = lists_ok_pop [OF lists l]
    have p: "live p = None" "pl_heap s p = Some kPoolBlockSize"
      using inv l unfolding pool_inv_def by (metis in_set_conv_decomp)+
    have "pl_heap s q = Some kPoolBlockSize \<and> (live(p \<mapsto> n)) q = None"
      if "q \<in> set (((pl_lists s)(thread := xs)) t)" for q t
    proof -
      have "q \<in> set (pl_lists s t)"
        using that l by (auto split: if_splits)
      moreover have "q \<noteq> p"
        using that pop(2) by metis
      ultimately show ?thesis
        using inv by (auto simp: pool_inv_def)
    qed
    then show ?thesis
      using inv True p pop(1) by (simp add: pool_inv_def s' block_size_def)
  next
    case False
    then have "operator_new (block_size sz n) s = (p, s')"
      using alloc by (auto simp: pool_allocate_def block_size_def)
    with operator_new_inv [OF inv] show ?thesis
      by blast
  qed
  then show "live p = None" "pool_inv sz (live(p \<mapsto> n)) s'" "pl_heap s' p = Some (block_size sz n)"
    by auto
qed

lemma pool_deallocate_inv:
  assumes inv: "pool_inv sz live s" and live: "live p = Some n"
  shows "pool_inv sz (live(p := None)) (pool_deallocate sz thread p n s)"
proof -
  have off: "p \<notin> set (pl_lists s t)" for t
    using inv live unfolding pool_inv_def by auto
  have lists: "lists_ok (pl_lists s)" and size: "pl_heap s p = Some (block_size sz n)"
    using inv live unfolding pool_inv_def by blast+
  show ?thesis
  proof (cases "n \<le> kPoolBlockSize div sz \<and> length (pl_lists s thread) < kPoolMaxFreePerThread")
    case True
    then have "lists_ok ((pl_lists s)(thread := pl_lists s thread @ [p]))"
      using lists_ok_push [OF lists off] by blast
    with True inv off size show ?thesis
      by (simp add: pool_inv_def pool_deallocate_def block_size_def)
  next
    case False
    then have "pool_deallocate sz thread p n s = s\<lparr> pl_heap := (pl_heap s)(p := None) \<rparr>"
      unfolding pool_deallocate_def by (rule if_not_P)
    with inv off show ?thesis
      by (auto simp: pool_inv_def)
  qed
qed

text \<open>Programs that free what they allocated, with the element count they asked for.\<close>

inductive pool_reach :: "nat \<Rightarrow> (nat \<rightharpoonup> nat) \<Rightarrow> pool \<Rightarrow> bool" for sz where
  empty: "pool_reach sz Map.empty pool_empty"
| allocate: "pool_reach sz live s \<Longrightarrow> pool_allocate sz thread n s = (p, s') \<Longrightarrow>
    pool_reach sz (live(p \<mapsto> n)) s'"
| deallocate: "pool_reach sz live s \<Longrightarrow> live p = Some n \<Longrightarrow>
    pool_reach sz (live(p := None)) (pool_deallocate sz thread p n s)"

lemma pool_reach_inv: "pool_reach sz live s \<Longrightarrow> pool_inv sz live s"
proof (induction rule: pool_reach.induct)
  case empty
  show ?case by (rule pool_inv_empty)
next
  case (allocate live s thread n p s')
  then show ?case using pool_allocate_inv(2) by blast
next
  case (deallocate live s p n thread)
  then show ?case using pool_deallocate_inv by blast
qed

text \<open>
  C11: a buffer handed out by the pool is never one still in use, by this thread or another,
  and holds at least the elements asked for; no thread keeps more than 16 idle blocks.
\<close>

theorem pool_allocate_exclusive:
  assumes "pool_reach sz live s" "pool_allocate sz thread n s = (p, s')"
  shows "live p = None \<and> (\<exists>size. pl_heap s' p = Some size \<and> n * sz \<le> size) \<and>
    length (pl_lists s' thread) \<le> kPoolMaxFreePerThread"
proof -
  note inv = pool_allocate_inv [OF pool_reach_inv [OF assms(1)] assms(2)]
  have "length (pl_lists s' thread) \<le> kPoolMaxFreePerThread"
    using inv(2) by (simp add: pool_inv_def lists_ok_def)
  with inv(1,3) block_size_enough [of n sz] show ?thesis
    by auto
qed

lemma pool_allocate_exclusive_witness:
  "\<exists>s s'. pool_allocate 1 7 100 (pool_deallocate 1 7 0 1300 s) = (0, s') \<and>
    (\<exists>size. pl_heap s' 0 = Some size \<and> 100 * 1 \<le> size)"
proof -
  obtain s where a: "pool_allocate 1 7 1300 pool_empty = (0, s)"
    by (simp add: pool_allocate_def pool_empty_def operator_new_def kPoolBlockSize_def)
  then have "pool_reach 1 [0 \<mapsto> 1300] s"
    using pool_reach.allocate [OF pool_reach.empty] by blast
  then have d: "pool_reach 1 ([0 \<mapsto> 1300](0 := None)) (pool_deallocate 1 7 0 1300 s)"
    by (rule pool_reach.deallocate) simp
  obtain s' where b: "pool_allocate 1 7 100 (pool_deallocate 1 7 0 1300 s) = (0, s')"
    using a by (auto simp: pool_allocate_def pool_deallocate_def pool_empty_def operator_new_def
        kPoolBlockSize_def kPoolMaxFreePerThread_def)
  from pool_allocate_exclusive [OF d b] b show ?thesis
    by blast
qed

end
