(* ===== verification/Binary64.thy ===== *)
theory Binary64
  imports Complex_Main "HOL-Library.Log_Nat" Tight_Prelude
begin

text \<open>
  The arithmetic of \<open>double\<close>: every result is the exact rational rounded to the nearest
  number of 53 significant bits, ties to even. The exponent is unbounded: the code's
  quantities (byte rates, ratios, microseconds) stay between \<open>2 ^ -200\<close> and \<open>2 ^ 200\<close>, far
  from overflow and subnormal numbers, and every division is guarded in the source.
  Clients use only the laws of the locale \<open>rounding\<close>.
\<close>

type_synonym double = rat

section \<open>Rounding\<close>

definition round_half_even :: "rat \<Rightarrow> int" where
  "round_half_even q =
    (let f = \<lfloor>q\<rfloor>; d = q - of_int f
     in if d < 1 / 2 then f else if d > 1 / 2 then f + 1 else if even f then f else f + 1)"

text \<open>The power of two \<open>2 ^ e\<close> for an integer \<open>e\<close>, and the binade of a positive number.\<close>

definition two_powi :: "int \<Rightarrow> rat" where
  "two_powi e = (if e \<ge> 0 then 2 ^ nat e else 1 / 2 ^ nat (- e))"

definition binade :: "rat \<Rightarrow> int" where
  "binade x =
    (let (p, q) = quotient_of x;
         e = int (floorlog 2 (nat p)) - int (floorlog 2 (nat q))
     in if x < two_powi e then e - 1 else e)"

definition rnd64 :: "rat \<Rightarrow> double" where
  "rnd64 x =
    (if x = 0 then 0
     else let u = two_powi (binade \<bar>x\<bar> - 52)
       in if x > 0 then of_int (round_half_even (x / u)) * u else - (of_int (round_half_even (- x / u)) * u))"

lemma round_half_even_bounds: "\<lfloor>q\<rfloor> \<le> round_half_even q" "round_half_even q \<le> \<lfloor>q\<rfloor> + 1"
  by (auto simp: round_half_even_def Let_def)

lemma round_half_even_of_int [simp]: "round_half_even (of_int n) = n"
  by (simp add: round_half_even_def)

lemma round_half_even_mono: "x \<le> y \<Longrightarrow> round_half_even x \<le> round_half_even y"
proof -
  assume le: "x \<le> y"
  show ?thesis
  proof (cases "\<lfloor>x\<rfloor> = \<lfloor>y\<rfloor>")
    case True
    with le show ?thesis
      by (auto simp: round_half_even_def Let_def)
  next
    case False
    with floor_mono [OF le] round_half_even_bounds(2) [of x] round_half_even_bounds(1) [of y] show ?thesis
      by linarith
  qed
qed

lemma two_powi_pos [simp]: "two_powi e > 0"
  by (simp add: two_powi_def)

lemma two_powi_power_int: "two_powi e = 2 powi e"
  by (simp only: two_powi_def power_int_def power_one_over inverse_eq_divide)

lemma two_powi_add: "two_powi (a + b) = two_powi a * two_powi b"
  unfolding two_powi_power_int by (rule power_int_add) simp

lemma two_powi_mono: "a \<le> b \<Longrightarrow> two_powi a \<le> two_powi b"
proof -
  assume "a \<le> b"
  then obtain n where b: "b = a + int n"
    by (metis zle_iff_zadd)
  have "two_powi (int n) \<ge> 1"
    by (simp add: two_powi_def)
  then show ?thesis
    using mult_left_mono [of 1 "two_powi (int n)" "two_powi a"] by (simp add: b two_powi_add less_imp_le)
qed

lemma floorlog_bounds_rat:
  assumes "n > 0"
  shows "two_powi (int (floorlog 2 n) - 1) \<le> of_nat n" "of_nat n < two_powi (int (floorlog 2 n))"
proof -
  have b: "2 ^ (floorlog 2 n - 1) \<le> n" "n < 2 ^ floorlog 2 n"
    using floorlog_bounds [of n 2] assms by auto
  have pos: "floorlog 2 n > 0"
    using assms by (simp add: floorlog_eq_zero_iff neq0_conv [symmetric] del: neq0_conv)
  then have "two_powi (int (floorlog 2 n) - 1) = 2 ^ (floorlog 2 n - 1)"
    by (simp add: two_powi_def nat_diff_distrib)
  also have "\<dots> = of_nat (2 ^ (floorlog 2 n - 1))"
    by simp
  finally show "two_powi (int (floorlog 2 n) - 1) \<le> of_nat n"
    using b(1) by (simp only: of_nat_le_iff)
  have "two_powi (int (floorlog 2 n)) = of_nat (2 ^ floorlog 2 n)"
    by (simp add: two_powi_def)
  then show "of_nat n < two_powi (int (floorlog 2 n))"
    using b(2) by (simp only: of_nat_less_iff)
qed

lemma binade_bounds:
  assumes "x > 0"
  shows "two_powi (binade x) \<le> x" "x < two_powi (binade x + 1)"
proof -
  obtain p q where pq: "quotient_of x = (p, q)"
    by (cases "quotient_of x")
  have q: "q > 0" and x: "x = of_int p / of_int q"
    using quotient_of_denom_pos [OF pq] quotient_of_div [OF pq] by auto
  have p: "p > 0"
    using assms q by (simp add: x zero_less_divide_iff)
  let ?a = "int (floorlog 2 (nat p))" and ?b = "int (floorlog 2 (nat q))"
  have xn: "x = of_nat (nat p) / of_nat (nat q)"
    using p q by (simp add: x)
  have P: "two_powi (?a - 1) \<le> of_nat (nat p)" "of_nat (nat p) < two_powi ?a"
    using floorlog_bounds_rat [of "nat p"] p by auto
  have Q: "two_powi (?b - 1) \<le> of_nat (nat q)" "of_nat (nat q) < two_powi ?b" "(of_nat (nat q) :: rat) > 0"
    using floorlog_bounds_rat [of "nat q"] q by auto
  have lower: "two_powi (?a - ?b - 1) \<le> x"
  proof -
    have "two_powi (?a - ?b - 1) * of_nat (nat q) \<le> two_powi (?a - ?b - 1) * two_powi ?b"
      using Q by (intro mult_left_mono) (auto simp: less_imp_le)
    also have "\<dots> = two_powi (?a - 1)"
      by (simp flip: two_powi_add)
    finally show ?thesis
      using P(1) Q(3) by (simp add: xn pos_le_divide_eq)
  qed
  have upper: "x < two_powi (?a - ?b + 1)"
  proof -
    have "of_nat (nat p) < two_powi (?a - ?b + 1) * two_powi (?b - 1)"
      using P(2) by (simp flip: two_powi_add)
    also have "\<dots> \<le> two_powi (?a - ?b + 1) * of_nat (nat q)"
      using Q by (intro mult_left_mono) (auto simp: less_imp_le)
    finally show ?thesis
      using Q(3) by (simp add: xn pos_divide_less_eq)
  qed
  show "two_powi (binade x) \<le> x" "x < two_powi (binade x + 1)"
    using lower upper by (auto simp: binade_def pq Let_def split: if_splits)
qed

section \<open>The laws of rounding\<close>

text \<open>What the development relies on: rounding is monotone, odd, and exact on small integers.\<close>

locale rounding =
  fixes rnd :: "rat \<Rightarrow> rat"
  assumes rnd_mono: "x \<le> y \<Longrightarrow> rnd x \<le> rnd y"
    and rnd_exact: "\<bar>n\<bar> \<le> 2 ^ 53 \<Longrightarrow> rnd (of_int n) = of_int n"
    and rnd_idem: "rnd (rnd x) = rnd x"
begin

text \<open>A double below a number is below its rounding, and the same above.\<close>

lemma rnd_ge_double: "rnd y \<le> x \<Longrightarrow> rnd y \<le> rnd x"
  using rnd_mono [of "rnd y" x] rnd_idem by simp

lemma rnd_le_double: "x \<le> rnd y \<Longrightarrow> rnd x \<le> rnd y"
  using rnd_mono [of x "rnd y"] rnd_idem by simp

lemma rnd_0: "rnd 0 = 0"
  using rnd_exact [of 0] by simp

lemma rnd_1: "rnd 1 = 1"
  using rnd_exact [of 1] by simp

lemma rnd_numeral: "numeral k \<le> (2 ^ 53 :: int) \<Longrightarrow> rnd (numeral k) = numeral k"
  using rnd_exact [of "numeral k"] by simp

lemma rnd_nonneg: "0 \<le> x \<Longrightarrow> 0 \<le> rnd x"
  using rnd_mono [of 0 x] rnd_0 by simp

lemma rnd_le_1: "x \<le> 1 \<Longrightarrow> rnd x \<le> 1"
  using rnd_mono [of x 1] rnd_1 by simp

lemma rnd_le_int: "\<bar>n\<bar> \<le> 2 ^ 53 \<Longrightarrow> x \<le> of_int n \<Longrightarrow> rnd x \<le> of_int n"
  using rnd_mono [of x "of_int n"] rnd_exact by simp

lemma rnd_ge_int: "\<bar>n\<bar> \<le> 2 ^ 53 \<Longrightarrow> of_int n \<le> x \<Longrightarrow> of_int n \<le> rnd x"
  using rnd_mono [of "of_int n" x] rnd_exact [of n] by simp

text \<open>A factor at most one does not raise a whole number, not even after rounding.\<close>

lemma rnd_scale_le: "0 \<le> n \<Longrightarrow> n \<le> 2 ^ 53 \<Longrightarrow> x \<le> 1 \<Longrightarrow> rnd (of_int n * x) \<le> of_int n"
  by (rule rnd_le_int) (auto intro: mult_left_le)

lemma rnd_scale_ge: "0 \<le> n \<Longrightarrow> n \<le> 2 ^ 53 \<Longrightarrow> 1 \<le> x \<Longrightarrow> of_int n \<le> rnd (of_int n * x)"
  by (rule rnd_ge_int) (use mult_left_mono [of 1 x "of_int n"] in auto)

end

lemma rnd64_0 [simp]: "rnd64 0 = 0"
  by (simp add: rnd64_def)

lemma rnd64_minus: "rnd64 (- x) = - rnd64 x"
  by (simp add: rnd64_def Let_def)

lemma rnd64_pos:
  "x > 0 \<Longrightarrow> rnd64 x = of_int (round_half_even (x / two_powi (binade x - 52))) * two_powi (binade x - 52)"
  by (simp add: rnd64_def Let_def)

lemma two_powi_nat: "two_powi (int n) = 2 ^ n"
  by (simp add: two_powi_def)

text \<open>A rounded number stays in the closed binade of the number rounded.\<close>

lemma rnd64_binade:
  assumes "x > 0"
  shows "two_powi (binade x) \<le> rnd64 x" "rnd64 x \<le> two_powi (binade x + 1)"
proof -
  let ?u = "two_powi (binade x - 52)"
  have lo: "two_powi (binade x) = of_int (2 ^ 52) * ?u" and hi: "two_powi (binade x + 1) = of_int (2 ^ 53) * ?u"
    using two_powi_add [of 52 "binade x - 52"] two_powi_add [of 53 "binade x - 52"]
      two_powi_nat [of 52] two_powi_nat [of 53] by (simp_all add: add.commute)
  have "of_int (2 ^ 52) \<le> x / ?u" "x / ?u \<le> of_int (2 ^ 53)"
    using binade_bounds [OF assms] unfolding lo hi by (simp_all add: pos_le_divide_eq pos_divide_le_eq)
  then have "2 ^ 52 \<le> round_half_even (x / ?u)" "round_half_even (x / ?u) \<le> 2 ^ 53"
    using round_half_even_mono [of "of_int (2 ^ 52)" "x / ?u"] round_half_even_mono [of "x / ?u" "of_int (2 ^ 53)"]
    by (simp_all only: round_half_even_of_int)
  then have "of_int (2 ^ 52) \<le> (of_int (round_half_even (x / ?u)) :: rat)"
    "of_int (round_half_even (x / ?u)) \<le> (of_int (2 ^ 53) :: rat)"
    by (simp_all only: of_int_le_iff)
  then show "two_powi (binade x) \<le> rnd64 x" "rnd64 x \<le> two_powi (binade x + 1)"
    unfolding rnd64_pos [OF assms] lo hi by (intro mult_right_mono; simp add: less_imp_le)+
qed

lemma rnd64_nonneg: "0 \<le> x \<Longrightarrow> 0 \<le> rnd64 x"
  using rnd64_binade(1) [of x] order.strict_trans2 [OF two_powi_pos, of "binade x" "rnd64 x"]
  by (cases "x = 0") auto

lemma rnd64_mono_pos:
  assumes "0 < x" "x \<le> y"
  shows "rnd64 x \<le> rnd64 y"
proof (cases "binade x = binade y")
  case True
  have "round_half_even (x / two_powi (binade y - 52)) \<le> round_half_even (y / two_powi (binade y - 52))"
    using assms by (intro round_half_even_mono divide_right_mono) (auto simp: less_imp_le)
  then show ?thesis
    using assms True by (simp add: rnd64_pos mult_right_mono less_imp_le)
next
  case False
  have "binade x \<le> binade y"
  proof (rule ccontr)
    assume "\<not> binade x \<le> binade y"
    then have "two_powi (binade y + 1) \<le> two_powi (binade x)"
      by (intro two_powi_mono) simp
    with binade_bounds [of x] binade_bounds [of y] assms show False
      by simp
  qed
  with False have "two_powi (binade x + 1) \<le> two_powi (binade y)"
    by (intro two_powi_mono) simp
  with rnd64_binade [of x] rnd64_binade [of y] assms show ?thesis
    by simp
qed

lemma rnd64_mono: "x \<le> y \<Longrightarrow> rnd64 x \<le> rnd64 y"
proof (cases "0 < x"; cases "y < 0")
  assume le: "x \<le> y" and "\<not> 0 < x" "y < 0"
  then have "rnd64 (- y) \<le> rnd64 (- x)"
    by (intro rnd64_mono_pos) auto
  then show ?thesis
    by (simp add: rnd64_minus)
next
  assume le: "x \<le> y" and "\<not> 0 < x" "\<not> y < 0"
  then show ?thesis
    using rnd64_nonneg [of "- x"] rnd64_nonneg [of y] by (simp add: rnd64_minus)
qed (auto intro: rnd64_mono_pos)

lemma rnd64_exact:
  assumes "\<bar>n\<bar> \<le> 2 ^ 53"
  shows "rnd64 (of_int n) = of_int n"
proof -
  have pos: "rnd64 (of_int n) = of_int n" if n: "0 < n" "n < 2 ^ 53" for n :: int
  proof -
    let ?x = "of_int n :: rat"
    have "binade ?x < 53"
    proof (rule ccontr)
      assume "\<not> binade ?x < 53"
      then have "two_powi (int 53) \<le> ?x"
        using binade_bounds(1) [of ?x] n two_powi_mono [of 53 "binade ?x"] by simp
      then have "of_int (2 ^ 53) \<le> ?x"
        unfolding two_powi_nat by simp
      with n(2) show False
        by (simp only: of_int_le_iff)
    qed
    then obtain k where k: "52 - binade ?x = int k"
      using zero_le_imp_eq_int [of "52 - binade ?x"] by auto
    then have "binade ?x - 52 = - int k"
      by simp
    then have u: "two_powi (binade ?x - 52) = 1 / 2 ^ k"
      by (simp add: two_powi_power_int power_int_minus_divide)
    then have "?x / two_powi (binade ?x - 52) = of_int (n * 2 ^ k)"
      by simp
    then have "rnd64 ?x = of_int (n * 2 ^ k) * (1 / 2 ^ k)"
      using n by (simp only: rnd64_pos of_int_0_less_iff round_half_even_of_int u)
    then show ?thesis
      by simp
  qed
  moreover have "rnd64 (of_int (2 ^ 53)) = of_int (2 ^ 53)"
  proof (rule antisym)
    let ?x = "of_int (2 ^ 53) :: rat"
    have x: "?x = two_powi 53"
      using two_powi_nat [of 53] by simp
    have pos: "0 < ?x"
      by simp
    have b: "binade ?x = 53"
    proof (rule antisym)
      show "binade ?x \<le> 53"
      proof (rule ccontr)
        assume "\<not> binade ?x \<le> 53"
        then have "two_powi 54 \<le> ?x"
          using binade_bounds(1) [OF pos] two_powi_mono [of 54 "binade ?x"] by simp
        then show False
          using two_powi_nat [of 54] by simp
      qed
      show "53 \<le> binade ?x"
      proof (rule ccontr)
        assume "\<not> 53 \<le> binade ?x"
        then have "?x < two_powi 53"
          using binade_bounds(2) [OF pos] two_powi_mono [of "binade ?x + 1" 53] by simp
        with x show False by simp
      qed
    qed
    have u: "two_powi (binade ?x - 52) = of_int 2"
      using two_powi_nat [of 1] unfolding b by simp
    have "?x / two_powi (binade ?x - 52) = of_int (2 ^ 52)"
      unfolding u by simp
    then have "rnd64 ?x = of_int (2 ^ 52) * of_int 2"
      unfolding rnd64_pos [OF pos] by (simp only: round_half_even_of_int u)
    then show "rnd64 ?x \<le> ?x" "?x \<le> rnd64 ?x"
      by simp_all
  qed
  ultimately have "rnd64 (of_int n) = of_int n" if "0 < n" "n \<le> 2 ^ 53" for n :: int
    using that by (cases "n = 2 ^ 53") auto
  from this [of n] this [of "- n"] assms show ?thesis
    using rnd64_minus [of "of_int n"] by (cases "n = 0"; cases "n > 0") auto
qed

lemma binade_unique:
  assumes "two_powi b \<le> x" "x < two_powi (b + 1)"
  shows "binade x = b"
proof -
  have x: "0 < x"
    using assms(1) two_powi_pos [of b] by (rule order.strict_trans2 [rotated])
  have "binade x \<le> b"
  proof (rule ccontr)
    assume "\<not> binade x \<le> b"
    then have "two_powi (b + 1) \<le> two_powi (binade x)"
      by (intro two_powi_mono) simp
    then show False
      using binade_bounds(1) [OF x] assms(2) by simp
  qed
  moreover have "b \<le> binade x"
  proof (rule ccontr)
    assume "\<not> b \<le> binade x"
    then have "two_powi (binade x + 1) \<le> two_powi b"
      by (intro two_powi_mono) simp
    then show False
      using binade_bounds(2) [OF x] assms(1) by simp
  qed
  ultimately show ?thesis
    by simp
qed

text \<open>A number at most \<open>1 / 2 ^ 54\<close> of its size above an integer rounds down to it: half a unit in the last place is more.\<close>

lemma rnd64_just_above:
  assumes n: "0 < n" "n \<le> 2 ^ 53" and x: "of_int n \<le> x" "x \<le> of_int n * (1 + 1 / 2 ^ 54)"
  shows "rnd64 x = of_int n"
proof -
  let ?y = "of_int n :: rat"
  define b where "b = binade ?y"
  define u where "u = two_powi (b - 52)"
  define m where "m = round_half_even (?y / u)"
  have pos: "0 < ?y" "0 < x" "0 < u"
    using n(1) x(1) by (simp_all add: u_def) 
  have y: "?y = of_int m * u"
    using rnd64_exact [of n] n rnd64_pos [OF pos(1)] by (simp add: m_def u_def b_def)
  have hi: "two_powi (b + 1) = 2 ^ 53 * u"
    using two_powi_add [of 53 "b - 52"] two_powi_nat [of 53] by (simp add: u_def add.commute)
  have "of_int m * u < of_int (2 ^ 53) * u"
    unfolding y [symmetric] using binade_bounds(2) [OF pos(1), folded b_def] by (simp add: hi)
  then have "(of_int m :: rat) < of_int (2 ^ 53)"
    using pos(3) by (simp only: mult_less_cancel_right_pos)
  then have m: "m < 2 ^ 53"
    by (simp only: of_int_less_iff)
  have q: "of_int m \<le> x / u" "x / u \<le> of_int m * (1 + 1 / 2 ^ 54)"
    using x pos(3) by (simp_all add: y pos_le_divide_eq pos_divide_le_eq mult_ac)
  have "(of_int m :: rat) \<le> of_int (2 ^ 53 - 1)"
    using m by (simp only: of_int_le_iff)
  then have frac: "(of_int m :: rat) * (1 + 1 / 2 ^ 54) < of_int m + 1 / 2"
    "(of_int m :: rat) * (1 + 1 / 2 ^ 54) < 2 ^ 53"
    by (simp_all add: field_simps)
  have "\<lfloor>x / u\<rfloor> = m"
    using q(1) order.strict_trans1 [OF q(2) frac(1)] by (intro floor_unique) auto
  moreover have "x / u - of_int m < 1 / 2"
    using order.strict_trans1 [OF q(2) frac(1)] by linarith
  ultimately have r: "round_half_even (x / u) = m"
    unfolding round_half_even_def Let_def by (simp only: if_True)
  have "x < two_powi (b + 1)"
    using order.strict_trans1 [OF q(2) frac(2)] pos(3) by (simp add: hi pos_divide_less_eq)
  then have "binade x = b"
    using binade_bounds(1) [OF pos(1)] x(1) by (intro binade_unique) (simp_all add: b_def)
  then show ?thesis
    using rnd64_pos [OF pos(2)] r y by (simp add: u_def)
qed

lemma rnd64_on_grid: "0 < y \<Longrightarrow> y / two_powi (binade y - 52) = of_int m \<Longrightarrow> rnd64 y = y"
proof -
  assume y: "0 < y" and m: "y / two_powi (binade y - 52) = of_int m"
  have "rnd64 y = of_int m * two_powi (binade y - 52)"
    unfolding rnd64_pos [OF y] m by simp
  also have "\<dots> = y"
    using two_powi_pos [of "binade y - 52"] unfolding m [symmetric] by (simp add: less_imp_neq [symmetric])
  finally show ?thesis .
qed

text \<open>Rounding a double changes nothing.\<close>

lemma rnd64_idem: "rnd64 (rnd64 x) = rnd64 x"
proof -
  have pos: "rnd64 (rnd64 x) = rnd64 x" if "0 < x" for x
  proof -
    let ?u = "two_powi (binade x - 52)" and ?m = "round_half_even (x / two_powi (binade x - 52))"
    have y: "rnd64 x = of_int ?m * ?u" "0 < rnd64 x"
      using rnd64_pos [OF that] rnd64_binade(1) [OF that] order.strict_trans2 [OF two_powi_pos, of "binade x" "rnd64 x"] by simp_all
    show ?thesis
    proof (cases "rnd64 x < two_powi (binade x + 1)")
      case True
      then have b: "binade (rnd64 x) = binade x"
        by (intro binade_unique rnd64_binade(1) that)
      have "rnd64 x / ?u = of_int ?m"
        using two_powi_pos [of "binade x - 52"] unfolding y(1) by (simp add: less_imp_neq [symmetric])
      then have "rnd64 x / two_powi (binade (rnd64 x) - 52) = of_int ?m"
        unfolding b .
      then show ?thesis
        by (rule rnd64_on_grid [OF y(2)])
    next
      case False
      then have eq: "rnd64 x = two_powi (binade x + 1)"
        using rnd64_binade(2) [OF that] by simp
      have b: "binade (rnd64 x) = binade x + 1"
        unfolding eq by (rule binade_unique) (auto simp: two_powi_power_int power_int_add)
      have "rnd64 x / two_powi (binade (rnd64 x) - 52) = of_int (2 ^ 52)"
      proof -
        have "two_powi (binade x + 1) = two_powi (binade x + 1 - 52) * two_powi 52"
          by (simp add: add.commute flip: two_powi_add)
        then show ?thesis
          unfolding b unfolding eq using two_powi_nat [of 52] two_powi_pos [of "binade x + 1 - 52"]
          by (simp add: less_imp_neq [symmetric])
      qed
      then show ?thesis
        by (rule rnd64_on_grid [OF y(2)])
    qed
  qed
  consider "x = 0" | "0 < x" | "0 < - x"
    by linarith
  then show ?thesis
  proof cases
    case 3
    then show ?thesis
      using pos [OF 3] by (simp add: rnd64_minus)
  qed (simp_all add: pos)
qed

interpretation r64: rounding rnd64
  by unfold_locales (simp_all add: rnd64_mono rnd64_exact rnd64_idem)

section \<open>Operations\<close>

text \<open>The operators of the code on \<open>double\<close>, the conversion from integers, and
  \<open>static_cast\<close> back to an integer, which truncates (here only applied to non-negative values).\<close>

definition fadd :: "double \<Rightarrow> double \<Rightarrow> double" where "fadd x y = rnd64 (x + y)"
definition fsub :: "double \<Rightarrow> double \<Rightarrow> double" where "fsub x y = rnd64 (x - y)"
definition fmul :: "double \<Rightarrow> double \<Rightarrow> double" where "fmul x y = rnd64 (x * y)"
definition fdiv :: "double \<Rightarrow> double \<Rightarrow> double" where "fdiv x y = rnd64 (x / y)"
definition fof :: "int \<Rightarrow> double" where "fof n = rnd64 (of_int n)"
definition ftrunc :: "double \<Rightarrow> int" where "ftrunc x = (if x \<ge> 0 then \<lfloor>x\<rfloor> else \<lceil>x\<rceil>)"

lemma ftrunc_nonneg: "0 \<le> x \<Longrightarrow> 0 \<le> ftrunc x"
  by (simp add: ftrunc_def)

lemma ftrunc_mono: "x \<le> y \<Longrightarrow> ftrunc x \<le> ftrunc y"
  by (auto simp: ftrunc_def floor_mono ceiling_mono intro: order_trans [of _ 0])

lemma ftrunc_of_int [simp]: "ftrunc (of_int n) = n"
  by (simp add: ftrunc_def)

lemma ftrunc_le: "x \<le> of_int n \<Longrightarrow> ftrunc x \<le> n"
  using ftrunc_mono [of x "of_int n"] by simp

lemma ftrunc_ge: "of_int n \<le> x \<Longrightarrow> n \<le> ftrunc x"
  using ftrunc_mono [of "of_int n" x] by simp

lemma fof_exact: "\<bar>n\<bar> \<le> 2 ^ 53 \<Longrightarrow> fof n = of_int n"
  by (simp add: fof_def rnd64_exact)

lemma fof_nonneg: "0 \<le> n \<Longrightarrow> 0 \<le> fof n"
  by (simp add: fof_def rnd64_nonneg)

lemma fmul_nonneg: "0 \<le> x \<Longrightarrow> 0 \<le> y \<Longrightarrow> 0 \<le> fmul x y"
  by (simp add: fmul_def rnd64_nonneg)

lemma fdiv_nonneg: "0 \<le> x \<Longrightarrow> 0 \<le> y \<Longrightarrow> 0 \<le> fdiv x y"
  by (simp add: fdiv_def rnd64_nonneg)

lemma fadd_nonneg: "0 \<le> x \<Longrightarrow> 0 \<le> y \<Longrightarrow> 0 \<le> fadd x y"
  by (simp add: fadd_def rnd64_nonneg)

end
