(* ===== verification/Peer.thy ===== *)
theory Peer
  imports Wire Ordered_Map Binary64
begin

text \<open>
  The state kept per remote peer, \<open>peer.hpp\<close>. The fields of \<open>Peer\<close> are grouped in
  a chain of record extensions, in the code's order within each group: link, sending,
  receiving, statistics, commands and probes. Points in time are nanoseconds of the
  monotonic clock (0 for a default-constructed \<open>time_point\<close>); \<open>std::string\<close> is a list of
  bytes; \<open>sockaddr_in\<close> is the address and port the code reads of it.
\<close>

type_synonym time = int

definition ms :: "int \<Rightarrow> time" where "ms n = n * 1000000"
definition us :: "int \<Rightarrow> time" where "us n = n * 1000"

text \<open>\<open>duration_cast<microseconds>\<close> truncates towards zero.\<close>

definition to_us :: "time \<Rightarrow> int" where
  "to_us t = (if t \<ge> 0 then t div 1000 else - ((- t) div 1000))"

datatype link_role = Leaf | Node

text \<open>\<open>LinkState\<close>; the last two constructors share their names with packet types.\<close>

datatype link_state = St_Closed | St_Handshake | St_Established | St_Online

record addr_key =
  ak_addr :: u32
  ak_port :: u16

record pending_send =
  ps_header :: packet_header
  ps_payload :: bytes
  ps_last_send :: time
  ps_bytes :: nat
  ps_retries :: u32

record incoming_message =
  im_message_id :: u32
  im_total_count :: u16
  im_data_count :: u16
  im_channel :: u8
  im_fragments :: "bytes option list"
  im_sizes :: "u16 list"
  im_first_seen :: time
  im_first_tick_ms :: u32

record file_recv =
  fr_name :: bytes
  fr_total :: u64
  fr_chunk_size :: u32
  fr_chunk_count :: u32
  fr_chunks :: "bytes option list"
  fr_received :: u32

record peer_link =
  m_id :: bytes
  m_addr :: addr_key
  m_addr_set :: bool
  m_role :: link_role
  m_state :: link_state
  m_peer_client_id :: u32
  m_peer_session_id :: u64
  m_last_recv :: time
  m_last_heartbeat_sent :: time
  m_last_handshake_sent :: time
  m_handshake_backoff :: time
  m_last_report_sent :: time
  m_last_online_sent :: time
  m_reconnect :: bool

record peer_out = peer_link +
  m_sequence_out :: u32
  m_control_seq_out :: u32
  m_msg_id_out :: u32
  m_pending :: "(u32, pending_send) omap"
  m_fec_stage :: u8
  m_fec_disable :: bool
  m_fec_data_pkts :: u64
  m_fec_parity_pkts :: u64
  m_fec_stat_ts :: u64
  m_peer_late_ratio :: double
  m_have_late_report :: bool
  m_last_report_at :: time
  m_peer_p50_ms :: u16
  m_retransmit :: bool
  m_peer_retransmit :: bool

record peer_in = peer_out +
  m_incoming :: "(u32, incoming_message) omap"
  m_files :: "(u32, file_recv) omap"
  m_completed :: "(u32, time) omap"
  m_missing_seqs :: "(u32, time) omap"
  m_missing_channel :: "(u32, u8) omap"
  m_channel_reliable :: "bool list"
  m_recv_seqs :: "u32 set"
  m_next_expected_seq :: u32
  m_seq_initialized :: bool
  m_drop_log :: bool
  m_oversize_log_ts :: time

record peer_stats = peer_in +
  m_sender_rtt_us :: u32
  m_clock_offset_us :: int
  m_clock_synced :: bool
  m_clock_pending :: bool
  m_hs_tick :: u32
  m_hs_arrival_ms :: u64
  m_transit_samples :: u64
  m_late_samples :: u64
  m_latency_hist :: "u32 list"
  m_hist_samples :: u64
  m_late_line_us :: u64
  m_frame_latency_hist :: "u32 list"
  m_frame_hist_samples :: u64
  m_frame_max_bytes :: u32
  m_frame_pairs :: "(u16 \<times> u16) list"
  m_recv_bytes :: u64
  m_ce_marks :: u64
  m_data_pkts :: u64

record peer = peer_stats +
  m_probe_first :: time
  m_probe_last :: time
  m_probe_bytes :: u64
  m_probe_count :: u32
  m_probe_bw_bps :: u64
  m_cmd_seq_out :: u32
  m_cmd_next_expected :: u32
  m_cmd_initialized :: bool
  m_cmd_held :: "(u32, bytes) omap"
  m_cmd_gap_since :: time
  m_crypto_ready :: bool
  m_crypto_key :: bytes

text \<open>\<open>Peer{}\<close>: the default member initializers.\<close>

definition new_peer :: peer where
  "new_peer = \<lparr>
     m_id = [], m_addr = \<lparr> ak_addr = 0, ak_port = 0 \<rparr>, m_addr_set = False, m_role = Leaf,
     m_state = St_Closed, m_peer_client_id = 0, m_peer_session_id = 0, m_last_recv = 0,
     m_last_heartbeat_sent = 0, m_last_handshake_sent = 0, m_handshake_backoff = ms 500,
     m_last_report_sent = 0, m_last_online_sent = 0, m_reconnect = False,
     m_sequence_out = 1, m_control_seq_out = 1, m_msg_id_out = 1, m_pending = [],
     m_fec_stage = 0, m_fec_disable = False, m_fec_data_pkts = 0, m_fec_parity_pkts = 0,
     m_fec_stat_ts = 0, m_peer_late_ratio = 0, m_have_late_report = False, m_last_report_at = 0,
     m_peer_p50_ms = 0, m_retransmit = True, m_peer_retransmit = True,
     m_incoming = [], m_files = [], m_completed = [], m_missing_seqs = [], m_missing_channel = [],
     m_channel_reliable = replicate 8 False, m_recv_seqs = {}, m_next_expected_seq = 0,
     m_seq_initialized = False, m_drop_log = True, m_oversize_log_ts = 0,
     m_sender_rtt_us = 0, m_clock_offset_us = 0, m_clock_synced = False, m_clock_pending = False,
     m_hs_tick = 0, m_hs_arrival_ms = 0, m_transit_samples = 0, m_late_samples = 0,
     m_latency_hist = replicate 256 0, m_hist_samples = 0, m_late_line_us = 0,
     m_frame_latency_hist = replicate 64 0, m_frame_hist_samples = 0, m_frame_max_bytes = 0,
     m_frame_pairs = [], m_recv_bytes = 0, m_ce_marks = 0, m_data_pkts = 0,
     m_probe_first = 0, m_probe_last = 0, m_probe_bytes = 0, m_probe_count = 0, m_probe_bw_bps = 0,
     m_cmd_seq_out = 1, m_cmd_next_expected = 0, m_cmd_initialized = False, m_cmd_held = [],
     m_cmd_gap_since = 0, m_crypto_ready = False, m_crypto_key = replicate 32 0 \<rparr>"

section \<open>Probe trains\<close>

definition kProbeTrainGap :: time where "kProbeTrainGap = ms 20"

definition finalize_probe_train :: "peer \<Rightarrow> time \<Rightarrow> peer" where
  "finalize_probe_train p now =
    (if m_probe_count p = 0 then p
     else if now - m_probe_last p \<le> kProbeTrainGap then p
     else
       let span_us = to_us (m_probe_last p - m_probe_first p);
           p = (if m_probe_count p \<ge> 2 \<and> span_us > 0
                then p\<lparr> m_probe_bw_bps := word_of_int (ftrunc
                  (fdiv (fmul (fof (uint (m_probe_bytes p))) 1000000) (fof span_us))) \<rparr>
                else p)
       in p\<lparr> m_probe_count := 0, m_probe_bytes := 0 \<rparr>)"

section \<open>Transit time\<close>

text \<open>The difference of the ticks wraps in 32 bits and is read as signed.\<close>

definition transit_time_us :: "peer \<Rightarrow> u32 \<Rightarrow> u64 \<Rightarrow> int" where
  "transit_time_us p tick arrival_ms =
    (if \<not> m_clock_synced p \<or> tick = 0 then -1
     else
       let arrival_low = (ucast (arrival_ms AND 0xFFFFFFFF) :: u32);
           t = sint (arrival_low - tick) * 1000 + m_clock_offset_us p
       in if t \<ge> 0 then t else 0)"

definition addr_key_less :: "addr_key \<Rightarrow> addr_key \<Rightarrow> bool" where
  "addr_key_less a b = (if ak_addr a \<noteq> ak_addr b then ak_addr a < ak_addr b else ak_port a < ak_port b)"

end
