(* ===== verification/Command_Channel.thy ===== *)
theory Command_Channel
  imports Peer
begin

text \<open>
  The ordered command channel, \<open>command.cpp\<close>. Commands arrive with their own sequence
  numbers; one that arrives early is held until the gap before it is filled or three round
  trips have passed, then the gap is skipped. The mutex makes each call atomic; the
  payloads a call returns are its second component.
\<close>

definition kMaxWaitRtt :: int where "kMaxWaitRtt = 3"

lemma length_om_del_less: "map_of m k = Some v \<Longrightarrow> length (om_del k m) < length m"
  unfolding om_del_def by (auto intro!: length_filter_less dest: map_of_SomeD)

function drain_locked :: "peer \<Rightarrow> bytes list \<Rightarrow> peer \<times> bytes list" where
  "drain_locked p out =
    (case map_of (m_cmd_held p) (m_cmd_next_expected p) of
       None \<Rightarrow> (p, out)
     | Some payload \<Rightarrow>
         drain_locked (p\<lparr> m_cmd_held := om_del (m_cmd_next_expected p) (m_cmd_held p),
             m_cmd_next_expected := m_cmd_next_expected p + 1 \<rparr>) (out @ [payload]))"
  by auto
termination
  by (relation "measure (\<lambda>(p, out). length (m_cmd_held p))") (auto simp: length_om_del_less)

declare drain_locked.simps [simp del]

definition expire_locked :: "peer \<Rightarrow> u32 \<Rightarrow> time \<Rightarrow> bytes list \<Rightarrow> peer \<times> bytes list" where
  "expire_locked p rtt_us now out =
    (if m_cmd_held p = [] then (p, out)
     else
       let wait_us = kMaxWaitRtt * (if rtt_us > 0 then uint rtt_us else 10000)
       in if now - m_cmd_gap_since p < us wait_us then (p, out)
          else
            let p = p\<lparr> m_cmd_next_expected := fst (hd (m_cmd_held p)) \<rparr>;
                (p, out) = drain_locked p out
            in (if m_cmd_held p \<noteq> [] then p\<lparr> m_cmd_gap_since := now \<rparr> else p, out))"

text \<open>\<open>std::map::emplace\<close> keeps an entry that is already there.\<close>

definition om_emplace :: "'k::linorder \<Rightarrow> 'v \<Rightarrow> ('k, 'v) omap \<Rightarrow> ('k, 'v) omap" where
  "om_emplace k v m = (if map_of m k = None then om_put k v m else m)"

definition cmd_handle :: "peer \<Rightarrow> packet_header \<Rightarrow> bytes \<Rightarrow> u32 \<Rightarrow> time \<Rightarrow> peer \<times> bytes list" where
  "cmd_handle p header payload rtt_us now =
    (let out = []; seq = h_sequence header
     in if seq = 0 then (p, out)
        else
          let p = (if \<not> m_cmd_initialized p
                   then p\<lparr> m_cmd_next_expected := seq, m_cmd_initialized := True \<rparr> else p)
          in if seq < m_cmd_next_expected p then (p, out)
             else if seq = m_cmd_next_expected p then
               drain_locked (p\<lparr> m_cmd_next_expected := m_cmd_next_expected p + 1 \<rparr>) (out @ [payload])
             else
               let p = (if m_cmd_held p = [] then p\<lparr> m_cmd_gap_since := now \<rparr> else p);
                   p = p\<lparr> m_cmd_held := om_emplace seq payload (m_cmd_held p) \<rparr>
               in expire_locked p rtt_us now out)"

definition cmd_flush_expired :: "peer \<Rightarrow> u32 \<Rightarrow> time \<Rightarrow> peer \<times> bytes list" where
  "cmd_flush_expired p rtt_us now = expire_locked p rtt_us now []"

definition cmd_reset :: "peer \<Rightarrow> peer" where
  "cmd_reset p = p\<lparr> m_cmd_seq_out := 1, m_cmd_next_expected := 0, m_cmd_initialized := False,
     m_cmd_held := [], m_cmd_gap_since := 0 \<rparr>"

section \<open>Invariant\<close>

text \<open>Held commands lie strictly above the cursor.\<close>

definition cmd_ok :: "peer \<Rightarrow> bool" where
  "cmd_ok p \<longleftrightarrow> om_ok (m_cmd_held p) \<and> (\<forall>k\<in>fst ` set (m_cmd_held p). m_cmd_next_expected p < k) \<and>
    (m_cmd_initialized p \<or> m_cmd_held p = [] \<and> m_cmd_next_expected p = 0)"

text \<open>\<open>delivers P p out p'\<close>: the call delivered \<open>out\<close>, whose sequence numbers rise strictly from
  the old cursor up to below the new one, each payload being the one recorded in \<open>P\<close>.\<close>

definition delivers :: "(u32 \<times> bytes) set \<Rightarrow> peer \<Rightarrow> bytes list \<Rightarrow> peer \<Rightarrow> bool" where
  "delivers P p out p' \<longleftrightarrow> m_cmd_next_expected p \<le> m_cmd_next_expected p' \<and>
    (\<exists>seqs. length seqs = length out \<and> sorted_wrt (<) seqs \<and> set (zip seqs out) \<subseteq> P \<and>
      (\<forall>s\<in>set seqs. m_cmd_next_expected p \<le> s \<and> s < m_cmd_next_expected p'))"

lemma delivers_Nil: "m_cmd_next_expected p \<le> m_cmd_next_expected p' \<Longrightarrow> delivers P p [] p'"
  by (simp add: delivers_def)

lemma delivers_append:
  assumes "delivers P p xs q" "delivers Q q ys r"
  shows "delivers (P \<union> Q) p (xs @ ys) r"
proof -
  from assms obtain s t where
    "length s = length xs" "sorted_wrt (<) s" "set (zip s xs) \<subseteq> P"
    "\<forall>x\<in>set s. m_cmd_next_expected p \<le> x \<and> x < m_cmd_next_expected q"
    "length t = length ys" "sorted_wrt (<) t" "set (zip t ys) \<subseteq> Q"
    "\<forall>x\<in>set t. m_cmd_next_expected q \<le> x \<and> x < m_cmd_next_expected r"
    "m_cmd_next_expected p \<le> m_cmd_next_expected q" "m_cmd_next_expected q \<le> m_cmd_next_expected r"
    unfolding delivers_def by auto
  then have "length (s @ t) = length (xs @ ys) \<and> sorted_wrt (<) (s @ t) \<and>
      set (zip (s @ t) (xs @ ys)) \<subseteq> P \<union> Q \<and>
      (\<forall>x\<in>set (s @ t). m_cmd_next_expected p \<le> x \<and> x < m_cmd_next_expected r)"
    by (auto simp: sorted_wrt_append intro: order.strict_trans2 order_trans)
  moreover have "m_cmd_next_expected p \<le> m_cmd_next_expected r"
    using \<open>m_cmd_next_expected p \<le> m_cmd_next_expected q\<close> by (rule order_trans) fact
  ultimately show ?thesis
    unfolding delivers_def by blast
qed

lemma delivers_mono: "delivers P p xs q \<Longrightarrow> P \<subseteq> Q \<Longrightarrow> delivers Q p xs q"
  unfolding delivers_def by blast

lemma delivers_cursor:
  "m_cmd_next_expected p \<le> m_cmd_next_expected p1 \<Longrightarrow> delivers P p1 xs q \<Longrightarrow> delivers P p xs q"
  unfolding delivers_def by (meson order_trans)

section \<open>The drain loop\<close>

text \<open>No sequence number is the largest one, so the cursor does not wrap.\<close>

definition no_max :: "(u32 \<times> bytes) set \<Rightarrow> bool" where
  "no_max P \<longleftrightarrow> (\<forall>e\<in>P. fst e \<noteq> - 1)"

lemma less_succ: "n \<noteq> - 1 \<Longrightarrow> n < n + 1" for n :: u32
  by (metis inc_less_eq_self_iff_eq not_less)

lemma succ_le: "n < k \<Longrightarrow> n + 1 \<le> k" for n k :: u32
  by (rule inc_le)

text \<open>From a cursor below every held command, the loop delivers a run of held commands.\<close>

definition held_above :: "peer \<Rightarrow> bool" where
  "held_above p \<longleftrightarrow> om_ok (m_cmd_held p) \<and> (\<forall>k\<in>fst ` set (m_cmd_held p). m_cmd_next_expected p \<le> k)"

lemma held_del_above:
  assumes "held_above p" "set (m_cmd_held p) \<subseteq> P" "no_max P"
    and found: "map_of (m_cmd_held p) (m_cmd_next_expected p) = Some pl"
  shows "m_cmd_next_expected p < m_cmd_next_expected p + 1"
    and "held_above (p\<lparr> m_cmd_held := om_del (m_cmd_next_expected p) (m_cmd_held p),
      m_cmd_next_expected := m_cmd_next_expected p + 1 \<rparr>)"
proof -
  have mem: "(m_cmd_next_expected p, pl) \<in> P"
    using map_of_SomeD [OF found] assms(2) by blast
  then show less: "m_cmd_next_expected p < m_cmd_next_expected p + 1"
    using assms(3) by (intro less_succ) (auto simp: no_max_def)
  show "held_above (p\<lparr> m_cmd_held := om_del (m_cmd_next_expected p) (m_cmd_held p),
      m_cmd_next_expected := m_cmd_next_expected p + 1 \<rparr>)"
    using assms(1) unfolding held_above_def
    by (auto simp: set_om_del intro!: succ_le order.not_eq_order_implies_strict)
qed

lemma drain_locked_spec:
  assumes "held_above p" "set (m_cmd_held p) \<subseteq> P" "no_max P" "drain_locked p out = (p', out')"
  shows "\<exists>xs. out' = out @ xs \<and> delivers P p xs p' \<and> set (m_cmd_held p') \<subseteq> set (m_cmd_held p) \<and>
    om_ok (m_cmd_held p') \<and> (\<forall>k\<in>fst ` set (m_cmd_held p'). m_cmd_next_expected p' < k) \<and>
    m_cmd_initialized p' = m_cmd_initialized p"
  using assms
proof (induction p out arbitrary: p' out' rule: drain_locked.induct)
  case (1 p out)
  let ?n = "m_cmd_next_expected p"
  show ?case
  proof (cases "map_of (m_cmd_held p) ?n")
    case None
    then have "drain_locked p out = (p, out)"
      by (subst drain_locked.simps) simp
    moreover have "?n \<notin> fst ` set (m_cmd_held p)"
      using None by (simp add: map_of_eq_None_iff)
    ultimately show ?thesis
      using 1 by (auto simp: held_above_def delivers_Nil order.strict_iff_order intro!: exI [of _ "[]"])
  next
    case (Some pl)
    let ?p = "p\<lparr> m_cmd_held := om_del ?n (m_cmd_held p), m_cmd_next_expected := ?n + 1 \<rparr>"
    have run: "drain_locked ?p (out @ [pl]) = (p', out')"
      using 1(5) Some by (subst (asm) drain_locked.simps) simp
    note step = held_del_above [OF 1(2-4) Some]
    have "set (m_cmd_held ?p) \<subseteq> P"
      using 1(3) by (auto simp: set_om_del)
    from 1(1) [OF Some step(2) this 1(4) run] obtain xs where xs: "out' = (out @ [pl]) @ xs"
      "delivers P ?p xs p'" "set (m_cmd_held p') \<subseteq> set (m_cmd_held ?p)" "om_ok (m_cmd_held p')"
      "\<forall>k\<in>fst ` set (m_cmd_held p'). m_cmd_next_expected p' < k"
      "m_cmd_initialized p' = m_cmd_initialized ?p"
      by blast
    have "delivers P p [pl] ?p"
      unfolding delivers_def using step(1) map_of_SomeD [OF Some] 1(3)
      by (auto intro!: exI [of _ "[?n]"])
    from delivers_append [OF this xs(2)] have "delivers P p (pl # xs) p'"
      by simp
    with xs show ?thesis
      by (auto simp: set_om_del intro!: exI [of _ "pl # xs"])
  qed
qed

text \<open>One call: what it delivers, and that the invariant is kept.\<close>

definition cmd_step_ok :: "(u32 \<times> bytes) set \<Rightarrow> peer \<Rightarrow> bytes list \<Rightarrow> peer \<Rightarrow> bool" where
  "cmd_step_ok P p xs p' \<longleftrightarrow> delivers P p xs p' \<and> cmd_ok p' \<and> set (m_cmd_held p') \<subseteq> P"

lemma om_ok_hd_least: "om_ok m \<Longrightarrow> m \<noteq> [] \<Longrightarrow> k \<in> fst ` set m \<Longrightarrow> fst (hd m) \<le> k"
  by (cases m) (auto simp: om_ok_def less_imp_le)

lemma drained_ok:
  assumes "held_above p" "set (m_cmd_held p) \<subseteq> P" "no_max P" "m_cmd_initialized p"
    and "drain_locked p out = (p', out')"
  shows "\<exists>xs. out' = out @ xs \<and> cmd_step_ok P p xs p'"
  using drain_locked_spec [OF assms(1-3,5)] assms(2,4) by (auto simp: cmd_step_ok_def cmd_ok_def)

lemma expire_locked_spec:
  assumes "cmd_ok p" "set (m_cmd_held p) \<subseteq> P" "no_max P" "expire_locked p rtt now out = (p', out')"
  shows "\<exists>xs. out' = out @ xs \<and> cmd_step_ok P p xs p'"
proof (cases "out' = out \<and> p' = p")
  case True
  with assms show ?thesis
    by (auto simp: cmd_step_ok_def delivers_Nil)
next
  case False
  let ?h = "fst (hd (m_cmd_held p))" and ?p = "p\<lparr> m_cmd_next_expected := fst (hd (m_cmd_held p)) \<rparr>"
  have held: "m_cmd_held p \<noteq> []"
    using False assms(4) by (auto simp: expire_locked_def)
  obtain q out1 where q: "drain_locked ?p out = (q, out1)"
    by (cases "drain_locked ?p out")
  have out: "out' = out1" "p' = q \<or> p' = q\<lparr> m_cmd_gap_since := now \<rparr>"
    using False assms(4) held by (auto simp: expire_locked_def Let_def q split: if_splits)
  have above: "held_above ?p" "m_cmd_next_expected p \<le> ?h"
    using assms(1) held om_ok_hd_least by (auto simp: cmd_ok_def held_above_def less_imp_le)
  obtain xs where "out1 = out @ xs" "cmd_step_ok P ?p xs q"
    using drained_ok [OF above(1) _ assms(3) _ q] assms(1,2) held by (auto simp: cmd_ok_def)
  moreover from this(2) have "cmd_step_ok P p xs q"
    using above(2) delivers_cursor [of p ?p P xs q] by (simp add: cmd_step_ok_def)
  moreover have "cmd_step_ok P p xs (q\<lparr> m_cmd_gap_since := now \<rparr>) = cmd_step_ok P p xs q"
    by (simp add: cmd_step_ok_def cmd_ok_def delivers_def)
  ultimately show ?thesis
    using out by blast
qed

lemma set_om_emplace: "set (om_emplace k v m) \<subseteq> insert (k, v) (set m)"
  using set_om_put_subset [of k v m] by (auto simp: om_emplace_def)

lemma om_ok_emplace [simp]: "om_ok m \<Longrightarrow> om_ok (om_emplace k v m)"
  by (simp add: om_emplace_def)

text \<open>The first command fixes the cursor; the cursor of an uninitialized channel counts as that one.\<close>

definition cmd_start :: "peer \<Rightarrow> u32 \<Rightarrow> peer" where
  "cmd_start p seq = (if \<not> m_cmd_initialized p
     then p\<lparr> m_cmd_next_expected := seq, m_cmd_initialized := True \<rparr> else p)"

lemma cmd_handle_spec:
  assumes "cmd_ok p" "set (m_cmd_held p) \<subseteq> P" "no_max P" "(h_sequence header, payload) \<in> P"
    and "cmd_handle p header payload rtt now = (p', xs)" "h_sequence header \<noteq> 0"
  shows "cmd_step_ok P (cmd_start p (h_sequence header)) xs p'"
proof -
  let ?seq = "h_sequence header" and ?p = "cmd_start p (h_sequence header)"
  have ok: "cmd_ok ?p" "set (m_cmd_held ?p) \<subseteq> P" "m_cmd_initialized ?p"
    using assms(1,2) by (auto simp: cmd_start_def cmd_ok_def)
  have seq: "?seq \<noteq> - 1"
    using assms(3,4) by (force simp: no_max_def)
  have run: "(p', xs) = (if ?seq < m_cmd_next_expected ?p then (?p, [])
      else if ?seq = m_cmd_next_expected ?p then
        drain_locked (?p\<lparr> m_cmd_next_expected := m_cmd_next_expected ?p + 1 \<rparr>) [payload]
      else let q = (if m_cmd_held ?p = [] then ?p\<lparr> m_cmd_gap_since := now \<rparr> else ?p)
        in expire_locked (q\<lparr> m_cmd_held := om_emplace ?seq payload (m_cmd_held q) \<rparr>) rtt now [])"
    unfolding assms(5) [symmetric] cmd_handle_def cmd_start_def Let_def append_Nil
    using assms(6) by (simp only: if_False)
  consider "?seq < m_cmd_next_expected ?p" | "?seq = m_cmd_next_expected ?p" | "m_cmd_next_expected ?p < ?seq"
    by fastforce
  then show ?thesis
  proof cases
    case 1
    with run ok show ?thesis
      by (simp add: cmd_step_ok_def delivers_Nil)
  next
    case 2
    let ?q = "?p\<lparr> m_cmd_next_expected := m_cmd_next_expected ?p + 1 \<rparr>"
    have d: "drain_locked ?q [payload] = (p', xs)"
      using run 2 by simp
    have "held_above ?q"
      using ok by (auto simp: cmd_ok_def held_above_def succ_le)
    then obtain ys where ys: "xs = [payload] @ ys" "cmd_step_ok P ?q ys p'"
      using drained_ok [OF _ _ assms(3) _ d] ok by auto
    have "m_cmd_next_expected ?p < m_cmd_next_expected ?p + 1"
      using seq 2 by (intro less_succ) simp
    then have "delivers P ?p [payload] ?q"
      using assms(4) 2 unfolding delivers_def by (auto intro!: exI [of _ "[?seq]"])
    from delivers_append [OF this, of P ys p'] ys show ?thesis
      by (simp add: cmd_step_ok_def)
  next
    case 3
    define q where "q = (if m_cmd_held ?p = [] then ?p\<lparr> m_cmd_gap_since := now \<rparr> else ?p)"
    let ?r = "q\<lparr> m_cmd_held := om_emplace ?seq payload (m_cmd_held q) \<rparr>"
    have r: "m_cmd_next_expected ?r = m_cmd_next_expected ?p" "m_cmd_initialized ?r"
      "m_cmd_held q = m_cmd_held ?p"
      using ok by (simp_all add: q_def)
    have "set (m_cmd_held ?r) \<subseteq> insert (?seq, payload) (set (m_cmd_held ?p))"
      using set_om_emplace [of ?seq payload "m_cmd_held q"] r(3) by simp
    then have "cmd_ok ?r" "set (m_cmd_held ?r) \<subseteq> P"
      using ok r 3 assms(4) unfolding cmd_ok_def by fastforce+
    moreover have "expire_locked ?r rtt now [] = (p', xs)"
      using run 3 by (auto simp: q_def Let_def)
    ultimately have "cmd_step_ok P ?r xs p'"
      using expire_locked_spec [of ?r P rtt now "[]" p' xs] assms(3) by simp
    then show ?thesis
      using r(1) by (simp add: cmd_step_ok_def delivers_def)
  qed
qed

lemma cmd_handle_seq_0: "h_sequence header = 0 \<Longrightarrow> cmd_handle p header payload rtt now = (p, [])"
  by (simp add: cmd_handle_def)

section \<open>Sequences of calls\<close>

datatype cmd_event = Arrive u32 bytes u32 time | Flush u32 time

primrec cmd_event_step :: "cmd_event \<Rightarrow> peer \<Rightarrow> peer \<times> bytes list" where
  "cmd_event_step (Arrive seq payload rtt now) p =
     cmd_handle p (zero_header\<lparr> h_sequence := seq \<rparr>) payload rtt now"
| "cmd_event_step (Flush rtt now) p = cmd_flush_expired p rtt now"

primrec cmd_run :: "cmd_event list \<Rightarrow> peer \<Rightarrow> peer \<times> bytes list" where
  "cmd_run [] p = (p, [])"
| "cmd_run (e # es) p =
    (let (p, xs) = cmd_event_step e p; (p, ys) = cmd_run es p in (p, xs @ ys))"

definition arrivals :: "cmd_event list \<Rightarrow> (u32 \<times> bytes) set" where
  "arrivals es = {(seq, payload). \<exists>rtt now. Arrive seq payload rtt now \<in> set es}"

lemma cmd_event_step_ok:
  assumes "cmd_ok p" "set (m_cmd_held p) \<subseteq> P" "arrivals [e] \<subseteq> P" "no_max P" "cmd_event_step e p = (p', xs)"
  shows "cmd_step_ok P p xs p'"
proof (cases e)
  case (Arrive seq payload rtt now)
  then have mem: "(seq, payload) \<in> P"
    using assms(3) by (auto simp: arrivals_def)
  show ?thesis
  proof (cases "seq = 0")
    case True
    with Arrive assms show ?thesis
      by (auto simp: cmd_handle_seq_0 cmd_step_ok_def delivers_Nil)
  next
    case False
    then have "cmd_step_ok P (cmd_start p seq) xs p'"
      using cmd_handle_spec [OF assms(1,2,4), of "zero_header\<lparr> h_sequence := seq \<rparr>" payload rtt now p' xs]
        assms(5) Arrive mem by simp
    moreover have "m_cmd_next_expected p \<le> m_cmd_next_expected (cmd_start p seq)"
      using assms(1) by (auto simp: cmd_start_def cmd_ok_def)
    ultimately show ?thesis
      using delivers_cursor by (auto simp: cmd_step_ok_def)
  qed
next
  case (Flush rtt now)
  with assms expire_locked_spec [OF assms(1,2,4), of rtt now "[]" p' xs] show ?thesis
    by (auto simp: cmd_flush_expired_def)
qed

lemma cmd_run_ok:
  assumes "cmd_ok p" "set (m_cmd_held p) \<subseteq> P" "arrivals es \<subseteq> P" "no_max P" "cmd_run es p = (p', xs)"
  shows "cmd_step_ok P p xs p'"
  using assms
proof (induction es arbitrary: p xs)
  case (Cons e es)
  obtain q ys where q: "cmd_event_step e p = (q, ys)"
    by (cases "cmd_event_step e p")
  obtain zs where zs: "cmd_run es q = (p', zs)" "xs = ys @ zs"
    using Cons.prems(5) q by (auto split: prod.splits)
  have "arrivals [e] \<subseteq> P" "arrivals es \<subseteq> P"
    using Cons.prems(3) by (auto simp: arrivals_def)
  with Cons q zs have 1: "cmd_step_ok P p ys q"
    using cmd_event_step_ok by blast
  have 2: "cmd_step_ok P q zs p'"
    using 1 Cons.prems(4) zs \<open>arrivals es \<subseteq> P\<close> by (intro Cons.IH) (auto simp: cmd_step_ok_def)
  have "delivers (P \<union> P) p (ys @ zs) p'"
    using 1 2 by (intro delivers_append) (auto simp: cmd_step_ok_def)
  with 2 zs(2) show ?case
    by (simp add: cmd_step_ok_def)
qed (simp add: cmd_step_ok_def delivers_Nil)

lemma cmd_reset_ok: "cmd_ok (cmd_reset p)" "m_cmd_held (cmd_reset p) = []"
  by (simp_all add: cmd_ok_def cmd_reset_def)

text \<open>
  C4: whatever order commands arrive in, with duplicates and losses, after a reset the
  channel delivers commands in strictly increasing sequence order, none twice, and each with
  a payload that arrived under its number. (The largest sequence number, which a sender
  reaches only after four billion commands, is excluded.)
\<close>

theorem commands_delivered_in_order:
  assumes "cmd_run es (cmd_reset p) = (p', xs)" "\<forall>e\<in>arrivals es. fst e \<noteq> - 1"
  shows "\<exists>seqs. length seqs = length xs \<and> sorted_wrt (<) seqs \<and> set (zip seqs xs) \<subseteq> arrivals es"
  using cmd_run_ok [OF cmd_reset_ok(1) _ order_refl _ assms(1)] assms(2)
  by (auto simp: cmd_step_ok_def delivers_def no_max_def cmd_reset_ok)

lemma commands_delivered_in_order_witness:
  "\<exists>xs p'. cmd_run [Arrive 5 [1] 0 0, Arrive 7 [3] 0 10, Arrive 6 [2] 0 20, Arrive 6 [9] 0 30] (cmd_reset new_peer)
     = (p', xs) \<and> xs = [[1], [2], [3]] \<and>
   (\<exists>seqs. length seqs = length xs \<and> sorted_wrt (<) seqs \<and>
     set (zip seqs xs) \<subseteq> {(5 :: u32, [1]), (7, [3]), (6, [2]), (6, [9])})"
proof -
  let ?es = "[Arrive 5 [1] 0 0, Arrive 7 [3] 0 10, Arrive 6 [2] 0 20, Arrive 6 [9] 0 30]"
  have run: "snd (cmd_run ?es (cmd_reset new_peer)) = [[1], [2], [3]]"
    by (simp add: cmd_handle_def cmd_reset_def new_peer_def zero_header_def drain_locked.simps
        expire_locked_def Let_def om_emplace_def om_del_def us_def kMaxWaitRtt_def)
  obtain p' xs where r: "cmd_run ?es (cmd_reset new_peer) = (p', xs)"
    by (cases "cmd_run ?es (cmd_reset new_peer)")
  have "arrivals ?es = {(5, [1]), (7, [3]), (6, [2]), (6, [9])}"
    by (auto simp: arrivals_def)
  with commands_delivered_in_order [OF r] r run show ?thesis
    by simp
qed

section \<open>Progress\<close>

lemma drain_locked_prefix:
  "drain_locked p out = (p', out') \<Longrightarrow>
   (\<exists>ys. out' = out @ ys) \<and> length (m_cmd_held p') \<le> length (m_cmd_held p)"
proof (induction p out arbitrary: p' out' rule: drain_locked.induct)
  case (1 p out)
  show ?case
  proof (cases "map_of (m_cmd_held p) (m_cmd_next_expected p)")
    case None
    with 1(2) show ?thesis
      by (subst (asm) drain_locked.simps) simp
  next
    case (Some pl)
    let ?p = "p\<lparr> m_cmd_held := om_del (m_cmd_next_expected p) (m_cmd_held p),
      m_cmd_next_expected := m_cmd_next_expected p + 1 \<rparr>"
    have "drain_locked ?p (out @ [pl]) = (p', out')"
      using 1(2) Some by (subst (asm) drain_locked.simps) simp
    from 1(1) [OF Some this] length_om_del_less [OF Some] show ?thesis
      by auto
  qed
qed

lemma cmd_released:
  shows "h_sequence header = m_cmd_next_expected p \<and> h_sequence header \<noteq> 0 \<Longrightarrow>
      \<exists>ys. snd (cmd_handle p header payload rtt now) = payload # ys"
    and "m_cmd_held p \<noteq> [] \<and> us (3 * (if rtt > 0 then uint rtt else 10000)) \<le> now - m_cmd_gap_since p \<Longrightarrow>
      (\<exists>ys. snd (cmd_flush_expired p rtt now) = snd (hd (m_cmd_held p)) # ys) \<and>
      length (m_cmd_held (fst (cmd_flush_expired p rtt now))) < length (m_cmd_held p)"
proof -
  assume h: "h_sequence header = m_cmd_next_expected p \<and> h_sequence header \<noteq> 0"
  let ?p = "if \<not> m_cmd_initialized p then p\<lparr> m_cmd_next_expected := h_sequence header, m_cmd_initialized := True \<rparr>
      else p"
  obtain p' out' where d: "drain_locked (?p\<lparr> m_cmd_next_expected := m_cmd_next_expected ?p + 1 \<rparr>) [payload] = (p', out')"
    by fastforce
  have "cmd_handle p header payload rtt now = (p', out')"
    using h d by (auto simp: cmd_handle_def Let_def)
  with drain_locked_prefix [OF d] show "\<exists>ys. snd (cmd_handle p header payload rtt now) = payload # ys"
    by auto
next
  assume h: "m_cmd_held p \<noteq> [] \<and> us (3 * (if rtt > 0 then uint rtt else 10000)) \<le> now - m_cmd_gap_since p"
  then obtain k pl m where held: "m_cmd_held p = (k, pl) # m"
    by (cases "m_cmd_held p") auto
  let ?p = "p\<lparr> m_cmd_next_expected := k \<rparr>"
  let ?q = "?p\<lparr> m_cmd_held := om_del k (m_cmd_held p), m_cmd_next_expected := k + 1 \<rparr>"
  obtain p' out' where d: "drain_locked ?q [pl] = (p', out')"
    by fastforce
  have "drain_locked ?p [] = (p', out')"
    using d held by (subst drain_locked.simps) simp
  then have run: "cmd_flush_expired p rtt now =
      (if m_cmd_held p' \<noteq> [] then p'\<lparr> m_cmd_gap_since := now \<rparr> else p', out')"
    using h held by (simp add: cmd_flush_expired_def expire_locked_def kMaxWaitRtt_def not_less)
  have "length (om_del k (m_cmd_held p)) < length (m_cmd_held p)"
    using held by (intro length_om_del_less [of _ _ pl]) simp
  with run drain_locked_prefix [OF d] held
  show "(\<exists>ys. snd (cmd_flush_expired p rtt now) = snd (hd (m_cmd_held p)) # ys) \<and>
      length (m_cmd_held (fst (cmd_flush_expired p rtt now))) < length (m_cmd_held p)"
    by auto
qed

text \<open>
  C16: a command is never held for ever. One that is next in order is delivered by the call
  that receives it; and once three round trips have passed since the gap opened, the next
  periodic check delivers the first held command and leaves fewer commands held.
\<close>

theorem commands_are_released:
  "(h_sequence header = m_cmd_next_expected p \<and> h_sequence header \<noteq> 0 \<longrightarrow>
      (\<exists>ys. snd (cmd_handle p header payload rtt now) = payload # ys)) \<and>
   (m_cmd_held p \<noteq> [] \<and> us (3 * (if rtt > 0 then uint rtt else 10000)) \<le> now - m_cmd_gap_since p \<longrightarrow>
      (\<exists>ys. snd (cmd_flush_expired p rtt now) = snd (hd (m_cmd_held p)) # ys) \<and>
      length (m_cmd_held (fst (cmd_flush_expired p rtt now))) < length (m_cmd_held p))"
  using cmd_released by blast

lemma commands_are_released_witness:
  "let p = new_peer\<lparr> m_cmd_initialized := True, m_cmd_next_expected := 4, m_cmd_held := [(6, [1, 2])] \<rparr>
   in (\<exists>ys. snd (cmd_handle p (zero_header\<lparr> h_sequence := 4 \<rparr>) [7] 0 5) = [7] # ys) \<and>
     (\<exists>ys. snd (cmd_flush_expired p 20000 60000000) = [1, 2] # ys)"
  using commands_are_released [of "zero_header\<lparr> h_sequence := 4 \<rparr>"
      "new_peer\<lparr> m_cmd_initialized := True, m_cmd_next_expected := 4, m_cmd_held := [(6, [1, 2])] \<rparr>" "[7]" 0 5]
    commands_are_released [of zero_header
      "new_peer\<lparr> m_cmd_initialized := True, m_cmd_next_expected := 4, m_cmd_held := [(6, [1, 2])] \<rparr>" "[]"
      20000 60000000]
  by (simp add: Let_def zero_header_def new_peer_def us_def)

end
