(* ===== verification/Reassembler.thy ===== *)
theory Reassembler
  imports Peer Reed_Solomon
begin

text \<open>
  The receive path of data packets, \<open>reassembler.cpp\<close>: late-packet accounting, tracking of
  sequence numbers and gaps, collection of fragments, recovery of lost ones and delivery.
  The callbacks \<open>deliver\<close> and \<open>on_message_loss\<close> are events of the result. Every access to
  the vectors of an entry is checked: an index out of range is the error \<open>OutOfBounds\<close>, the
  dereference of an empty \<open>std::optional\<close> the error \<open>NoValue\<close>; the code has neither check. \<open>now\<close>, \<open>unix\<close> are the clocks
  read on entry, \<open>now2\<close>, \<open>unix2\<close> those read by \<open>try_assemble\<close>. Debug printing is left out.
\<close>

datatype rx_event = Deliver bytes | Message_loss u8
datatype rx_error = OutOfBounds | NoValue

section \<open>Late packets\<close>

definition bump :: "nat \<Rightarrow> u32 list \<Rightarrow> u32 list" where
  "bump bin hist = (let bin = (if bin \<ge> length hist then length hist - 1 else bin) in hist[bin := hist ! bin + 1])"

definition account_late :: "peer \<Rightarrow> int \<Rightarrow> u32 \<Rightarrow> double \<Rightarrow> u32 \<Rightarrow> peer" where
  "account_late p transit_us rtt_us late_multiplier late_buffer_ms =
    (if transit_us \<ge> 0 then
       let p = p\<lparr> m_transit_samples := m_transit_samples p + 1 \<rparr>;
           t = (word_of_int transit_us :: u64);
           p = p\<lparr> m_latency_hist := bump (unat t div 8000) (m_latency_hist p),
             m_hist_samples := m_hist_samples p + 1 \<rparr>
       in if late_buffer_ms > 0 then
            (if m_late_line_us p > 0 \<and> t > m_late_line_us p
             then p\<lparr> m_late_samples := m_late_samples p + 1 \<rparr> else p)
          else
            let threshold_us = (word_of_int (ftrunc (fmul late_multiplier
                  (fof (if rtt_us > 0 then uint rtt_us else 10000)))) :: u64)
            in (if t > threshold_us then p\<lparr> m_late_samples := m_late_samples p + 1 \<rparr> else p)
     else p)"

section \<open>Sequence numbers\<close>

text \<open>\<open>while (m_recv_seqs.count(m_next_expected_seq))\<close>.\<close>

function advance :: "u32 set \<Rightarrow> u32 \<Rightarrow> u32 set \<times> u32" where
  "advance recv nxt = (if nxt \<in> recv then advance (recv - {nxt}) (nxt + 1) else (recv, nxt))"
  by auto
termination
proof (relation "measure (\<lambda>(recv, nxt). card recv)")
  show "((recv - {nxt}, nxt + 1), (recv, nxt)) \<in> measure (\<lambda>(recv, nxt). card recv)" if "nxt \<in> recv"
    for recv :: "u32 set" and nxt :: u32
    using card_Diff1_less [OF finite that] by simp
qed simp

declare advance.simps [simp del]

definition seq_range :: "u32 \<Rightarrow> u32 \<Rightarrow> u32 list" where
  "seq_range a b = map word_of_nat [unat a ..< unat b]"

definition note_gap :: "time \<Rightarrow> u8 \<Rightarrow> peer \<Rightarrow> u32 \<Rightarrow> peer" where
  "note_gap now channel p g =
    (if g \<notin> m_recv_seqs p
     then p\<lparr> m_missing_seqs := (if map_of (m_missing_seqs p) g = None then om_put g now (m_missing_seqs p)
              else m_missing_seqs p),
        m_missing_channel := om_put g channel (m_missing_channel p) \<rparr>
     else p)"

definition receive_seq :: "u32 \<Rightarrow> peer \<Rightarrow> peer" where
  "receive_seq seq p =
    (let (recv, nxt) = advance (insert seq (m_recv_seqs p)) (m_next_expected_seq p)
     in p\<lparr> m_recv_seqs := recv, m_next_expected_seq := nxt \<rparr>)"

definition track_seq :: "peer \<Rightarrow> u32 \<Rightarrow> u8 \<Rightarrow> time \<Rightarrow> peer" where
  "track_seq p seq channel now =
    (if seq = 0 then p
     else if \<not> m_seq_initialized p then
       p\<lparr> m_next_expected_seq := seq + 1, m_seq_initialized := True \<rparr>
     else if seq \<ge> m_next_expected_seq p then
       receive_seq seq (foldl (note_gap now channel) p (seq_range (m_next_expected_seq p) seq))
     else
       let p = (if map_of (m_missing_seqs p) seq \<noteq> None
                then p\<lparr> m_missing_seqs := om_del seq (m_missing_seqs p),
                  m_missing_channel := om_del seq (m_missing_channel p) \<rparr>
                else p)
       in receive_seq seq p)"

section \<open>Assembling a message\<close>

definition log_oversize_drop :: "peer \<Rightarrow> time \<Rightarrow> peer" where
  "log_oversize_drop p now =
    (if now - m_oversize_log_ts p < ms 1000 then p else p\<lparr> m_oversize_log_ts := now \<rparr>)"

text \<open>The used part of a data fragment: its recorded size, capped by its length.\<close>

definition read_part :: "incoming_message \<Rightarrow> nat \<Rightarrow> rx_error + (nat \<times> bytes)" where
  "read_part im i =
    (if i \<ge> length (im_sizes im) \<or> i \<ge> length (im_fragments im) then Inl OutOfBounds
     else case im_fragments im ! i of
            None \<Rightarrow> Inl NoValue
          | Some f \<Rightarrow> Inr (min (unat (im_sizes im ! i)) (length f), f))"

primrec read_parts :: "incoming_message \<Rightarrow> nat \<Rightarrow> rx_error + (nat \<times> bytes) list" where
  "read_parts im 0 = Inr []"
| "read_parts im (Suc n) =
    (case read_parts im n of
       Inl e \<Rightarrow> Inl e
     | Inr parts \<Rightarrow>
         (case read_part im n of
            Inl e \<Rightarrow> Inl e
          | Inr part \<Rightarrow> Inr (parts @ [part])))"

fun read_prefix :: "(nat \<times> bytes) list \<Rightarrow> nat \<Rightarrow> bytes \<Rightarrow> bytes" where
  "read_prefix [] need pfx = pfx"
| "read_prefix ((n, f) # fs) need pfx =
    (if need > 0
     then let k = min n need in read_prefix fs (need - k) (blit (4 - need) (take k f) pfx)
     else pfx)"

fun copy_stream :: "(nat \<times> bytes) list \<Rightarrow> nat \<Rightarrow> nat \<Rightarrow> nat \<Rightarrow> bytes \<Rightarrow> bytes" where
  "copy_stream [] tot skip out_off result = result"
| "copy_stream ((n, f) # fs) tot skip out_off result =
    (if out_off < tot then
       if skip \<ge> n then copy_stream fs tot (skip - n) out_off result
       else
         let src = drop skip f; n = n - skip;
             n = (if out_off + n > tot then tot - out_off else n)
         in copy_stream fs tot 0 (out_off + n) (blit out_off (take n src) result)
     else result)"

definition join_parts :: "peer \<Rightarrow> (nat \<times> bytes) list \<Rightarrow> nat \<Rightarrow> time \<Rightarrow> bytes \<times> peer" where
  "join_parts p parts max_message_bytes now =
    (let stream_len = sum_list (map fst parts)
     in if stream_len < 4 then ([], p)
        else
          let pfx = read_prefix parts 4 [0, 0, 0, 0];
              tot = unat (to_be32 (load32 pfx 0))
          in if tot > max_message_bytes
             then ([], if m_drop_log p then log_oversize_drop p now else p)
             else
               let tot = (if tot > stream_len - 4 then stream_len - 4 else tot)
               in (copy_stream parts tot 4 0 (replicate tot 0), p))"

text \<open>The first loop reads every part, so the later ones read no further.\<close>

definition build_msg :: "peer \<Rightarrow> incoming_message \<Rightarrow> nat \<Rightarrow> nat \<Rightarrow> time \<Rightarrow> rx_error + (bytes \<times> peer)" where
  "build_msg p im data_count max_message_bytes now =
    (case read_parts im data_count of
       Inl e \<Rightarrow> Inl e
     | Inr parts \<Rightarrow> Inr (join_parts p parts max_message_bytes now))"

definition account_frame :: "peer \<Rightarrow> u32 \<Rightarrow> nat \<Rightarrow> u64 \<Rightarrow> peer" where
  "account_frame p first_tick_ms fb unix =
    (let transit_us = transit_time_us p first_tick_ms unix
     in if transit_us \<ge> 0 then
          let t = (word_of_int transit_us :: u64);
              p = p\<lparr> m_frame_latency_hist := bump (unat t div 8000) (m_frame_latency_hist p),
                m_frame_hist_samples := m_frame_hist_samples p + 1 \<rparr>;
              p = (if fb > unat (m_frame_max_bytes p) then p\<lparr> m_frame_max_bytes := word_of_nat fb \<rparr> else p)
          in if length (m_frame_pairs p) < 48
             then p\<lparr> m_frame_pairs := m_frame_pairs p @
               [(word_of_nat (min fb 65535), word_of_nat (min (unat t div 1000) 65535))] \<rparr>
             else p
        else p)"

text \<open>
  The recovered fragments are written back with the fragment width as their size; \<open>build_msg\<close>
  reads the same positions next and reports those out of range.
\<close>

definition backfill :: "incoming_message \<Rightarrow> bytes option list \<Rightarrow> nat \<Rightarrow> nat \<Rightarrow> incoming_message" where
  "backfill im frags width data_count =
    foldl (\<lambda>im i. if im_fragments im ! i = None \<and> frags ! i \<noteq> None
        then im\<lparr> im_fragments := (im_fragments im)[i := frags ! i],
          im_sizes := (im_sizes im)[i := word_of_nat width] \<rparr>
        else im) im [0..<data_count]"

text \<open>All data fragments are there.\<close>

definition assemble_complete :: "peer \<Rightarrow> incoming_message \<Rightarrow> nat \<Rightarrow> nat \<Rightarrow> time \<Rightarrow> u64 \<Rightarrow>
    rx_error + (bool \<times> peer \<times> incoming_message \<times> rx_event list)" where
  "assemble_complete p im data_count max_message_bytes now unix =
    (case build_msg p im data_count max_message_bytes now of
       Inl e \<Rightarrow> Inl e
     | Inr (msg, p) \<Rightarrow>
         let p = (if msg \<noteq> [] then account_frame p (im_first_tick_ms im) (length msg) unix else p)
         in Inr (True, p, im, [Deliver msg]))"

definition received_parities :: "bytes option list \<Rightarrow> nat \<Rightarrow> nat \<Rightarrow> (nat \<times> bytes) list" where
  "received_parities frags data_count parity_count = concat (map (\<lambda>q.
     if data_count + q < length frags then
       (case frags ! (data_count + q) of None \<Rightarrow> [] | Some b \<Rightarrow> [(q, b)])
     else []) [0..<parity_count])"

definition max_width :: "bytes option list \<Rightarrow> nat" where
  "max_width frags = foldl (\<lambda>w f. case f of None \<Rightarrow> w | Some b \<Rightarrow> max w (length b)) 0 frags"

text \<open>\<open>multi\<close> data fragments are missing; try the parities.\<close>

definition assemble_recover :: "peer \<Rightarrow> incoming_message \<Rightarrow> nat \<Rightarrow> nat \<Rightarrow> nat \<Rightarrow> nat \<Rightarrow> time \<Rightarrow>
    rx_error + (bool \<times> peer \<times> incoming_message \<times> rx_event list)" where
  "assemble_recover p im data_count parity_count multi max_message_bytes now =
    (let frags = im_fragments im; width = max_width frags
     in if width = 0 then Inr (False, p, im, [])
        else
          let parities = received_parities frags data_count parity_count
          in if multi > length parities then Inr (False, p, im, [])
             else
               let (ok, data_frags) = rs_decode (take data_count frags) parities width
               in if \<not> ok then Inr (False, p, im, [])
                  else
                    let im = backfill im data_frags width data_count
                    in case build_msg p im data_count max_message_bytes now of
                         Inl e \<Rightarrow> Inl e
                       | Inr (msg, p) \<Rightarrow> Inr (True, p, im, [Deliver msg]))"

text \<open>Result: whether the message is finished, the peer, the entry, and the events.\<close>

definition try_assemble :: "peer \<Rightarrow> incoming_message \<Rightarrow> nat \<Rightarrow> time \<Rightarrow> time \<Rightarrow> u64 \<Rightarrow>
    rx_error + (bool \<times> peer \<times> incoming_message \<times> rx_event list)" where
  "try_assemble p im max_message_bytes loss_wait now unix =
    (if im_total_count im < 1 then Inr (False, p, im, [])
     else
       let data_count = (if im_data_count im > 0 then unat (im_data_count im) else unat (im_total_count im) - 1);
           parity_count = unat (im_total_count im) - data_count;
           frags = im_fragments im
       in if data_count > length frags then Inl OutOfBounds
          else
            let have_cnt = length (filter (\<lambda>i. frags ! i \<noteq> None) [0..<data_count])
            in if have_cnt = data_count then
                 assemble_complete p im data_count max_message_bytes now unix
               else
                 let multi = length (filter (\<lambda>i. frags ! i = None) [0..<data_count])
                 in if multi > parity_count then
                      (if now - im_first_seen im < loss_wait then Inr (False, p, im, [])
                       else Inr (True, p, im, [Message_loss (im_channel im)]))
                    else if multi = 0 then Inr (False, p, im, [])
                    else assemble_recover p im data_count parity_count multi max_message_bytes now)"

section \<open>Receiving a packet\<close>

definition kReliableLossWaitPeriods :: int where "kReliableLossWaitPeriods = 12"

definition zero_incoming :: incoming_message where
  "zero_incoming = \<lparr> im_message_id = 0, im_total_count = 0, im_data_count = 0, im_channel = 0,
     im_fragments = [], im_sizes = [], im_first_seen = 0, im_first_tick_ms = 0 \<rparr>"

definition loss_wait_for :: "peer \<Rightarrow> u8 \<Rightarrow> u32 \<Rightarrow> time \<Rightarrow> time" where
  "loss_wait_for p ch rtt_us report_interval =
    (let reliable = (ch < 8 \<and> m_channel_reliable p ! unat ch \<and> m_peer_retransmit p)
     in if reliable then kReliableLossWaitPeriods * report_interval
        else max (ms 250) (ms (uint (2 * (rtt_us div 1000)))))"

text \<open>The entry of the message, created and filled in by its first fragment.\<close>

definition open_entry :: "peer \<Rightarrow> packet_header \<Rightarrow> time \<Rightarrow> incoming_message" where
  "open_entry p header now =
    (let im = (case map_of (m_incoming p) (h_message_id header) of None \<Rightarrow> zero_incoming | Some im \<Rightarrow> im);
         cnt = unat (h_fragment_count header)
     in if im_message_id im = 0
        then im\<lparr> im_message_id := h_message_id header, im_total_count := h_fragment_count header,
          im_data_count := h_flags header, im_channel := channel_of (h_reserved header),
          im_fragments := replicate cnt None, im_sizes := replicate cnt 0,
          im_first_seen := now, im_first_tick_ms := h_tick header \<rparr>
        else im)"

definition store_fragment :: "incoming_message \<Rightarrow> packet_header \<Rightarrow> bytes \<Rightarrow> rx_error + incoming_message" where
  "store_fragment im header payload =
    (let idx = unat (h_fragment_index header)
     in if idx \<ge> length (im_fragments im) then Inl OutOfBounds
        else if im_fragments im ! idx = None then
          (if idx \<ge> length (im_sizes im) then Inl OutOfBounds
           else Inr (im\<lparr> im_fragments := (im_fragments im)[idx := Some payload],
             im_sizes := (im_sizes im)[idx := h_reserved header AND kRealSizeMask] \<rparr>))
        else Inr im)"

definition handle_data :: "peer \<Rightarrow> packet_header \<Rightarrow> bytes \<Rightarrow> u32 \<Rightarrow> double \<Rightarrow> u32 \<Rightarrow> nat \<Rightarrow> time \<Rightarrow>
    time \<Rightarrow> u64 \<Rightarrow> time \<Rightarrow> u64 \<Rightarrow> rx_error + (peer \<times> rx_event list)" where
  "handle_data p header payload rtt_us late_multiplier late_buffer_ms max_message_bytes report_interval
      now unix now2 unix2 =
    (let seq = h_sequence header;
         p = account_late p (transit_time_us p (h_tick header) unix) rtt_us late_multiplier late_buffer_ms;
         p = track_seq p seq (channel_of (h_reserved header)) now;
         idx = h_fragment_index header; cnt = h_fragment_count header
     in if cnt = 0 then Inr (p, [])
        else if map_of (m_completed p) (h_message_id header) \<noteq> None then Inr (p, [])
        else if idx \<ge> cnt then Inr (p, [])
        else if unat cnt > max_message_bytes div 64 + 8
        then Inr (if m_drop_log p then log_oversize_drop p now else p, [])
        else
          let im = open_entry p header now;
              p = p\<lparr> m_incoming := om_put (h_message_id header) im (m_incoming p) \<rparr>
          in if im_total_count im \<noteq> cnt then Inr (p, [])
             else if unat idx \<ge> length (im_fragments im) then Inr (p, [])
             else
               case store_fragment im header payload of
                 Inl e \<Rightarrow> Inl e
               | Inr im \<Rightarrow>
                   let p = p\<lparr> m_incoming := om_put (h_message_id header) im (m_incoming p) \<rparr>;
                       loss_wait = loss_wait_for p (channel_of (h_reserved header)) rtt_us report_interval
                   in case try_assemble p im max_message_bytes loss_wait now2 unix2 of
                        Inl e \<Rightarrow> Inl e
                      | Inr (assembled, p, im, evs) \<Rightarrow>
                          let p = p\<lparr> m_incoming := om_put (h_message_id header) im (m_incoming p) \<rparr>
                          in if assembled
                             then Inr (p\<lparr> m_completed := om_put (h_message_id header) now (m_completed p),
                               m_incoming := om_del (h_message_id header) (m_incoming p) \<rparr>, evs)
                             else Inr (p, evs))"

section \<open>The cursor\<close>

lemma word_less_succ: "n \<noteq> - 1 \<Longrightarrow> n < n + 1" for n :: u32
  by (metis inc_less_eq_self_iff_eq not_less)

lemma word_less_succ_iff: "n \<noteq> - 1 \<Longrightarrow> x < n + 1 \<longleftrightarrow> x \<le> n" for n :: u32
  by (metis inc_le word_less_succ less_inc_imp_less_eq order.strict_trans1)

lemma advance_spec:
  assumes "- 1 \<notin> recv"
  shows "case advance recv n of (recv', n') \<Rightarrow>
    n \<le> n' \<and> n' \<notin> recv' \<and> (\<forall>x. n \<le> x \<and> x < n' \<longrightarrow> x \<in> recv) \<and> recv' = recv - {x. n \<le> x \<and> x < n'}"
  using assms
proof (induction recv n rule: advance.induct)
  case (1 recv n)
  show ?case
  proof (cases "n \<in> recv")
    case True
    then have n: "n \<noteq> - 1"
      using 1(2) by metis
    obtain r' n' where r: "advance (recv - {n}) (n + 1) = (r', n')"
      by fastforce
    have IH: "n + 1 \<le> n'" "n' \<notin> r'" "\<forall>x. n + 1 \<le> x \<and> x < n' \<longrightarrow> x \<in> recv - {n}"
      "r' = recv - {n} - {x. n + 1 \<le> x \<and> x < n'}"
      using 1(1) [OF True] 1(2) r by auto
    have split: "n \<le> x \<and> x < n' \<longleftrightarrow> x = n \<or> (n + 1 \<le> x \<and> x < n')" for x
      using word_less_succ [OF n] IH(1) inc_le [of n x] by (auto intro: order.strict_trans1 simp: le_less)
    have "advance recv n = (r', n')"
      using True r by (subst advance.simps) simp
    moreover have "n \<le> n'"
      using word_less_succ [OF n] IH(1) by (meson less_imp_le order_trans)
    ultimately show ?thesis
      using IH(2-4) True by (auto simp: split)
  next
    case False
    then have "advance recv n = (recv, n)"
      by (subst advance.simps) simp
    with False show ?thesis
      by auto
  qed
qed

definition track_inv :: "u32 \<Rightarrow> u32 set \<Rightarrow> peer \<Rightarrow> bool" where
  "track_inv s0 R p \<longleftrightarrow> m_seq_initialized p \<and> - 1 \<notin> R \<and> s0 < m_next_expected_seq p \<and>
    m_recv_seqs p \<subseteq> R \<and> m_next_expected_seq p \<notin> m_recv_seqs p \<and>
    (\<forall>x\<in>R. m_next_expected_seq p \<le> x \<longrightarrow> x \<in> m_recv_seqs p) \<and>
    (\<forall>x. s0 < x \<and> x < m_next_expected_seq p \<longrightarrow> x \<in> R) \<and>
    (\<forall>x\<in>R. \<forall>g. m_next_expected_seq p \<le> g \<and> g < x \<and> g \<notin> R \<longrightarrow> map_of (m_missing_seqs p) g \<noteq> None)"

lemma receive_seq_inv:
  assumes "track_inv s0 R p" "seq \<noteq> - 1"
    and "\<And>g. m_next_expected_seq p \<le> g \<Longrightarrow> g < seq \<Longrightarrow> g \<notin> R \<Longrightarrow> map_of (m_missing_seqs p) g \<noteq> None"
  shows "track_inv s0 (insert seq R) (receive_seq seq p)"
proof -
  let ?n = "m_next_expected_seq p" and ?R = "insert seq (m_recv_seqs p)"
  obtain r' n' where adv: "advance ?R ?n = (r', n')"
    by fastforce
  have max: "- 1 \<notin> ?R"
    using assms(1,2) by (auto simp: track_inv_def)
  have A: "?n \<le> n'" "n' \<notin> r'" "\<And>x. ?n \<le> x \<Longrightarrow> x < n' \<Longrightarrow> x \<in> ?R" "r' = ?R - {x. ?n \<le> x \<and> x < n'}"
    using advance_spec [OF max, of ?n] by (auto simp: adv)
  have p': "receive_seq seq p = p\<lparr> m_recv_seqs := r', m_next_expected_seq := n' \<rparr>"
    by (simp add: receive_seq_def adv)
  have I: "m_seq_initialized p" "- 1 \<notin> R" "s0 < ?n" "m_recv_seqs p \<subseteq> R"
    "\<And>x. x \<in> R \<Longrightarrow> ?n \<le> x \<Longrightarrow> x \<in> m_recv_seqs p" "\<And>x. s0 < x \<Longrightarrow> x < ?n \<Longrightarrow> x \<in> R"
    "\<And>x g. x \<in> R \<Longrightarrow> ?n \<le> g \<Longrightarrow> g < x \<Longrightarrow> g \<notin> R \<Longrightarrow> map_of (m_missing_seqs p) g \<noteq> None"
    using assms(1) unfolding track_inv_def by blast+
  have 1: "s0 < n'"
    using I(3) A(1) by (rule order.strict_trans2)
  have 2: "r' \<subseteq> insert seq R"
    using I(4) A(4) by blast
  have 3: "x \<in> r'" if "x \<in> insert seq R" "n' \<le> x" for x
    using that A(1,4) I(5) [of x] by (auto simp: not_less intro: order_trans)
  have 4: "x \<in> insert seq R" if "s0 < x" "x < n'" for x
    using that I(6) [of x] A(3) [of x] I(4) by (cases "x < ?n") (auto simp: not_less)
  have 5: "map_of (m_missing_seqs p) g \<noteq> None" if "x \<in> insert seq R" "n' \<le> g" "g < x" "g \<notin> insert seq R" for x g
    using that I(7) [of x g] assms(3) [of g] A(1) by (auto dest: order_trans)
  show ?thesis
    unfolding track_inv_def p' using I(1,2) assms(2) A(2) 1 2 3 4 5 by auto
qed

lemma note_gap_fields:
  "m_recv_seqs (note_gap now ch p h) = m_recv_seqs p"
  "m_next_expected_seq (note_gap now ch p h) = m_next_expected_seq p"
  "m_seq_initialized (note_gap now ch p h) = m_seq_initialized p"
  "map_of (m_missing_seqs p) g \<noteq> None \<or> (g = h \<and> g \<notin> m_recv_seqs p) \<Longrightarrow>
     map_of (m_missing_seqs (note_gap now ch p h)) g \<noteq> None"
  by (auto simp: note_gap_def)

lemma note_gaps:
  "m_recv_seqs (foldl (note_gap now ch) p gs) = m_recv_seqs p"
  "m_next_expected_seq (foldl (note_gap now ch) p gs) = m_next_expected_seq p"
  "m_seq_initialized (foldl (note_gap now ch) p gs) = m_seq_initialized p"
  by (induction gs arbitrary: p) (simp_all only: foldl.simps note_gap_fields)

lemma note_gaps_missing:
  "map_of (m_missing_seqs p) g \<noteq> None \<or> (g \<in> set gs \<and> g \<notin> m_recv_seqs p) \<Longrightarrow>
     map_of (m_missing_seqs (foldl (note_gap now ch) p gs)) g \<noteq> None"
proof (induction gs arbitrary: p)
  case (Cons h gs)
  then have "map_of (m_missing_seqs (note_gap now ch p h)) g \<noteq> None \<or>
      (g \<in> set gs \<and> g \<notin> m_recv_seqs (note_gap now ch p h))"
    using note_gap_fields(4) [of p g h now ch] by (auto simp: note_gap_fields(1))
  from Cons.IH [OF this] show ?case
    by simp
qed simp

lemma set_seq_range: "set (seq_range a b) = {x. a \<le> x \<and> x < b}"
proof -
  have "x \<in> set (seq_range a b) \<longleftrightarrow> a \<le> x \<and> x < b" for x
  proof
    assume "x \<in> set (seq_range a b)"
    then obtain n where n: "unat a \<le> n" "n < unat b" "x = word_of_nat n"
      by (auto simp: seq_range_def)
    moreover have "n < 2 ^ 32"
      using order.strict_trans [OF n(2) u32_less] by simp
    ultimately have "unat x = n"
      by (simp add: unat_of_nat take_bit_nat_eq_self_iff)
    with n show "a \<le> x \<and> x < b"
      by (simp add: word_le_nat_alt word_less_nat_alt)
  next
    assume "a \<le> x \<and> x < b"
    then have "unat x \<in> {unat a..<unat b}"
      by (simp add: word_le_nat_alt word_less_nat_alt)
    then show "x \<in> set (seq_range a b)"
      unfolding seq_range_def by (auto intro!: image_eqI [of _ _ "unat x"])
  qed
  then show ?thesis
    by auto
qed

lemma track_inv_missing_mono:
  assumes "track_inv s0 R p" "m_seq_initialized q = m_seq_initialized p" "m_recv_seqs q = m_recv_seqs p"
    "m_next_expected_seq q = m_next_expected_seq p"
    and "\<And>g. m_next_expected_seq p \<le> g \<Longrightarrow> map_of (m_missing_seqs p) g \<noteq> None \<Longrightarrow> map_of (m_missing_seqs q) g \<noteq> None"
  shows "track_inv s0 R q"
  using assms unfolding track_inv_def by (metis (no_types, lifting))

lemma track_seq_inv:
  assumes "track_inv s0 R p" "seq \<noteq> 0" "seq \<noteq> - 1"
  shows "track_inv s0 (insert seq R) (track_seq p seq ch now)"
proof -
  let ?n = "m_next_expected_seq p"
  have init: "m_seq_initialized p" and recvR: "\<And>x. x \<in> R \<Longrightarrow> ?n \<le> x \<Longrightarrow> x \<in> m_recv_seqs p"
    and sub: "m_recv_seqs p \<subseteq> R"
    using assms(1) by (auto simp: track_inv_def)
  show ?thesis
  proof (cases "seq \<ge> ?n")
    case True
    let ?q = "foldl (note_gap now ch) p (seq_range ?n seq)"
    have "track_inv s0 R ?q"
      by (rule track_inv_missing_mono [OF assms(1)]) (simp_all only: note_gaps note_gaps_missing disjI1 simp_thms)
    moreover have "map_of (m_missing_seqs ?q) g \<noteq> None" if "?n \<le> g" "g < seq" "g \<notin> R" for g
      using that sub by (intro note_gaps_missing) (auto simp: set_seq_range)
    ultimately have "track_inv s0 (insert seq R) (receive_seq seq ?q)"
      using assms(3) by (intro receive_seq_inv) (simp_all add: note_gaps)
    then show ?thesis
      using True assms(2) init by (simp add: track_seq_def)
  next
    case False
    let ?q = "if map_of (m_missing_seqs p) seq \<noteq> None
      then p\<lparr> m_missing_seqs := om_del seq (m_missing_seqs p), m_missing_channel := om_del seq (m_missing_channel p) \<rparr>
      else p"
    have "track_inv s0 R ?q"
      by (rule track_inv_missing_mono [OF assms(1)]) (use False in auto)
    then have "track_inv s0 (insert seq R) (receive_seq seq ?q)"
      using assms(3) False by (intro receive_seq_inv) auto
    then show ?thesis
      using False assms(2) init by (simp add: track_seq_def Let_def)
  qed
qed

definition track_all :: "peer \<Rightarrow> (u32 \<times> u8 \<times> time) list \<Rightarrow> peer" where
  "track_all p pkts = foldl (\<lambda>p (seq, ch, now). track_seq p seq ch now) p pkts"

lemma track_all_inv:
  assumes "track_inv s0 R p" "\<forall>k\<in>set pkts. fst k \<noteq> 0 \<and> fst k \<noteq> - 1"
  shows "track_inv s0 (R \<union> fst ` set pkts) (track_all p pkts)"
  using assms
proof (induction pkts arbitrary: R p)
  case (Cons k pkts)
  obtain seq ch now where k: "k = (seq, ch, now)"
    by (cases k)
  have "track_inv s0 (insert seq R \<union> fst ` set pkts) (track_all (track_seq p seq ch now) pkts)"
    using Cons.prems k by (intro Cons.IH track_seq_inv) auto
  then show ?case
    by (simp add: track_all_def k)
qed (simp add: track_all_def)

text \<open>
  C10: the acknowledgment cursor is the first sequence number not received. After the first
  packet \<open>s0\<close> and any further packets in any order, with duplicates, every number strictly
  between \<open>s0\<close> and the cursor has been received, the cursor itself has not, and every
  number still missing below the highest one received is in the table of gaps. The run does not
  wrap: the sequence numbers 0 and \<open>2^32 - 1\<close> are excluded.
\<close>

theorem cursor_is_first_missing:
  fixes ch :: u8 and now :: time
  assumes "\<not> m_seq_initialized p" "m_recv_seqs p = {}" "s0 \<noteq> 0" "s0 \<noteq> - 1"
    and "\<forall>k\<in>set pkts. fst k \<noteq> 0 \<and> fst k \<noteq> - 1"
  defines "q \<equiv> track_all p ((s0, ch, now) # pkts)"
  shows "(\<forall>x. s0 < x \<and> x < m_next_expected_seq q \<longrightarrow> x \<in> fst ` set pkts) \<and>
    m_next_expected_seq q \<notin> fst ` set pkts \<and>
    (\<forall>x\<in>fst ` set pkts. \<forall>g. m_next_expected_seq q \<le> g \<and> g < x \<and> g \<notin> fst ` set pkts \<longrightarrow>
      map_of (m_missing_seqs q) g \<noteq> None)"
proof -
  have "track_inv s0 {} (track_seq p s0 ch now)"
    using assms(1-4) word_less_succ [of s0] word_less_succ_iff [of s0]
    by (auto simp: track_seq_def track_inv_def)
  from track_all_inv [OF this assms(5)] have I: "track_inv s0 (fst ` set pkts) q"
    by (simp add: q_def track_all_def)
  then have "m_next_expected_seq q \<notin> fst ` set pkts"
    unfolding track_inv_def by blast
  with I show ?thesis
    unfolding track_inv_def by blast
qed

lemma cursor_is_first_missing_witness:
  "let q = track_all new_peer [(4, 0, 0), (6, 0, 0), (5, 0, 0), (9, 0, 0)]
   in m_next_expected_seq q \<notin> {6, 5, 9} \<and> (\<forall>x. 4 < x \<and> x < m_next_expected_seq q \<longrightarrow> x \<in> {6, 5, 9})"
proof -
  show ?thesis
    using cursor_is_first_missing [of new_peer 4 "[(6, 0, 0), (5, 0, 0), (9, 0, 0)]" 0 0]
    by (simp add: Let_def new_peer_def)
qed

text \<open>
  Two leaks of the tracker. A packet that fills the first gap by arriving late but in
  order stays in the table of missing packets although it was received; and a duplicate of
  an already acknowledged packet is inserted into the set of received numbers below the
  cursor, where nothing removes it.
\<close>

theorem tracker_keeps_stale_entries:
  "let q = track_all new_peer [(4, 0, 0), (7, 0, 0), (5, 0, 0), (4, 0, 0)]
   in m_next_expected_seq q = 6 \<and> map_of (m_missing_seqs q) 5 \<noteq> None \<and> 4 \<in> m_recv_seqs q"
  by (simp add: track_all_def track_seq_def receive_seq_def advance.simps note_gap_def new_peer_def
      seq_range_def upt_rec Let_def)

section \<open>Rebuilding the byte stream\<close>

definition stream_of :: "(nat \<times> bytes) list \<Rightarrow> bytes" where
  "stream_of parts = concat (map (\<lambda>(n, f). take n f) parts)"

definition parts_ok :: "(nat \<times> bytes) list \<Rightarrow> bool" where
  "parts_ok parts \<longleftrightarrow> (\<forall>(n, f)\<in>set parts. n \<le> length f)"

lemma length_stream_of: "parts_ok parts \<Longrightarrow> length (stream_of parts) = sum_list (map fst parts)"
  by (induction parts) (auto simp: stream_of_def parts_ok_def)

text \<open>Data fragments that are all there, with their sizes, are read in order.\<close>

definition readable :: "incoming_message \<Rightarrow> nat \<Rightarrow> bool" where
  "readable im n \<longleftrightarrow> n \<le> length (im_sizes im) \<and> n \<le> length (im_fragments im) \<and> (\<forall>i<n. im_fragments im ! i \<noteq> None)"

definition used_parts :: "incoming_message \<Rightarrow> nat \<Rightarrow> (nat \<times> bytes) list" where
  "used_parts im data_count = map (\<lambda>i. let f = the (im_fragments im ! i)
     in (min (unat (im_sizes im ! i)) (length f), f)) [0..<data_count]"

lemma read_parts_readable: "readable im n \<Longrightarrow> read_parts im n = Inr (used_parts im n)"
proof (induction n)
  case (Suc n)
  then have "readable im n"
    by (simp add: readable_def)
  with Suc show ?case
    by (auto simp: readable_def read_part_def used_parts_def)
qed (simp add: used_parts_def)

lemma parts_ok_used: "parts_ok (used_parts im data_count)"
  by (auto simp: parts_ok_def used_parts_def Let_def)

lemma read_prefix_spec:
  "parts_ok parts \<Longrightarrow> length pfx = 4 \<Longrightarrow> need \<le> 4 \<Longrightarrow> need \<le> length (stream_of parts) \<Longrightarrow>
   read_prefix parts need pfx = take (4 - need) pfx @ take need (stream_of parts)"
proof (induction parts need pfx rule: read_prefix.induct)
  case (2 n f fs need pfx)
  show ?case
  proof (cases "need > 0")
    case True
    let ?k = "min n need"
    have n: "n \<le> length f" and ok: "parts_ok fs"
      using 2(2) by (auto simp: parts_ok_def)
    have len: "length (blit (4 - need) (take ?k f) pfx) = 4"
      using 2(3,4) n by (simp add: min.coboundedI1 min.coboundedI2)
    have stream: "stream_of ((n, f) # fs) = take n f @ stream_of fs"
      by (simp add: stream_of_def)
    have "need - ?k \<le> 4" "need - ?k \<le> length (stream_of fs)"
      using 2(4,5) n by (auto simp: stream)
    from 2(1) [OF True refl ok len this] True
    have "read_prefix ((n, f) # fs) need pfx =
        take (4 - (need - ?k)) (blit (4 - need) (take ?k f) pfx) @ take (need - ?k) (stream_of fs)"
      by (simp add: Let_def)
    also have "take (4 - (need - ?k)) (blit (4 - need) (take ?k f) pfx) = take (4 - need) pfx @ take ?k f"
    proof -
      have "4 - (need - ?k) = (4 - need) + ?k"
        using 2(4) by auto
      moreover have "length (take ?k f) = ?k"
        using n by auto
      ultimately show ?thesis
        using 2(3) by (simp add: blit_def)
    qed
    finally show ?thesis
      using n by (simp add: stream min_def)
  qed (use 2(3) in simp)
qed (simp add: stream_of_def)

lemma copy_stream_spec:
  "parts_ok parts \<Longrightarrow> off \<le> tot \<Longrightarrow> length res = tot \<Longrightarrow> skip + (tot - off) \<le> length (stream_of parts) \<Longrightarrow>
   copy_stream parts tot skip off res = take off res @ take (tot - off) (drop skip (stream_of parts))"
proof (induction parts tot skip off res rule: copy_stream.induct)
  case (2 n f fs tot skip off res)
  have n: "n \<le> length f" and ok: "parts_ok fs"
    using 2(3) by (auto simp: parts_ok_def)
  have stream: "stream_of ((n, f) # fs) = take n f @ stream_of fs"
    by (simp add: stream_of_def)
  show ?case
  proof (cases "off < tot")
    case True
    show ?thesis
    proof (cases "skip \<ge> n")
      case skip: True
      then show ?thesis
        using True 2(1) [OF True skip ok 2(4,5)] 2(6) n by (simp add: stream)
    next
      case False
      let ?n = "if off + (n - skip) > tot then tot - off else n - skip"
      have le: "?n \<le> n - skip" "off + ?n \<le> tot"
        using True by auto
      let ?res = "blit off (take ?n (drop skip f)) res"
      have len: "length (take ?n (drop skip f)) = ?n"
        using n le(1) by simp
      have len_res: "length ?res = tot"
        using 2(5) le(2) len by simp
      have rest: "0 + (tot - (off + ?n)) \<le> length (stream_of fs)"
        using 2(6) n False by (auto simp: stream)
      have "copy_stream ((n, f) # fs) tot skip off res =
          take (off + ?n) ?res @ take (tot - (off + ?n)) (stream_of fs)"
        using True False 2(2) [OF True False refl refl refl ok le(2) len_res rest] by (simp add: Let_def)
      also have "take (off + ?n) ?res = take off res @ take ?n (drop skip f)"
        using 2(5) True len by (simp add: blit_def min_def)
      also have "(take off res @ take ?n (drop skip f)) @ take (tot - (off + ?n)) (stream_of fs) =
          take off res @ take (tot - off) (drop skip (stream_of ((n, f) # fs)))"
      proof -
        have drop: "drop skip (take n f @ stream_of fs) = take (n - skip) (drop skip f) @ stream_of fs"
          using n False by (simp add: drop_take)
        have "length (take (n - skip) (drop skip f)) = n - skip"
          using n by simp
        moreover obtain k where "n = skip + k"
          using False by (metis le_Suc_ex nat_le_linear)
        ultimately show ?thesis
          unfolding stream drop using True
          by (cases "off + k > tot"; cases "tot - off = k") (simp_all add: min_def)
      qed
      finally show ?thesis .
    qed
  qed (use 2 in simp)
qed (simp add: stream_of_def)

text \<open>The message announced by a stream: its big-endian length prefix, capped by what arrived.\<close>

definition prefix_length :: "bytes \<Rightarrow> nat" where
  "prefix_length stream = unat (get32 stream 0)"

lemma join_parts_spec:
  assumes "stream = stream_of (used_parts im data_count)" "4 \<le> length stream"
  shows "join_parts p (used_parts im data_count) max_message_bytes now =
    (if prefix_length stream > max_message_bytes
     then ([], if m_drop_log p then log_oversize_drop p now else p)
     else (take (prefix_length stream) (drop 4 stream), p))"
proof -
  let ?parts = "used_parts im data_count" and ?n = "prefix_length stream"
  note ok = parts_ok_used [of im data_count]
  have len: "sum_list (map fst ?parts) = length stream"
    using length_stream_of [OF ok] assms(1) by simp
  have pfx: "read_prefix ?parts 4 [0, 0, 0, 0] = take 4 stream"
    using read_prefix_spec [OF ok, of "[0, 0, 0, 0]" 4] assms by simp
  have n: "unat (to_be32 (load32 (take 4 stream) 0)) = ?n"
    using assms(2) by (simp add: prefix_length_def get32_def load32_def)
  let ?m = "min ?n (length stream - 4)"
  have "copy_stream ?parts ?m 4 0 (replicate ?m 0) = take ?m (drop 4 stream)"
    using copy_stream_spec [OF ok, of 0 ?m "replicate ?m 0" 4] assms by simp
  moreover have "take ?m (drop 4 stream) = take ?n (drop 4 stream)"
    by (simp add: min_def)
  moreover have "(if ?n > length stream - 4 then length stream - 4 else ?n) = ?m"
    by (simp add: min_def)
  ultimately have "join_parts p ?parts max_message_bytes now =
      (if length stream < 4 then ([], p)
       else if ?n > max_message_bytes then ([], if m_drop_log p then log_oversize_drop p now else p)
       else (take ?n (drop 4 stream), p))"
    by (simp only: join_parts_def Let_def len pfx n)
  with assms(2) show ?thesis
    by simp
qed

lemma build_msg_spec:
  assumes "readable im data_count" "stream = stream_of (used_parts im data_count)" "4 \<le> length stream"
  shows "build_msg p im data_count max_message_bytes now =
    Inr (if prefix_length stream > max_message_bytes
     then ([], if m_drop_log p then log_oversize_drop p now else p)
     else (take (prefix_length stream) (drop 4 stream), p))"
  unfolding build_msg_def read_parts_readable [OF assms(1)] by (simp add: join_parts_spec [OF assms(2,3)])

section \<open>Well-formed entries are never read out of range\<close>

definition entry_ok :: "incoming_message \<Rightarrow> bool" where
  "entry_ok im \<longleftrightarrow> length (im_fragments im) = unat (im_total_count im) \<and>
    length (im_sizes im) = unat (im_total_count im) \<and> im_data_count im \<le> im_total_count im"

definition entries_ok :: "peer \<Rightarrow> bool" where
  "entries_ok p \<longleftrightarrow> (\<forall>e\<in>set (m_incoming p). entry_ok (snd e))"

lemma incoming_unchanged [simp]:
  "m_incoming (account_late p t rtt mult buf) = m_incoming p"
  "m_incoming (log_oversize_drop p now) = m_incoming p"
  "m_incoming (account_frame p tick fb unix) = m_incoming p"
  "m_completed (account_late p t rtt mult buf) = m_completed p"
  "m_completed (log_oversize_drop p now) = m_completed p"
  "m_completed (account_frame p tick fb unix) = m_completed p"
  by (simp_all add: account_late_def log_oversize_drop_def account_frame_def Let_def)

lemma note_gap_incoming [simp]:
  "m_incoming (foldl (note_gap now ch) p gs) = m_incoming p"
  "m_completed (foldl (note_gap now ch) p gs) = m_completed p"
  by (induction gs arbitrary: p) (simp_all add: note_gap_def)

lemma track_seq_incoming [simp]:
  "m_incoming (track_seq p seq ch now) = m_incoming p"
  "m_completed (track_seq p seq ch now) = m_completed p"
  by (simp_all add: track_seq_def receive_seq_def Let_def split: prod.splits)

lemma build_msg_incoming:
  assumes "readable im n"
  obtains msg q where "build_msg p im n bound now = Inr (msg, q)" "m_incoming q = m_incoming p"
    "m_completed q = m_completed p"
proof
  show "build_msg p im n bound now = Inr (fst (join_parts p (used_parts im n) bound now),
      snd (join_parts p (used_parts im n) bound now))"
    by (simp add: build_msg_def read_parts_readable [OF assms])
qed (simp_all add: join_parts_def Let_def)

text \<open>A successful decoding leaves no data fragment missing, so all of them can be read afterwards.\<close>

lemma rs_decode_complete_data:
  assumes "rs_decode d parity width = (True, d')"
  shows "length d' = length d" "i < length d \<Longrightarrow> d' ! i \<noteq> None"
proof -
  let ?ms = "missing_indices d"
  have "length d' = length d \<and> (\<forall>i<length d. d' ! i \<noteq> None)"
  proof (cases "?ms = []")
    case True
    moreover have "d ! i \<noteq> None" if "i < length d" for i
      using missing_indices(2) [of d] that True by auto
    ultimately show ?thesis
      using assms by (auto simp: rs_decode_def)
  next
    case False
    have enough: "length ?ms \<le> length parity"
      using rs_decode_true_enough [of d parity width] assms by simp
    obtain syn where d': "d' = foldl (\<lambda>d' c. d'[?ms ! c := Some (syn ! c)]) d [0..<length ?ms]"
      using assms rs_decode_cases [OF False enough, of width] by (auto split: option.splits)
    have "set ?ms \<subseteq> {..<length d}"
      by (auto simp: missing_indices(2))
    note fill = fill_missing [OF missing_indices(1) this order_refl, of "\<lambda>c. Some (syn ! c)", folded d']
    have "d' ! i \<noteq> None" if "i < length d" for i
    proof (cases "i \<in> set ?ms")
      case True
      with fill show ?thesis
        by (auto simp: in_set_conv_nth)
    next
      case False
      with fill that show ?thesis
        by (simp add: missing_indices(2))
    qed
    with fill show ?thesis
      by simp
  qed
  then show "length d' = length d" "i < length d \<Longrightarrow> d' ! i \<noteq> None"
    by simp_all
qed

lemma backfill_ok: "entry_ok im \<Longrightarrow> entry_ok (backfill im frags width n)"
proof -
  have "entry_ok (foldl (\<lambda>im i. if im_fragments im ! i = None \<and> frags ! i \<noteq> None
        then im\<lparr> im_fragments := (im_fragments im)[i := frags ! i],
          im_sizes := (im_sizes im)[i := word_of_nat width] \<rparr>
        else im) im xs)" if "entry_ok im" for xs
    using that by (induction xs arbitrary: im) (simp_all add: entry_ok_def)
  then show "entry_ok im \<Longrightarrow> ?thesis"
    by (simp add: backfill_def)
qed

lemma backfill_upto:
  assumes "length (im_sizes im) = length (im_fragments im)" "m \<le> length (im_fragments im)"
  shows "let q = backfill im frags width m in
    length (im_fragments q) = length (im_fragments im) \<and> length (im_sizes q) = length (im_fragments im) \<and>
    (\<forall>i<length (im_fragments im).
      (if i < m \<and> im_fragments im ! i = None \<and> frags ! i \<noteq> None
       then im_fragments q ! i = frags ! i \<and> im_sizes q ! i = word_of_nat width
       else im_fragments q ! i = im_fragments im ! i \<and> im_sizes q ! i = im_sizes im ! i))"
  using assms(2)
proof (induction m)
  case 0
  with assms(1) show ?case
    by (simp add: backfill_def)
next
  case (Suc m)
  define q where "q = backfill im frags width m"
  have "backfill im frags width (Suc m) = (if im_fragments q ! m = None \<and> frags ! m \<noteq> None
      then q\<lparr> im_fragments := (im_fragments q)[m := frags ! m], im_sizes := (im_sizes q)[m := word_of_nat width] \<rparr>
      else q)"
    by (simp add: backfill_def q_def)
  then show ?case
    using Suc unfolding q_def [symmetric] by (auto simp: Let_def nth_list_update less_Suc_eq)
qed

lemma backfill_readable:
  assumes "length (im_sizes im) = length (im_fragments im)" "n \<le> length (im_fragments im)"
    and "\<And>i. i < n \<Longrightarrow> frags ! i \<noteq> None"
  shows "readable (backfill im frags width n) n"
proof -
  have "im_fragments (backfill im frags width n) ! i \<noteq> None" if "i < n" for i
    using backfill_upto [OF assms(1,2), of frags width] assms(2) assms(3) [OF that] that
    by (auto simp: Let_def split: if_splits dest!: spec [of _ i])
  then show ?thesis
    using backfill_upto [OF assms(1,2), of frags width] assms(2) by (simp add: readable_def Let_def)
qed

lemma assemble_complete_ok:
  assumes "entry_ok im" "readable im n"
  shows "\<exists>b p' im' evs. assemble_complete p im n bound now unix = Inr (b, p', im', evs) \<and>
      entry_ok im' \<and> m_incoming p' = m_incoming p \<and> m_completed p' = m_completed p"
proof -
  obtain msg q where "build_msg p im n bound now = Inr (msg, q)" "m_incoming q = m_incoming p"
    "m_completed q = m_completed p"
    by (rule build_msg_incoming [OF assms(2)])
  with assms(1) show ?thesis
    by (auto simp: assemble_complete_def)
qed

lemma assemble_recover_ok:
  assumes "entry_ok im" "n \<le> length (im_fragments im)"
  shows "\<exists>b p' im' evs. assemble_recover p im n k multi bound now = Inr (b, p', im', evs) \<and>
      entry_ok im' \<and> m_incoming p' = m_incoming p \<and> m_completed p' = m_completed p"
proof -
  let ?w = "max_width (im_fragments im)" and ?ps = "received_parities (im_fragments im) n k"
  obtain ok d where d: "rs_decode (take n (im_fragments im)) ?ps ?w = (ok, d)"
    by fastforce
  show ?thesis
  proof (cases ok)
    case True
    have "readable (backfill im d ?w n) n"
    proof (rule backfill_readable)
      show "length (im_sizes im) = length (im_fragments im)"
        using assms(1) by (simp add: entry_ok_def)
      show "d ! i \<noteq> None" if "i < n" for i
        using rs_decode_complete_data(2) [of _ _ _ d i] d True that assms(2) by auto
    qed (rule assms(2))
    then obtain msg q where "build_msg p (backfill im d ?w n) n bound now = Inr (msg, q)"
      "m_incoming q = m_incoming p" "m_completed q = m_completed p"
      by (rule build_msg_incoming)
    with assms(1) d True backfill_ok [OF assms(1)] show ?thesis
      by (auto simp: assemble_recover_def Let_def)
  next
    case False
    with assms(1) d show ?thesis
      by (auto simp: assemble_recover_def Let_def)
  qed
qed

lemma all_filter_readable:
  assumes "entry_ok im" "n \<le> length (im_fragments im)"
    and "length (filter (\<lambda>i. im_fragments im ! i \<noteq> None) [0..<n]) = n"
  shows "readable im n"
proof -
  have "filter (\<lambda>i. im_fragments im ! i \<noteq> None) [0..<n] = [0..<n]"
    using assms(3) by (metis (no_types, lifting) diff_zero filter_id_conv length_filter_less length_upt less_irrefl)
  then have "\<forall>i\<in>set [0..<n]. im_fragments im ! i \<noteq> None"
    by (simp only: filter_id_conv)
  with assms(1,2) show ?thesis
    by (simp add: readable_def entry_ok_def)
qed

lemma try_assemble_ok:
  assumes "entry_ok im"
  shows "\<exists>b p' im' evs. try_assemble p im bound wait now unix = Inr (b, p', im', evs) \<and>
    entry_ok im' \<and> m_incoming p' = m_incoming p \<and> m_completed p' = m_completed p"
proof -
  let ?dc = "if im_data_count im > 0 then unat (im_data_count im) else unat (im_total_count im) - 1"
  define n where "n = ?dc"
  have dc: "n \<le> length (im_fragments im)"
    using assms by (auto simp: n_def entry_ok_def word_le_nat_alt)
  then have "\<not> n > length (im_fragments im)"
    by simp
  then show ?thesis
    using assms assemble_complete_ok [OF assms all_filter_readable [OF assms dc], where p = p and bound = bound and now = now and unix = unix]
      assemble_recover_ok [OF assms dc, where p = p and bound = bound and now = now]
    unfolding try_assemble_def Let_def n_def [symmetric]
    by (simp only: if_False) (auto split: if_split)
qed

lemma entries_okI: "entries_ok p \<Longrightarrow> m_incoming q = m_incoming p \<Longrightarrow> entries_ok q"
  by (simp add: entries_ok_def)

lemma entries_ok_put:
  "entries_ok p \<Longrightarrow> entry_ok im \<Longrightarrow> m_incoming q = om_put k im (m_incoming p) \<Longrightarrow> entries_ok q"
  using set_om_put_subset [of k im "m_incoming p"] by (auto simp: entries_ok_def)

lemma open_entry_ok:
  assumes "entries_ok p" "h_flags header \<le> h_fragment_count header"
  shows "entry_ok (open_entry p header now)"
proof (cases "map_of (m_incoming p) (h_message_id header)")
  case None
  with assms(2) show ?thesis
    by (simp add: open_entry_def Let_def entry_ok_def zero_incoming_def)
next
  case (Some im)
  then have "entry_ok im"
    using assms(1) map_of_SomeD [OF Some] by (force simp: entries_ok_def)
  with Some assms(2) show ?thesis
    by (simp add: open_entry_def Let_def) (simp add: entry_ok_def)
qed

text \<open>The two guards of \<open>handle_data\<close> make the position of the fragment valid.\<close>

lemma store_fragment_ok:
  assumes "entry_ok im" "unat (h_fragment_index header) < length (im_fragments im)"
  obtains im' where "store_fragment im header payload = Inr im'" "entry_ok im'"
proof (cases "im_fragments im ! unat (h_fragment_index header) = None")
  case True
  then have "store_fragment im header payload = Inr (im\<lparr>
      im_fragments := (im_fragments im)[unat (h_fragment_index header) := Some payload],
      im_sizes := (im_sizes im)[unat (h_fragment_index header) := h_reserved header AND kRealSizeMask] \<rparr>)"
    using assms by (simp add: store_fragment_def Let_def entry_ok_def)
  then show ?thesis
    by (rule that) (use assms(1) in \<open>simp add: entry_ok_def\<close>)
next
  case False
  then obtain f where "im_fragments im ! unat (h_fragment_index header) = Some f"
    by blast
  with assms show ?thesis
    by (intro that [of im]) (simp_all add: store_fragment_def Let_def)
qed

text \<open>
  C9: a packet whose data-fragment count does not exceed its fragment count is always
  handled without an access outside the vectors of an entry and without reading a fragment that
  is not there: storing the fragment, counting, rebuilding the message and writing recovered
  fragments back all stay in range, whatever the packets before it were, as long as they met the
  same condition; and every stored entry keeps its vectors as long as its fragment count.
\<close>

theorem handle_data_in_bounds:
  assumes "entries_ok p" "h_flags header \<le> h_fragment_count header"
  shows "\<exists>p' evs. handle_data p header payload rtt mult buf bound ri now unix now2 unix2 = Inr (p', evs) \<and>
    entries_ok p'"
proof -
  define p1 where "p1 = track_seq (account_late p (transit_time_us p (h_tick header) unix) rtt mult buf)
    (h_sequence header) (channel_of (h_reserved header)) now"
  have p1: "m_incoming p1 = m_incoming p" "entries_ok p1"
    using assms(1) by (simp_all add: p1_def entries_ok_def)
  define im where "im = open_entry p1 header now"
  have im: "entry_ok im"
    using open_entry_ok [OF p1(2) assms(2)] by (simp add: im_def)
  define k where "k = h_message_id header"
  define p2 where "p2 = p1\<lparr> m_incoming := om_put k im (m_incoming p1) \<rparr>"
  have p2: "entries_ok p2"
    using entries_ok_put [OF p1(2) im, of p2 k] by (simp add: p2_def)
  note folds = handle_data_def [unfolded Let_def, of p header payload rtt mult buf bound ri now unix now2 unix2,
      folded p1_def, folded im_def k_def, folded p2_def]
  show ?thesis
  proof (cases "unat (h_fragment_index header) < length (im_fragments im)")
    case True
    obtain im2 where im2: "store_fragment im header payload = Inr im2" "entry_ok im2"
      by (rule store_fragment_ok [OF im True])
    define p3 where "p3 = p2\<lparr> m_incoming := om_put k im2 (m_incoming p2) \<rparr>"
    have p3: "entries_ok p3"
      using entries_ok_put [OF p2 im2(2), of p3 k] by (simp add: p3_def)
    define wait where "wait = loss_wait_for p3 (channel_of (h_reserved header)) rtt ri"
    obtain b p4 im4 evs where t: "try_assemble p3 im2 bound wait now2 unix2 = Inr (b, p4, im4, evs)"
      "entry_ok im4" "m_incoming p4 = m_incoming p3"
      using try_assemble_ok [OF im2(2)] by blast
    define p5 where "p5 = p4\<lparr> m_incoming := om_put k im4 (m_incoming p4) \<rparr>"
    have p5: "entries_ok p5"
      using entries_ok_put [OF entries_okI [OF p3 t(3)] t(2)] by (simp add: p5_def)
    have "entries_ok (p5\<lparr> m_completed := c, m_incoming := om_del k (m_incoming p5) \<rparr>)" for c
      using p5 by (auto simp: entries_ok_def set_om_del)
    then show ?thesis
      unfolding folds im2(1) sum.case p3_def [symmetric] wait_def [symmetric] t(1)
      using p1 p2 p5 by (auto simp: p5_def [symmetric] entries_ok_def split: if_split)
  next
    case False
    then show ?thesis
      unfolding folds using p1 p2 by (auto simp: entries_ok_def not_less split: if_split)
  qed
qed

lemma handle_data_in_bounds_witness:
  "\<exists>p' evs. handle_data new_peer (zero_header\<lparr> h_flags := 2, h_fragment_count := 3, h_message_id := 1 \<rparr>) [9]
     0 4 16 65536 (ms 1000) 0 0 0 0 = Inr (p', evs) \<and> entries_ok p'"
  by (rule handle_data_in_bounds) (simp_all add: entries_ok_def new_peer_def zero_header_def)

text \<open>
  C19: a first fragment that claims more data fragments than fragments reads the fragment
  vector past its end. Nothing between the datagram's header and this read checks the claim.
\<close>

theorem handle_data_reads_out_of_bounds:
  assumes "h_fragment_count header < h_flags header" "h_fragment_index header < h_fragment_count header"
    and "unat (h_fragment_count header) \<le> bound div 64 + 8"
    and "map_of (m_incoming p) (h_message_id header) = None" "map_of (m_completed p) (h_message_id header) = None"
  shows "handle_data p header payload rtt mult buf bound ri now unix now2 unix2 = Inl OutOfBounds"
proof -
  have cnt: "h_fragment_count header \<noteq> 0" "h_flags header > 0" "1 \<le> h_fragment_count header"
    using assms(1,2) by (auto simp: word_less_nat_alt word_le_nat_alt)
  have "unat (h_fragment_count header) < unat (h_flags header)"
    "unat (h_fragment_index header) < unat (h_fragment_count header)"
    using assms(1,2) by (simp_all add: word_less_nat_alt)
  with assms cnt show ?thesis
    by (simp add: handle_data_def Let_def open_entry_def store_fragment_def try_assemble_def zero_incoming_def)
qed

lemma handle_data_reads_out_of_bounds_witness:
  "handle_data new_peer (zero_header\<lparr> h_flags := 100, h_fragment_count := 1, h_message_id := 1 \<rparr>) [9]
     0 4 16 65536 (ms 1000) 0 0 0 0 = Inl OutOfBounds"
  by (rule handle_data_reads_out_of_bounds) (simp_all add: new_peer_def zero_header_def)

end
