(* ===== verification/Fragmenter.thy ===== *)
theory Fragmenter
  imports Peer Reed_Solomon
begin

text \<open>
  The sender's fragmentation of messages, \<open>fragmenter.cpp\<close>: message identifiers, the adaptive
  amount of parity, the length prefix and the cut into fragments. The callback
  \<open>send_fragment\<close> is a list of calls. \<open>std::log2\<close> is the argument \<open>log2\<close>: the language
  leaves its rounding open, and every bound proved here holds for any value it returns.
\<close>

section \<open>Parity count\<close>

definition kFecSafetyCoefficient :: double where "kFecSafetyCoefficient = rnd64 (12 / 10)"

text \<open>\<open>static_cast<std::uint16_t>(std::ceil(x))\<close>.\<close>

definition ceil16 :: "double \<Rightarrow> u16" where "ceil16 x = word_of_int \<lceil>x\<rceil>"

definition compute_parity_count_for :: "(double \<Rightarrow> double) \<Rightarrow> double \<Rightarrow> nat \<Rightarrow> u8 \<Rightarrow> u16" where
  "compute_parity_count_for log2 late_ratio data_count stage =
    (if stage = 0 then 0
     else if stage = 1 then 1
     else if late_ratio \<le> rnd64 (1 / 10000) \<or> late_ratio \<ge> rnd64 (9999 / 10000) then 1
     else
       let q = fsub 1 late_ratio;
           h = fsub (fmul (- late_ratio) (log2 late_ratio)) (fmul q (log2 q));
           redundancy = max (fmul h kFecSafetyCoefficient) late_ratio;
           p = ceil16 (fmul (fof (int data_count)) redundancy);
           p = (if p < 1 then 1 else p);
           cap = (word_of_nat (max 1 (nat \<lceil>fmul (fof (int data_count)) (rnd64 (20 / 100))\<rceil>)) :: u16);
           p = (if p > cap then cap else p)
       in if p > 100 then 100 else p)"

text \<open>The stage with hysteresis.\<close>

definition next_stage :: "u8 \<Rightarrow> double \<Rightarrow> u8" where
  "next_stage stage late_ratio =
    (if stage = 0 then (if late_ratio > rnd64 (3 / 1000) then 1 else stage)
     else if stage = 1 then
       (if late_ratio > rnd64 (12 / 1000) then 2
        else if late_ratio \<le> 0 then 0 else stage)
     else (if late_ratio < rnd64 (8 / 1000) then 1 else stage))"

definition adaptive_parity :: "(double \<Rightarrow> double) \<Rightarrow> peer \<Rightarrow> double \<Rightarrow> nat \<Rightarrow> u16 \<times> peer" where
  "adaptive_parity log2 p late_ratio data_count =
    (if m_fec_disable p then (0, p)
     else if \<not> m_have_late_report p then (2, p)
     else
       let p = p\<lparr> m_fec_stage := next_stage (m_fec_stage p) late_ratio \<rparr>
       in (compute_parity_count_for log2 late_ratio data_count (m_fec_stage p), p))"

section \<open>Message identifiers\<close>

lemma mask31: "out AND 0x7FFFFFFF = take_bit 31 out" for out :: u32
  by (simp add: take_bit_eq_mask mask_eq_exp_minus_1)

lemma unat_take31: "unat (take_bit 31 out) = unat out mod 2 ^ 31" for out :: u32
  by (subst unsigned_take_bit_eq) (simp only: take_bit_eq_mod)

lemma unat_mask31: "unat (x AND 0x7FFFFFFF) = unat x mod 2147483648" for x :: u32
  using unat_take31 [of x] by (simp add: mask31)

lemma unat_succ32: "unat (x + 1) = (unat x + 1) mod 4294967296" for x :: u32
  by (simp add: unat_word_ariths)

lemma mask31_zero_succ: "(out + 1) AND 0x7FFFFFFF = 1" if "out AND 0x7FFFFFFF = 0" for out :: u32
proof -
  have "unat out mod 2147483648 = 0"
    using unat_mask31 [of out] that by simp
  then have "unat ((out + 1) AND 0x7FFFFFFF) = 1"
    unfolding unat_mask31 unat_succ32 by (auto simp: mod_mod_cancel mod_Suc)
  then show ?thesis
    by (simp add: word_unat_eq_iff)
qed

text \<open>\<open>do msg_id = m_msg_id_out++ & 0x7FFFFFFF; while (msg_id == 0)\<close>: the identifier and the counter.\<close>

function next_msg_id :: "u32 \<Rightarrow> u32 \<times> u32" where
  "next_msg_id out =
    (let msg_id = out AND 0x7FFFFFFF; out = out + 1
     in if msg_id = 0 then next_msg_id out else (msg_id, out))"
  by auto

termination
  by (relation "measure (\<lambda>out. if out AND 0x7FFFFFFF = 0 then 1 else 0)") (auto simp: mask31_zero_succ)

declare next_msg_id.simps [simp del]

section \<open>Fragments\<close>

record fragment_call =
  fc_msg_id :: u32
  fc_idx :: u16
  fc_cnt :: u16
  fc_data_cnt :: u16
  fc_real_size :: u16
  fc_data :: bytes
  fc_width :: nat
  fc_ackable :: bool

definition fragment_payload :: "nat \<Rightarrow> nat" where
  "fragment_payload mtu =
    (let frag_payload = (if mtu > kHeaderSize then mtu - kHeaderSize else 64)
     in if frag_payload \<le> 4 then 64 else frag_payload)"

text \<open>The length prefix and the payload in one buffer.\<close>

definition full_buffer :: "bytes \<Rightarrow> bytes" where
  "full_buffer payload =
    (let total_be = to_be32 (word_of_nat (length payload));
         full = replicate (4 + length payload) 0
     in blit 4 payload (blit 0 (mem32 total_be) full))"

definition cut_spans :: "bytes \<Rightarrow> nat \<Rightarrow> nat \<Rightarrow> bytes list" where
  "cut_spans full frag_payload data_count =
    map (\<lambda>i. let off = i * frag_payload; len = min frag_payload (length full - off)
      in take len (drop off full)) [0..<data_count]"

definition fec_stats :: "peer \<Rightarrow> u64 \<Rightarrow> nat \<Rightarrow> u16 \<Rightarrow> peer" where
  "fec_stats p now_ms data_count parity_count =
    (let ts = m_fec_stat_ts p;
         p = (if ts = 0 \<or> now_ms - ts > 1000
              then p\<lparr> m_fec_stat_ts := now_ms, m_fec_data_pkts := 0, m_fec_parity_pkts := 0 \<rparr> else p);
         p = p\<lparr> m_fec_data_pkts := m_fec_data_pkts p + word_of_nat data_count \<rparr>
     in if parity_count > 0 then p\<lparr> m_fec_parity_pkts := m_fec_parity_pkts p + ucast parity_count \<rparr> else p)"

definition fragment_and_send :: "(double \<Rightarrow> double) \<Rightarrow> peer \<Rightarrow> bytes \<Rightarrow> nat \<Rightarrow> u16 \<Rightarrow> u16 \<Rightarrow> u64 \<Rightarrow> bytes list \<Rightarrow>
    peer \<times> bytes list \<times> fragment_call list" where
  "fragment_and_send log2 p payload mtu channel_fec_extra probe_extra_parity now_ms parities =
    (let width = fragment_payload mtu;
         (msg_id, out) = next_msg_id (m_msg_id_out p);
         p = p\<lparr> m_msg_id_out := out \<rparr>;
         late_ratio = m_peer_late_ratio p;
         full = full_buffer payload;
         data_count = (length full + width - 1) div width;
         data_count = (if data_count = 0 then 1 else data_count);
         (parity_count, p) = adaptive_parity log2 p late_ratio data_count;
         parity_count = parity_count + channel_fec_extra + probe_extra_parity;
         parity_count = (if unat parity_count > data_count then word_of_nat data_count else parity_count);
         spans = cut_spans full width data_count;
         parities = encode_into spans (unat parity_count) width parities;
         p = fec_stats p now_ms data_count parity_count;
         cnt = word_of_nat (data_count + unat parity_count); d_cnt = word_of_nat data_count
     in (p, parities,
         map (\<lambda>i. \<lparr> fc_msg_id = msg_id, fc_idx = word_of_nat i, fc_cnt = cnt, fc_data_cnt = d_cnt,
             fc_real_size = word_of_nat (length (spans ! i)), fc_data = spans ! i, fc_width = width,
             fc_ackable = True \<rparr>) [0..<data_count] @
         map (\<lambda>q. \<lparr> fc_msg_id = msg_id, fc_idx = word_of_nat (data_count + q), fc_cnt = cnt,
             fc_data_cnt = d_cnt, fc_real_size = word_of_nat width, fc_data = take width (parities ! q),
             fc_width = width, fc_ackable = True \<rparr>) [0..<unat parity_count]))"

section \<open>Fresh identifiers\<close>

lemma next_msg_id_cases:
  "next_msg_id out = (if out AND 0x7FFFFFFF = 0 then (1, out + 2) else (out AND 0x7FFFFFFF, out + 1))"
proof (cases "out AND 0x7FFFFFFF = 0")
  case True
  have "next_msg_id out = next_msg_id (out + 1)"
    by (subst next_msg_id.simps) (simp add: True)
  also have "\<dots> = (1, out + 1 + 1)"
    by (subst next_msg_id.simps) (simp add: mask31_zero_succ [OF True])
  finally show ?thesis
    using True by (simp add: add.assoc)
next
  case False
  then show ?thesis
    by (subst next_msg_id.simps) simp
qed

text \<open>The identifiers of consecutive messages.\<close>

primrec msg_counter :: "u32 \<Rightarrow> nat \<Rightarrow> u32" where
  "msg_counter out 0 = out"
| "msg_counter out (Suc n) = snd (next_msg_id (msg_counter out n))"

definition msg_id_at :: "u32 \<Rightarrow> nat \<Rightarrow> u32" where
  "msg_id_at out n = fst (next_msg_id (msg_counter out n))"

lemma next_msg_id_step:
  "unat (fst (next_msg_id (snd (next_msg_id out)))) = unat (fst (next_msg_id out)) mod 2147483647 + 1"
proof -
  define a where "a = unat out"
  define m where "m = (unat out) mod 2147483648"
  have zero: "x AND 0x7FFFFFFF = 0 \<longleftrightarrow> unat x mod 2147483648 = 0" for x :: u32
    using unat_mask31 [of x] by (metis unat_0 unat_eq_zero)
  have m: "m < 2147483648"
    by (simp add: m_def)
  have s1: "unat (out + 1) mod 2147483648 = (m + 1) mod 2147483648"
    unfolding unat_succ32 m_def by (simp add: mod_mod_cancel mod_simps)
  have s2: "unat (out + 2) mod 2147483648 = (m + 2) mod 2147483648"
    unfolding m_def by (simp add: unat_word_ariths mod_mod_cancel mod_simps)
  have e: "fst (next_msg_id x) = (if unat x mod 2147483648 = 0 then 1 else x AND 0x7FFFFFFF)"
    "snd (next_msg_id x) = (if unat x mod 2147483648 = 0 then x + 2 else x + 1)" for x
    by (simp_all add: next_msg_id_cases zero)
  show ?thesis
  proof (cases "m = 0")
    case True
    then show ?thesis
      using s2 by (simp add: e m_def [symmetric] unat_mask31)
  next
    case False
    then have "unat (fst (next_msg_id (snd (next_msg_id out)))) = (if m + 1 = 2147483648 then 1 else m + 1)"
      using s1 m by (auto simp: e m_def [symmetric] unat_mask31)
    moreover have "unat (fst (next_msg_id out)) = m"
      using False by (simp add: e m_def [symmetric] unat_mask31)
    ultimately show ?thesis
      using m False by (cases "m = 2147483647") auto
  qed
qed

lemma msg_id_bounds: "0 < unat (fst (next_msg_id out))" "unat (fst (next_msg_id out)) \<le> 2147483647"
proof -
  have zero: "out AND 0x7FFFFFFF = 0 \<longleftrightarrow> unat (out AND 0x7FFFFFFF) = 0"
    by (metis unat_0 unat_eq_zero)
  show "0 < unat (fst (next_msg_id out))"
    using zero by (auto simp: next_msg_id_cases)
  show "unat (fst (next_msg_id out)) \<le> 2147483647"
    using unat_mask31 [of out] mod_less_divisor [of 2147483648 "unat out"]
    by (auto simp: next_msg_id_cases)
qed

lemma msg_id_at_formula:
  "unat (msg_id_at out n) = (unat (msg_id_at out 0) - 1 + n) mod 2147483647 + 1"
proof (induction n)
  case 0
  show ?case
    using msg_id_bounds [of out] by (simp add: msg_id_at_def)
next
  case (Suc n)
  have "unat (msg_id_at out (Suc n)) = unat (msg_id_at out n) mod 2147483647 + 1"
    using next_msg_id_step [of "msg_counter out n"] by (simp add: msg_id_at_def)
  with Suc show ?case
    by (simp add: mod_simps)
qed

text \<open>
  C13: identifiers are never 0, never have the top bit, and do not repeat within any
  2147483647 consecutive messages; after exactly that many they do.
\<close>

theorem message_ids_fresh:
  "0 < unat (msg_id_at out n) \<and> unat (msg_id_at out n) < 2 ^ 31 \<and>
   (msg_id_at out n = msg_id_at out (n + k) \<longleftrightarrow> 2147483647 dvd k)"
proof -
  let ?a = "unat (msg_id_at out 0) - 1 + n"
  have "msg_id_at out n = msg_id_at out (n + k) \<longleftrightarrow> unat (msg_id_at out n) = unat (msg_id_at out (n + k))"
    by (simp add: word_unat_eq_iff)
  also have "\<dots> \<longleftrightarrow> ?a mod 2147483647 = (?a + k) mod 2147483647"
    by (simp add: msg_id_at_formula [of out n] msg_id_at_formula [of out "n + k"] add.assoc)
  also have "\<dots> \<longleftrightarrow> 2147483647 dvd k"
    by (metis add_diff_cancel_left' le_add1 mod_eq_dvd_iff_nat)
  finally show ?thesis
    using msg_id_bounds [of "msg_counter out n"] by (simp add: msg_id_at_def)
qed

section \<open>Bounds of the parity count\<close>

lemma fifth: "rnd64 (20 / 100) = 3602879701896397 / 18014398509481984"
  by code_simp

text \<open>
  A fifth of the fragments, rounded up in binary64, is a fifth rounded up: the constant lies a
  little above 1/5, but not enough to take a multiple of five past its fifth.
\<close>

lemma fifth_below: "n \<le> 65535 \<Longrightarrow> nat \<lceil>fmul (fof (int n)) (rnd64 (20 / 100))\<rceil> \<le> n div 5 + 1"
proof -
  assume n: "n \<le> 65535"
  have "of_nat n * rnd64 (20 / 100) \<le> of_nat n * (3602879701896397 / 18014398509481984 :: rat)"
    by (simp only: fifth order_refl)
  also have "\<dots> \<le> of_int (int (n div 5) + 1)"
  proof -
    define q where "q = n div 5"
    have "n \<le> 5 * q + 4" "q \<le> 13107"
      using n by (auto simp: q_def)
    then have "n * 3602879701896397 \<le> (5 * q + 4) * 3602879701896397"
      by (intro mult_right_mono) simp_all
    also have "\<dots> \<le> (q + 1) * 18014398509481984"
      using \<open>q \<le> 13107\<close> by (simp add: algebra_simps)
    finally have "n * 3602879701896397 \<le> (n div 5 + 1) * 18014398509481984"
      by (simp only: q_def)
    then have "of_nat (n * 3602879701896397) \<le> (of_nat ((n div 5 + 1) * 18014398509481984) :: rat)"
      by (rule of_nat_mono)
    then have "of_nat n * 3602879701896397 \<le> (of_int (int (n div 5) + 1) * 18014398509481984 :: rat)"
      by (simp only: of_nat_mult of_nat_numeral of_nat_add of_nat_1 of_int_add of_int_of_nat_eq of_int_1)
    then show ?thesis
      by (simp only: times_divide_eq_right pos_divide_le_eq zero_less_numeral)
  qed
  finally have "fmul (fof (int n)) (rnd64 (20 / 100)) \<le> of_int (int (n div 5) + 1)"
    using n by (simp only: fmul_def, intro r64.rnd_le_int) (simp_all add: fof_exact)
  then have "\<lceil>fmul (fof (int n)) (rnd64 (20 / 100))\<rceil> \<le> int (n div 5) + 1"
    by (simp only: ceiling_le_iff)
  then show ?thesis
    by linarith
qed

lemma fifth_of:
  assumes "n \<le> 65535"
  shows "nat \<lceil>fmul (fof (int n)) (rnd64 (20 / 100))\<rceil> \<le> (n + 4) div 5"
proof (cases "n mod 5 = 0")
  case True
  then obtain q where q: "n = 5 * q"
    by auto
  have x: "of_nat n * rnd64 (20 / 100) = (of_int (int q) * (1 + 1 / 2 ^ 54) :: rat)"
    unfolding q fifth by simp
  have "rnd64 (of_int (int q) * (1 + 1 / 2 ^ 54)) = of_int (int q)"
  proof (cases "q = 0")
    case False
    show ?thesis
      by (rule rnd64_just_above) (use False assms q in \<open>simp_all add: mult_le_cancel_left1\<close>)
  qed simp
  then have "fmul (fof (int n)) (rnd64 (20 / 100)) = of_int (int q)"
    using assms unfolding x [symmetric] fmul_def by (simp only: fof_exact abs_of_nat of_int_of_nat_eq) (simp add: fof_exact)
  then show ?thesis
    by (simp add: q)
next
  case False
  then have "n div 5 + 1 = (n + 4) div 5"
    by presburger
  then show ?thesis
    using fifth_below [OF assms] by simp
qed

text \<open>
  C14: the adaptive redundancy is bounded, whatever the reported ratio and whatever the
  logarithm returns: none at stage 0, one parity at stage 1, and at stage 2 at least one and
  at most a fifth of the data fragments rounded up (one, when there is no data fragment), and
  never more than 100.
\<close>

theorem parity_count_bounds:
  fixes log2 :: "double \<Rightarrow> double" and late_ratio :: double and n :: nat and stage :: u8
  assumes "n \<le> 65535"
  defines "k \<equiv> unat (compute_parity_count_for log2 late_ratio n stage)"
  shows "(stage = 0 \<longrightarrow> k = 0) \<and> (stage = 1 \<longrightarrow> k = 1) \<and> (stage > 1 \<longrightarrow> 1 \<le> k \<and> k \<le> max 1 ((n + 4) div 5) \<and> k \<le> 100)"
proof (cases "stage = 0 \<or> stage = 1 \<or> late_ratio \<le> rnd64 (1 / 10000) \<or> late_ratio \<ge> rnd64 (9999 / 10000)")
  case True
  then show ?thesis
    by (auto simp: k_def compute_parity_count_for_def)
next
  case False
  define cap where "cap = max 1 (nat \<lceil>fmul (fof (int n)) (rnd64 (20 / 100))\<rceil>)"
  have cap: "1 \<le> cap" "cap \<le> max 1 ((n + 4) div 5)"
    using fifth_of [OF assms(1)] by (auto simp: cap_def)
  then have "cap < 65536"
    using assms(1) by linarith
  then have c16: "unat (word_of_nat cap :: u16) = cap"
    by (simp add: unat_of_nat take_bit_nat_eq_self_iff)
  have clamp: "1 \<le> unat r \<and> unat r \<le> cap \<and> unat r \<le> 100"
    if "r = (let p = (if x < 1 then 1 else x); p = (if p > word_of_nat cap then word_of_nat cap else p)
      in if p > 100 then 100 else p)" for r x :: u16
    using that c16 cap(1) by (auto simp: Let_def word_less_nat_alt not_less)
  have "1 \<le> k \<and> k \<le> cap \<and> k \<le> 100"
    unfolding k_def using False
    by (intro clamp) (simp only: compute_parity_count_for_def Let_def cap_def [symmetric] de_Morgan_disj if_False simp_thms)
  with cap False show ?thesis
    by auto
qed

lemma parity_count_bounds_witness:
  "1 \<le> unat (compute_parity_count_for (\<lambda>x. x - 1) (1 / 2) 10 2) \<and>
   unat (compute_parity_count_for (\<lambda>x. x - 1) (1 / 2) 10 2) \<le> 2"
  using parity_count_bounds [of 10 2 "\<lambda>x. x - 1" "1 / 2"] by simp

text \<open>
  The hysteresis does not oscillate. Under a constant late ratio the stage settles after
  at most two messages, and it is always one of 0, 1 and 2.
\<close>

theorem stage_settles:
  "(2 \<le> n \<longrightarrow> ((\<lambda>s. next_stage s r) ^^ n) stage = ((\<lambda>s. next_stage s r) ^^ 2) stage) \<and>
   (stage \<le> 2 \<longrightarrow> next_stage stage r \<le> 2)"
proof -
  have c: "rnd64 (8 / 1000) < rnd64 (12 / 1000)" "rnd64 (3 / 1000) < rnd64 (8 / 1000)" "0 < rnd64 (3 / 1000)"
    by code_simp+
  have fix2: "next_stage (next_stage (next_stage s r) r) r = next_stage (next_stage s r) r" for s
    using c by (auto simp: next_stage_def)
  have "((\<lambda>s. next_stage s r) ^^ (2 + m)) stage = ((\<lambda>s. next_stage s r) ^^ 2) stage" for m
    by (induction m) (simp_all add: numeral_2_eq_2 fix2)
  then show ?thesis
    by (auto simp: le_iff_add next_stage_def)
qed

lemma stage_settles_witness:
  "((\<lambda>s. next_stage s (1 / 2)) ^^ 5) 0 = ((\<lambda>s. next_stage s (1 / 2)) ^^ 2) 0 \<and> next_stage 1 (1 / 2) \<le> 2"
  using stage_settles [of 5 "1 / 2" 0] stage_settles [of 5 "1 / 2" 1] by simp

end
