(* ===== verification/Data_Packet.thy ===== *)
theory Data_Packet
  imports Fragmenter
begin

text \<open>
  The configuration of an endpoint, \<open>TightConfig\<close> in \<open>types.hpp\<close>, and the construction of data
  packets from fragments, the first part of \<open>send_data_packet\<close> in \<open>transport.cpp\<close>: header,
  sequence number, padding, and the copy kept for retransmission.
\<close>

datatype lite_profile = Audio | Video

record tight_config =
  c_id :: bytes
  c_token :: bytes
  c_role :: link_role
  c_mtu :: nat
  c_heartbeat :: time
  c_report_interval :: time
  c_flush_interval :: time
  c_dead_timeout :: time
  c_retransmit_timeout :: time
  c_initial_bandwidth_bytes :: u64
  c_queue_limit :: nat
  c_max_message_bytes :: nat
  c_drop_log :: bool
  c_retransmit_enabled :: bool
  c_late_rtt_multiplier :: double
  c_late_buffer_ms :: u32
  c_audio_reserved_bps :: u32
  c_loan_seconds :: double
  c_slowdown_window_ms :: u32
  c_channel_fec_extra :: "u16 list"
  c_channel_reliable :: "bool list"
  c_speed_test_enabled :: bool
  c_speed_test_bytes :: nat
  c_encryption_enabled :: bool
  c_socket_buffer_bytes :: nat
  c_encode_queue_limit :: nat
  c_outbound_queue_limit :: nat
  c_lite_mode :: bool
  c_lite_profile :: lite_profile
  c_fec_enabled :: bool

definition default_config :: tight_config where
  "default_config = \<lparr> c_id = [], c_token = [], c_role = Leaf, c_mtu = 1350, c_heartbeat = ms 5000,
     c_report_interval = ms 1000, c_flush_interval = ms 10, c_dead_timeout = ms 30000,
     c_retransmit_timeout = ms 500, c_initial_bandwidth_bytes = 3750000, c_queue_limit = 65536,
     c_max_message_bytes = 64 * 1024, c_drop_log = True, c_retransmit_enabled = True,
     c_late_rtt_multiplier = 4, c_late_buffer_ms = 0, c_audio_reserved_bps = 0, c_loan_seconds = 5,
     c_slowdown_window_ms = 3000, c_channel_fec_extra = replicate 8 0,
     c_channel_reliable = replicate 8 False, c_speed_test_enabled = True,
     c_speed_test_bytes = 100 * 1024, c_encryption_enabled = True,
     c_socket_buffer_bytes = 8 * 1024 * 1024, c_encode_queue_limit = 4096,
     c_outbound_queue_limit = 65536, c_lite_mode = False, c_lite_profile = Audio, c_fec_enabled = True \<rparr>"

text \<open>The identity of an endpoint in the headers it sends.\<close>

record local_ids =
  l_client_id :: u32
  l_session_id :: u64

definition unix_low :: "u64 \<Rightarrow> u32" where
  "unix_low unix = ucast (unix AND 0xFFFFFFFF)"

definition new_pending :: pending_send where
  "new_pending = \<lparr> ps_header = zero_header, ps_payload = [], ps_last_send = 0, ps_bytes = 0, ps_retries = 0 \<rparr>"

text \<open>\<open>(real_size & kRealSizeMask) | ((channel & 0x0F) << kChannelShift)\<close>.\<close>

definition reserved_field :: "u16 \<Rightarrow> u8 \<Rightarrow> u16" where
  "reserved_field rs channel =
    (rs AND kRealSizeMask) OR push_bit kChannelShift (ucast (channel AND 0x0F))"

text \<open>
  Result: the peer, the header, the padded payload, and whether a copy is kept. \<open>unix\<close> and
  \<open>now\<close> are the clocks read under the lock.
\<close>

definition data_packet :: "tight_config \<Rightarrow> local_ids \<Rightarrow> peer \<Rightarrow> u8 \<Rightarrow> fragment_call \<Rightarrow> u64 \<Rightarrow> time \<Rightarrow>
    peer \<times> packet_header \<times> bytes \<times> bool" where
  "data_packet cfg ids p channel fc unix now =
    (let payload = blit 0 (take (fc_width fc) (fc_data fc)) (replicate (fc_width fc) 0);
         ty = (if fc_idx fc < fc_data_cnt fc then Data else Parity);
         is_acked_data = (fc_ackable fc \<and> ty = Data);
         reliable_ch = (channel < 8 \<and> c_channel_reliable cfg ! unat channel);
         keep_pending = (is_acked_data \<and> reliable_ch \<and> m_peer_retransmit p);
         sequence = (if is_acked_data then m_sequence_out p else 0);
         p = (if is_acked_data then p\<lparr> m_sequence_out := m_sequence_out p + 1 \<rparr> else p);
         header = zero_header\<lparr> h_magic := kMagic, h_version := kVersion, h_type := ty,
           h_flags := fc_data_cnt fc, h_client_id := l_client_id ids, h_session_id := l_session_id ids,
           h_sequence := sequence, h_message_id := fc_msg_id fc, h_fragment_index := fc_idx fc,
           h_fragment_count := fc_cnt fc, h_reserved := reserved_field (fc_real_size fc) channel,
           h_payload_size := word_of_nat (length payload), h_tick := unix_low unix \<rparr>;
         ps = (case map_of (m_pending p) sequence of None \<Rightarrow> new_pending | Some ps \<Rightarrow> ps);
         p = (if keep_pending
              then p\<lparr> m_pending := om_put sequence (ps\<lparr> ps_header := header, ps_payload := payload,
                ps_last_send := now, ps_bytes := 0 \<rparr>) (m_pending p) \<rparr>
              else p)
     in (p, header, payload, keep_pending))"

text \<open>All packets of a message, in the order they are sent; \<open>clk n\<close> are the clocks at packet \<open>n\<close>.\<close>

fun data_packets :: "tight_config \<Rightarrow> local_ids \<Rightarrow> peer \<Rightarrow> u8 \<Rightarrow> (nat \<Rightarrow> u64 \<times> time) \<Rightarrow> fragment_call list \<Rightarrow>
    peer \<times> (packet_header \<times> bytes) list" where
  "data_packets cfg ids p channel clk [] = (p, [])"
| "data_packets cfg ids p channel clk (fc # fcs) =
    (let (p, header, payload, _) = data_packet cfg ids p channel fc (fst (clk 0)) (snd (clk 0));
         (p, rest) = data_packets cfg ids p channel (\<lambda>n. clk (Suc n)) fcs
     in (p, (header, payload) # rest))"

text \<open>\<open>fragment_and_send\<close> of the transport: the redundancy of the channel and of a running probe.\<close>

definition transmit_message :: "(double \<Rightarrow> double) \<Rightarrow> tight_config \<Rightarrow> local_ids \<Rightarrow> u16 \<Rightarrow> peer \<Rightarrow> bytes \<Rightarrow> u8 \<Rightarrow>
    u64 \<Rightarrow> (nat \<Rightarrow> u64 \<times> time) \<Rightarrow> bytes list \<Rightarrow> peer \<times> bytes list \<times> (packet_header \<times> bytes) list" where
  "transmit_message log2 cfg ids fec_probe_extra p payload channel unix clk parities =
    (let probe_extra = fec_probe_extra;
         chan_extra = (if channel < 8 then c_channel_fec_extra cfg ! unat channel else 0);
         probe_extra = (if channel \<noteq> 0 then 0 else probe_extra);
         (p, parities, calls) = fragment_and_send log2 p payload (c_mtu cfg) chan_extra probe_extra unix parities;
         (p, pkts) = data_packets cfg ids p channel clk calls
     in (p, parities, pkts))"

lemma field_masks:
  "kRealSizeMask = mask 12" "kChannelMask = push_bit 12 (mask 4)" "(0x0F :: u8) = mask 4"
  by (simp_all add: kRealSizeMask_def kChannelMask_def mask_eq_exp_minus_1 push_bit_eq_mult)

lemma channel_of_reserved: "channel_of (reserved_field rs channel) = channel AND 0x0F"
  unfolding channel_of_def reserved_field_def kChannelShift_def field_masks
  by (rule bit_word_eqI) (auto simp: bit_simps)

lemma real_size_of_reserved:
  assumes "n < 4096"
  shows "reserved_field (word_of_nat n) channel AND kRealSizeMask = word_of_nat n"
proof -
  have "(word_of_nat n :: u16) AND mask 12 = word_of_nat n"
    using assms by (simp add: word_unat_eq_iff unat_of_nat take_bit_eq_mask [symmetric] take_bit_nat_eq_self_iff
        unsigned_take_bit_eq)
  moreover have "reserved_field r channel AND mask 12 = r AND mask 12" for r
    unfolding reserved_field_def kChannelShift_def field_masks by (rule bit_word_eqI) (auto simp: bit_simps)
  ultimately show ?thesis
    by (simp add: field_masks)
qed

end
