(* ===== verification/Delivery.thy ===== *)
theory Delivery
  imports Reassembler Data_Packet
begin

text \<open>
  Sender and receiver together: what \<open>fragment_and_send\<close> cuts, \<open>send_data_packet\<close> puts
  into packets and \<open>handle_data\<close> collects. A message in transit is described by its stream
  (length prefix and payload), the fragment width and the number of parities; the entry of
  the receiver holds a set of its fragments.
\<close>

section \<open>A message in transit\<close>

text \<open>
  What a sender put on the wire for one message: the stream (length prefix and payload), the
  width of the fragments and the number of parities. Every fragment travels padded to the width.
\<close>

definition chunk :: "nat \<Rightarrow> bytes \<Rightarrow> nat \<Rightarrow> bytes" where
  "chunk w s i = take w (drop (i * w) s)"

definition chunk_count :: "nat \<Rightarrow> bytes \<Rightarrow> nat" where
  "chunk_count w s = (length s + w - 1) div w"

definition chunks :: "nat \<Rightarrow> bytes \<Rightarrow> bytes list" where
  "chunks w s = map (chunk w s) [0..<chunk_count w s]"

definition wire_fragment :: "nat \<Rightarrow> bytes \<Rightarrow> nat \<Rightarrow> nat \<Rightarrow> bytes" where
  "wire_fragment w s pc i =
    (if i < chunk_count w s then resize w 0 (chunk w s i)
     else rs_encode (chunks w s) pc w ! (i - chunk_count w s))"

lemma concat_chunks: "0 < w \<Longrightarrow> concat (map (chunk w s) [0..<n]) = take (n * w) s"
proof (induction n)
  case (Suc n)
  have "take (Suc n * w) s = take (n * w) s @ chunk w s n"
    unfolding chunk_def take_add [symmetric] by (simp add: add.commute)
  with Suc show ?case
    by simp
qed simp

lemma chunk_count_enough: "0 < w \<Longrightarrow> length s \<le> chunk_count w s * w"
proof -
  assume w: "0 < w"
  have "length s + w - 1 < (length s + w - 1) div w * w + w"
    using w div_mult_mod_eq [of "length s + w - 1" w] mod_less_divisor [OF w, of "length s + w - 1"]
    by linarith
  then show ?thesis
    using w by (simp add: chunk_count_def)
qed

lemma concat_all_chunks: "0 < w \<Longrightarrow> concat (chunks w s) = s"
  using concat_chunks [of w s "chunk_count w s"] chunk_count_enough [of w s] by (simp add: chunks_def)

lemma length_chunks [simp]: "length (chunks w s) = chunk_count w s"
  by (simp add: chunks_def)

lemma nth_chunks [simp]: "i < chunk_count w s \<Longrightarrow> chunks w s ! i = chunk w s i"
  by (simp add: chunks_def)

lemma length_chunk_le: "length (chunk w s i) \<le> w"
  by (simp add: chunk_def)

lemma length_chunk_full: "Suc i < chunk_count w s \<Longrightarrow> 0 < w \<Longrightarrow> length (chunk w s i) = w"
proof -
  assume i: "Suc i < chunk_count w s" and w: "0 < w"
  then have "Suc (Suc i) * w \<le> length s + w - 1"
    by (simp add: chunk_count_def less_eq_div_iff_mult_less_eq Suc_le_eq [symmetric] del: mult_Suc)
  with w have "Suc i * w \<le> length s"
    by simp
  then show ?thesis
    using w by (simp add: chunk_def)
qed

lemma length_wire_fragment: "i < chunk_count w s + pc \<Longrightarrow> length (wire_fragment w s pc i) = w"
  by (simp add: wire_fragment_def rs_encode_nth)

definition real_size :: "nat \<Rightarrow> bytes \<Rightarrow> nat \<Rightarrow> nat" where
  "real_size w s i = (if i < chunk_count w s then length (chunk w s i) else w)"

text \<open>The entry of message \<open>mid\<close> holds exactly the fragments of \<open>S\<close>.\<close>

definition holds :: "u32 \<Rightarrow> nat \<Rightarrow> bytes \<Rightarrow> nat \<Rightarrow> u8 \<Rightarrow> nat set \<Rightarrow> incoming_message \<Rightarrow> bool" where
  "holds mid w s pc ch S im \<longleftrightarrow>
    im_message_id im = mid \<and> im_total_count im = word_of_nat (chunk_count w s + pc) \<and>
    im_data_count im = word_of_nat (chunk_count w s) \<and> im_channel im = ch \<and>
    im_fragments im = map (\<lambda>i. if i \<in> S then Some (wire_fragment w s pc i) else None) [0..<chunk_count w s + pc] \<and>
    im_sizes im = map (\<lambda>i. if i \<in> S then word_of_nat (real_size w s i) else 0) [0..<chunk_count w s + pc]"

text \<open>What a sender can put on the wire so that the receiver can use it.\<close>

definition transit_ok :: "nat \<Rightarrow> bytes \<Rightarrow> nat \<Rightarrow> nat \<Rightarrow> bool" where
  "transit_ok w s pc bound \<longleftrightarrow> 0 < w \<and> w < 4096 \<and> 4 \<le> length s \<and> chunk_count w s + pc < 65536 \<and>
    prefix_length s = length s - 4 \<and> length s - 4 \<le> bound"

definition lost :: "nat \<Rightarrow> bytes \<Rightarrow> nat set \<Rightarrow> nat set" where
  "lost w s S = {i. i < chunk_count w s \<and> i \<notin> S}"

definition arrived_parities :: "nat \<Rightarrow> bytes \<Rightarrow> nat \<Rightarrow> nat set \<Rightarrow> nat list" where
  "arrived_parities w s pc S = filter (\<lambda>q. chunk_count w s + q \<in> S) [0..<pc]"

text \<open>
  Enough has arrived: no data fragment is lost, or at least as many parities arrived and
  the first of them form a run.
\<close>

definition recoverable :: "nat \<Rightarrow> bytes \<Rightarrow> nat \<Rightarrow> nat set \<Rightarrow> bool" where
  "recoverable w s pc S \<longleftrightarrow> lost w s S = {} \<or>
    (chunk_count w s \<le> 255 \<and> card (lost w s S) \<le> length (arrived_parities w s pc S) \<and>
     (\<exists>base. set (take (card (lost w s S)) (arrived_parities w s pc S)) = {base..<base + card (lost w s S)}))"

section \<open>The stream of an entry\<close>

lemma chunk_count_pos: "0 < w \<Longrightarrow> 4 \<le> length s \<Longrightarrow> 0 < chunk_count w s"
  using chunk_count_enough [of w s] by (cases "chunk_count w s") auto

lemma length_real_size: "real_size w s i \<le> w"
  by (simp add: real_size_def length_chunk_le)

lemma take_real_size:
  "i < chunk_count w s \<Longrightarrow> take (real_size w s i) (wire_fragment w s pc i) = chunk w s i"
  using length_chunk_le [of w s i] by (simp add: real_size_def wire_fragment_def resize_def)

lemma unat_real_size: "w < 4096 \<Longrightarrow> unat (word_of_nat (real_size w s i) :: u16) = real_size w s i"
  using length_real_size [of w s i] by (simp add: unat_of_nat take_bit_nat_eq_self_iff)

text \<open>A data part of the entry, and the same after recovery: padded with zeros.\<close>

definition part_of :: "nat \<Rightarrow> bytes \<Rightarrow> nat set \<Rightarrow> nat \<Rightarrow> bytes" where
  "part_of w s S i = (if i \<in> S then chunk w s i else resize w 0 (chunk w s i))"

lemma part_of_full: "Suc i < chunk_count w s \<Longrightarrow> 0 < w \<Longrightarrow> part_of w s S i = chunk w s i"
  by (simp add: part_of_def length_chunk_full)

lemma concat_parts:
  assumes "0 < w"
  shows "\<exists>n. concat (map (part_of w s S) [0..<chunk_count w s]) = s @ replicate n 0"
proof (cases "chunk_count w s")
  case 0
  then show ?thesis
    using concat_all_chunks [OF assms, of s] by (simp add: chunks_def)
next
  case (Suc k)
  have "concat (map (part_of w s S) [0..<k]) = concat (map (chunk w s) [0..<k])"
    using assms Suc by (intro arg_cong [where f = concat] map_cong refl) (simp add: part_of_full)
  moreover obtain n where "part_of w s S k = chunk w s k @ replicate n 0"
  proof (cases "k \<in> S")
    case True
    then show ?thesis
      using that [of 0] by (simp add: part_of_def)
  next
    case False
    then show ?thesis
      using that length_chunk_le [of w s k] by (simp add: part_of_def resize_def)
  qed
  ultimately have "concat (map (part_of w s S) [0..<chunk_count w s]) =
      (concat (map (chunk w s) [0..<k]) @ chunk w s k) @ replicate n 0"
    using Suc by simp
  also have "concat (map (chunk w s) [0..<k]) @ chunk w s k = s"
    using concat_all_chunks [OF assms, of s] Suc by (simp add: chunks_def)
  finally have "concat (map (part_of w s S) [0..<chunk_count w s]) = s @ replicate n 0" .
  then show ?thesis ..
qed

lemma used_stream:
  assumes "\<And>i. i < n \<Longrightarrow> take (unat (im_sizes im ! i)) (the (im_fragments im ! i)) = f i"
  shows "stream_of (used_parts im n) = concat (map f [0..<n])"
proof -
  have "take (min k (length g)) g = take k g" for k and g :: bytes
    by (simp add: min_def)
  then have "map (\<lambda>(k, g). take k g) (used_parts im n) = map f [0..<n]"
    using assms by (simp add: used_parts_def Let_def)
  then show ?thesis
    by (simp add: stream_of_def)
qed

lemma build_msg_delivers:
  assumes "transit_ok w s pc bound" "readable im (chunk_count w s)"
    and "\<And>i. i < chunk_count w s \<Longrightarrow> take (unat (im_sizes im ! i)) (the (im_fragments im ! i)) = part_of w s S i"
  shows "build_msg p im (chunk_count w s) bound now = Inr (drop 4 s, p)"
proof -
  obtain n where n: "stream_of (used_parts im (chunk_count w s)) = s @ replicate n 0"
    using used_stream [OF assms(3)] concat_parts [of w s S] assms(1) by (auto simp: transit_ok_def)
  have s: "4 \<le> length s" "prefix_length s = length s - 4" "length s - 4 \<le> bound"
    using assms(1) by (simp_all add: transit_ok_def)
  moreover have "s \<noteq> []"
    using s(1) by auto
  ultimately have "prefix_length (s @ replicate n 0) = length s - 4"
    by (simp add: prefix_length_def get32_def load32_def nth_append)
  then show ?thesis
    using build_msg_spec [OF assms(2) n [symmetric], of p bound now] s by simp
qed

section \<open>Recovery inside an entry\<close>

lemma encode_parity_pad:
  "encode_parity fragments width p out = encode_parity fragments' width p out'"
  if "length fragments = length fragments'" "length out \<le> width" "length out' \<le> width"
    "\<And>j k. j < length fragments' \<Longrightarrow> k < width \<Longrightarrow> byte_at (fragments ! j) k = byte_at (fragments' ! j) k"
proof (rule nth_equalityI)
  fix k
  assume "k < length (encode_parity fragments width p out)"
  then have k: "k < width"
    using that(2) by simp
  then have "byte_at (encode_parity fragments width p out) k = byte_at (encode_parity fragments' width p out') k"
    using that(1,4) by (simp add: byte_at_encode_parity)
  then show "encode_parity fragments width p out ! k = encode_parity fragments' width p out' ! k"
    using k by (simp add: byte_at_def less_max_iff_disj)
qed (use that in simp)

text \<open>Padding the data fragments changes no parity.\<close>

definition padded :: "nat \<Rightarrow> bytes \<Rightarrow> bytes list" where
  "padded w s = map (\<lambda>i. resize w 0 (chunk w s i)) [0..<chunk_count w s]"

lemma rs_encode_padded: "q < pc \<Longrightarrow> rs_encode (padded w s) pc w ! q = rs_encode (chunks w s) pc w ! q"
  unfolding rs_encode_nth by (rule encode_parity_pad) (simp_all add: padded_def byte_at_resize)

section \<open>Assembling from what has arrived\<close>

lemma holds_fragment:
  "holds mid w s pc ch S im \<Longrightarrow> i < chunk_count w s + pc \<Longrightarrow>
   im_fragments im ! i = (if i \<in> S then Some (wire_fragment w s pc i) else None)"
  by (simp add: holds_def)

lemma holds_size:
  "holds mid w s pc ch S im \<Longrightarrow> i < chunk_count w s + pc \<Longrightarrow> i \<in> S \<Longrightarrow>
   im_sizes im ! i = word_of_nat (real_size w s i)"
  by (simp add: holds_def)

lemma holds_counts:
  assumes "holds mid w s pc ch S im" "transit_ok w s pc bound"
  shows "unat (im_total_count im) = chunk_count w s + pc" "unat (im_data_count im) = chunk_count w s"
    "length (im_fragments im) = chunk_count w s + pc" "length (im_sizes im) = chunk_count w s + pc"
    "0 < im_data_count im" "1 \<le> im_total_count im" "0 < chunk_count w s"
proof -
  have small: "chunk_count w s + pc < 65536" and pos: "0 < chunk_count w s"
    using assms(2) chunk_count_pos [of w s] by (auto simp: transit_ok_def)
  show "unat (im_total_count im) = chunk_count w s + pc" "unat (im_data_count im) = chunk_count w s"
    "length (im_fragments im) = chunk_count w s + pc" "length (im_sizes im) = chunk_count w s + pc"
    using assms(1) small by (simp_all add: holds_def unat_of_nat take_bit_nat_eq_self_iff del: of_nat_add)
  then show "0 < im_data_count im" "1 \<le> im_total_count im"
    using pos by (simp_all add: word_less_nat_alt word_le_nat_alt)
  show "0 < chunk_count w s"
    by (fact pos)
qed

lemma holds_width:
  assumes "holds mid w s pc ch S im" "i \<in> S" "i < chunk_count w s + pc"
  shows "max_width (im_fragments im) = w"
proof -
  have fold: "foldl (\<lambda>w f. case f of None \<Rightarrow> w | Some b \<Rightarrow> max w (length b)) a fs =
      (if \<forall>f\<in>set fs. f = None then a else max a w)"
    if "\<forall>f\<in>set fs. f = None \<or> (\<exists>b. f = Some b \<and> length b = w)" for a fs
    using that by (induction fs arbitrary: a) (auto split: option.splits)
  have "\<forall>f\<in>set (im_fragments im). f = None \<or> (\<exists>b. f = Some b \<and> length b = w)"
    using assms(1) by (auto simp: holds_def length_wire_fragment)
  moreover have "Some (wire_fragment w s pc i) \<in> set (im_fragments im)"
    using assms by (auto simp: holds_def image_iff intro!: bexI [of _ i])
  ultimately show ?thesis
    unfolding max_width_def by (subst fold) auto
qed

lemma holds_parities:
  assumes "holds mid w s pc ch S im"
  shows "received_parities (im_fragments im) (chunk_count w s) pc =
    map (\<lambda>q. (q, wire_fragment w s pc (chunk_count w s + q))) (arrived_parities w s pc S)"
proof -
  have "concat (map (\<lambda>q. if P q then [g q] else []) xs) = map g (filter P xs)" for P and g :: "nat \<Rightarrow> nat \<times> bytes" and xs
    by (induction xs) simp_all
  moreover have "map (\<lambda>q. if chunk_count w s + q < length (im_fragments im) then
      (case im_fragments im ! (chunk_count w s + q) of None \<Rightarrow> [] | Some b \<Rightarrow> [(q, b)]) else []) [0..<pc] =
    map (\<lambda>q. if chunk_count w s + q \<in> S then [(q, wire_fragment w s pc (chunk_count w s + q))] else []) [0..<pc]"
    using assms by (simp add: holds_def)
  ultimately show ?thesis
    by (simp only: received_parities_def arrived_parities_def)
qed

lemma holds_missing:
  assumes "holds mid w s pc ch S im"
  shows "length (filter (\<lambda>i. im_fragments im ! i = None) [0..<chunk_count w s]) = card (lost w s S)"
    "length (missing_indices (take (chunk_count w s) (im_fragments im))) = card (lost w s S)"
    "length (filter (\<lambda>i. im_fragments im ! i \<noteq> None) [0..<chunk_count w s]) = chunk_count w s \<longleftrightarrow> lost w s S = {}"
proof -
  let ?n = "chunk_count w s"
  have none: "im_fragments im ! i = None \<longleftrightarrow> i \<in> lost w s S" if "i < ?n" for i
    using assms that by (simp add: holds_fragment lost_def)
  have "set (filter (\<lambda>i. im_fragments im ! i = None) [0..<?n]) = lost w s S"
    using none by (auto simp: lost_def)
  then show 1: "length (filter (\<lambda>i. im_fragments im ! i = None) [0..<?n]) = card (lost w s S)"
    by (metis distinct_card distinct_filter distinct_upt)
  have "length (take ?n (im_fragments im)) = ?n"
    using assms by (simp add: holds_def)
  then have "missing_indices (take ?n (im_fragments im)) = filter (\<lambda>i. im_fragments im ! i = None) [0..<?n]"
    unfolding missing_indices_def by (intro filter_cong) auto
  then show "length (missing_indices (take ?n (im_fragments im))) = card (lost w s S)"
    using 1 by simp
  have "finite (lost w s S)"
    by (simp add: lost_def)
  then show "length (filter (\<lambda>i. im_fragments im ! i \<noteq> None) [0..<?n]) = ?n \<longleftrightarrow> lost w s S = {}"
    using sum_length_filter_compl [of "\<lambda>i. im_fragments im ! i = None" "[0..<?n]"] 1 by auto
qed

lemma holds_decode:
  assumes im: "holds mid w s pc ch S im" and ok: "transit_ok w s pc bound"
  defines "d \<equiv> take (chunk_count w s) (im_fragments im)"
    and "par \<equiv> received_parities (im_fragments im) (chunk_count w s) pc"
  shows "rs_decode d par w = (True, map (\<lambda>i. Some (wire_fragment w s pc i)) [0..<chunk_count w s]) \<or>
    (rs_decode d par w = (False, d) \<and> \<not> recoverable w s pc S)"
proof -
  let ?n = "chunk_count w s"
  have d: "length d = ?n" "\<And>i. i < ?n \<Longrightarrow> d ! i = (if i \<in> S then Some (wire_fragment w s pc i) else None)"
    using holds_fragment [OF im] holds_counts(3) [OF im ok] by (simp_all add: d_def)
  have "erasure_of d (padded w s)"
    using d by (simp add: erasure_of_def padded_def wire_fragment_def)
  moreover have "sent_parity (padded w s) pc w par"
    unfolding par_def holds_parities [OF im]
    by (auto simp: sent_parity_def arrived_parities_def wire_fragment_def rs_encode_padded)
  moreover have "restore (padded w s) w d = map (\<lambda>i. Some (wire_fragment w s pc i)) [0..<?n]"
    using d by (auto simp: restore_def padded_def wire_fragment_def)
  moreover have "fst (rs_decode d par w)" if rec: "recoverable w s pc S"
  proof -
    let ?m = "length (missing_indices d)"
    have m: "?m = card (lost w s S)"
      using holds_missing(2) [OF im] by (simp add: d_def)
    show ?thesis
    proof (cases "lost w s S = {}")
      case True
      then have "missing_indices d = []"
        using m by simp
      then show ?thesis
        by (simp add: rs_decode_def)
    next
      case False
      then obtain base where r: "?n \<le> 255" "?m \<le> length (arrived_parities w s pc S)"
        "set (take ?m (arrived_parities w s pc S)) = {base..<base + ?m}"
        using rec m unfolding recoverable_def by metis
      have "(\<lambda>r. fst (par ! r)) ` {..<?m} = set (take ?m (arrived_parities w s pc S))"
        using r(2) unfolding par_def holds_parities [OF im]
        by (auto simp: nth_image [symmetric] lessThan_atLeast0)
      then show ?thesis
        using rs_decode_complete [of d par base w] r d(1) by (simp add: par_def holds_parities [OF im])
    qed
  qed
  ultimately show ?thesis
    using restored [of d "padded w s" pc w par] rs_decode_false [of d par w] by metis
qed

lemma holds_recover:
  assumes im: "holds mid w s pc ch S im" and ok: "transit_ok w s pc bound"
    and S: "i \<in> S" "i < chunk_count w s + pc" and "lost w s S \<noteq> {}"
  shows "(\<exists>im'. assemble_recover p im (chunk_count w s) pc (card (lost w s S)) bound now =
      Inr (True, p, im', [Deliver (drop 4 s)])) \<or>
    (assemble_recover p im (chunk_count w s) pc (card (lost w s S)) bound now = Inr (False, p, im, []) \<and>
      \<not> recoverable w s pc S)"
proof -
  let ?n = "chunk_count w s" and ?d' = "map (\<lambda>i. Some (wire_fragment w s pc i)) [0..<chunk_count w s]"
  let ?d = "rs_decode (take ?n (im_fragments im)) (received_parities (im_fragments im) ?n pc) w"
  have w: "0 < w" "w < 4096"
    using ok by (simp_all add: transit_ok_def)
  define q where "q = backfill im ?d' w ?n"
  have q: "im_fragments q ! i = (if i \<in> S then im_fragments im ! i else Some (wire_fragment w s pc i)) \<and>
      im_sizes q ! i = (if i \<in> S then im_sizes im ! i else word_of_nat w)" if "i < ?n" for i
    using backfill_upto [of im ?n ?d' w] holds_counts [OF im ok] holds_fragment [OF im, of i] that
    by (simp add: q_def Let_def split: if_splits)
  have read: "readable q ?n"
    unfolding q_def by (rule backfill_readable) (use holds_counts(3,4) [OF im ok] in simp_all)
  have "build_msg p q ?n bound now = Inr (drop 4 s, p)"
    using ok read
  proof (rule build_msg_delivers [where S = S])
    fix i
    assume "i < ?n"
    with w q [OF this] show "take (unat (im_sizes q ! i)) (the (im_fragments q ! i)) = part_of w s S i"
      by (cases "i \<in> S")
        (simp_all add: holds_fragment [OF im] holds_size [OF im] unat_real_size take_real_size part_of_def,
          simp add: wire_fragment_def unat_of_nat take_bit_nat_eq_self_iff)
  qed
  then have deliver: "(case build_msg p q ?n bound now of Inl e \<Rightarrow> Inl e | Inr (msg, p) \<Rightarrow> Inr (True, p, q, [Deliver msg])) =
      Inr (True, p, q, [Deliver (drop 4 s)])"
    by simp
  have start: "assemble_recover p im ?n pc (card (lost w s S)) bound now =
    (if card (lost w s S) > length (arrived_parities w s pc S) then Inr (False, p, im, [])
     else case ?d of (okd, data_frags) \<Rightarrow> if \<not> okd then Inr (False, p, im, [])
       else case build_msg p (backfill im data_frags w ?n) ?n bound now of
         Inl e \<Rightarrow> Inl e
       | Inr (msg, p) \<Rightarrow> Inr (True, p, backfill im data_frags w ?n, [Deliver msg]))"
    using w unfolding assemble_recover_def Let_def holds_width [OF im S] holds_parities [OF im] by simp
  show ?thesis
    using holds_decode [OF im ok] deliver assms(5) unfolding start q_def
    by (auto simp: recoverable_def)
qed

text \<open>
  Assembling an entry that holds some fragments: the message is delivered as sent, or more
  fragments are awaited with the entry unchanged, or the message is given up after the wait.
\<close>

lemma try_assemble_holds:
  assumes im: "holds mid w s pc ch S im" and ok: "transit_ok w s pc bound"
    and S: "i \<in> S" "i < chunk_count w s + pc"
  shows "\<exists>p'. m_incoming p' = m_incoming p \<and> m_completed p' = m_completed p \<and>
    ((\<exists>im'. try_assemble p im bound wait now unix = Inr (True, p', im', [Deliver (drop 4 s)])) \<or>
     (try_assemble p im bound wait now unix = Inr (False, p', im, []) \<and> \<not> recoverable w s pc S) \<or>
     (try_assemble p im bound wait now unix = Inr (True, p', im, [Message_loss ch]) \<and>
       \<not> recoverable w s pc S \<and> wait \<le> now - im_first_seen im))"
proof -
  let ?n = "chunk_count w s" and ?t = "try_assemble p im bound wait now unix"
  note counts = holds_counts [OF im ok]
  have dc: "(if im_data_count im > 0 then unat (im_data_count im) else unat (im_total_count im) - 1) = ?n"
    "unat (im_total_count im) - ?n = pc" "\<not> ?n > length (im_fragments im)" "\<not> im_total_count im < 1"
    using counts by auto
  note missing = holds_missing [OF im]
  have start: "?t = (if lost w s S = {} then assemble_complete p im ?n bound now unix
      else if card (lost w s S) > pc then
        (if now - im_first_seen im < wait then Inr (False, p, im, []) else Inr (True, p, im, [Message_loss ch]))
      else if card (lost w s S) = 0 then Inr (False, p, im, [])
      else assemble_recover p im ?n pc (card (lost w s S)) bound now)"
    using dc(3,4) im by (simp only: try_assemble_def Let_def dc missing if_False) (simp add: holds_def)
  have card0: "card (lost w s S) = 0 \<longleftrightarrow> lost w s S = {}"
    by (simp add: lost_def)
  have pars: "length (arrived_parities w s pc S) \<le> pc"
    unfolding arrived_parities_def by (rule order_trans [OF length_filter_le]) simp
  show ?thesis
  proof (cases "lost w s S = {}")
    case True
    then have all: "i \<in> S" if "i < ?n" for i
      using that by (auto simp: lost_def)
    have "readable im ?n"
      using counts all by (simp add: readable_def holds_fragment [OF im])
    with ok have "build_msg p im ?n bound now = Inr (drop 4 s, p)"
      by (rule build_msg_delivers [where S = S])
        (use ok in \<open>simp add: all holds_fragment [OF im] holds_size [OF im] transit_ok_def unat_real_size take_real_size part_of_def\<close>)
    then show ?thesis
      unfolding start using True by (auto simp: assemble_complete_def Let_def)
  next
    case False
    show ?thesis
    proof (cases "card (lost w s S) > pc")
      case True
      then have "\<not> recoverable w s pc S"
        using False pars by (auto simp: recoverable_def)
      then show ?thesis
        unfolding start using True False by (cases "now - im_first_seen im < wait") auto
    next
      case le: False
      then show ?thesis
        unfolding start using holds_recover [OF im ok S False, of p now] False card0 by auto
    qed
  qed
qed

section \<open>Receiving the packets of one message\<close>

text \<open>A packet that carries fragment \<open>i\<close> of the message.\<close>

definition carries :: "u32 \<Rightarrow> nat \<Rightarrow> bytes \<Rightarrow> nat \<Rightarrow> u8 \<Rightarrow> packet_header \<Rightarrow> bytes \<Rightarrow> nat \<Rightarrow> bool" where
  "carries mid w s pc ch header payload i \<longleftrightarrow> i < chunk_count w s + pc \<and>
    h_message_id header = mid \<and> h_fragment_index header = word_of_nat i \<and>
    h_fragment_count header = word_of_nat (chunk_count w s + pc) \<and>
    h_flags header = word_of_nat (chunk_count w s) \<and> channel_of (h_reserved header) = ch \<and>
    h_reserved header AND kRealSizeMask = word_of_nat (real_size w s i) \<and>
    payload = wire_fragment w s pc i"

definition awaiting :: "u32 \<Rightarrow> nat \<Rightarrow> bytes \<Rightarrow> nat \<Rightarrow> u8 \<Rightarrow> time \<Rightarrow> nat set \<Rightarrow> peer \<Rightarrow> bool" where
  "awaiting mid w s pc ch t0 S p \<longleftrightarrow> map_of (m_completed p) mid = None \<and>
    (if S = {} then map_of (m_incoming p) mid = None
     else (\<exists>im. map_of (m_incoming p) mid = Some im \<and> holds mid w s pc ch S im \<and> t0 \<le> im_first_seen im) \<and>
       \<not> recoverable w s pc S)"

lemma update_map_upt: "i < n \<Longrightarrow> (map f [0..<n])[i := x] = map (\<lambda>j. if j = i then x else f j) [0..<n]"
  by (rule nth_equalityI) (auto simp: nth_list_update)

lemma store_fragment_holds:
  assumes im: "holds mid w s pc ch S im" and pkt: "carries mid w s pc ch header payload i"
    and ok: "transit_ok w s pc bound"
  obtains im' where "store_fragment im header payload = Inr im'" "holds mid w s pc ch (insert i S) im'"
    "im_first_seen im' = im_first_seen im"
proof -
  have idx: "unat (h_fragment_index header) = i" and i: "i < chunk_count w s + pc"
    using pkt ok by (simp_all add: carries_def transit_ok_def unat_of_nat take_bit_nat_eq_self_iff)
  have frag: "im_fragments im ! i = (if i \<in> S then Some (wire_fragment w s pc i) else None)"
    using holds_fragment [OF im i] .
  have range: "i < length (im_fragments im)" "i < length (im_sizes im)"
    using holds_counts(3,4) [OF im ok] i by simp_all
  show thesis
  proof (cases "i \<in> S")
    case True
    have "store_fragment im header payload = Inr im"
      using frag True range by (simp add: store_fragment_def Let_def idx)
    then show thesis
      by (rule that) (use im True in \<open>simp_all add: insert_absorb\<close>)
  next
    case False
    have set: "(im_fragments im)[i := Some payload] =
        map (\<lambda>j. if j \<in> insert i S then Some (wire_fragment w s pc j) else None) [0..<chunk_count w s + pc]"
      "(im_sizes im)[i := h_reserved header AND kRealSizeMask] =
        map (\<lambda>j. if j \<in> insert i S then word_of_nat (real_size w s j) else 0) [0..<chunk_count w s + pc]"
      using im pkt i by (auto simp: holds_def carries_def update_map_upt)
    have "store_fragment im header payload = Inr (im\<lparr> im_fragments := (im_fragments im)[i := Some payload],
        im_sizes := (im_sizes im)[i := h_reserved header AND kRealSizeMask] \<rparr>)"
      using frag False range by (simp add: store_fragment_def Let_def idx)
    then show thesis
      by (rule that) (use im in \<open>unfold set holds_def, simp_all\<close>)
  qed
qed

lemma open_entry_holds:
  assumes "awaiting mid w s pc ch t0 S p" "carries mid w s pc ch header payload i" "mid \<noteq> 0" "t0 \<le> now"
    "transit_ok w s pc bound"
  shows "holds mid w s pc ch S (open_entry p header now)" "t0 \<le> im_first_seen (open_entry p header now)"
proof -
  have fresh: "open_entry p header now = \<lparr> im_message_id = mid, im_total_count = word_of_nat (chunk_count w s + pc),
      im_data_count = word_of_nat (chunk_count w s), im_channel = ch,
      im_fragments = replicate (chunk_count w s + pc) None, im_sizes = replicate (chunk_count w s + pc) 0,
      im_first_seen = now, im_first_tick_ms = h_tick header \<rparr>" if "S = {}"
    using that assms(1,2,5)
    by (simp add: awaiting_def carries_def open_entry_def Let_def zero_incoming_def transit_ok_def
        unat_of_nat take_bit_nat_eq_self_iff del: of_nat_add)
  have known: "\<exists>im. holds mid w s pc ch S im \<and> t0 \<le> im_first_seen im \<and> open_entry p header now = im" if "S \<noteq> {}"
    using that assms(1-3) by (auto simp: awaiting_def carries_def open_entry_def Let_def holds_def)
  show "holds mid w s pc ch S (open_entry p header now)" "t0 \<le> im_first_seen (open_entry p header now)"
    using fresh known assms(4) by (cases "S = {}"; auto simp: holds_def map_replicate_const [symmetric] map_replicate_trivial)+
qed

lemma loss_wait_floor: "min (ms 250) (12 * report_interval) \<le> loss_wait_for p ch rtt report_interval"
  by (auto simp: loss_wait_for_def kReliableLossWaitPeriods_def Let_def min_le_iff_disj le_max_iff_disj)

text \<open>One packet of the message arrives while the message is awaited.\<close>

lemma handle_data_awaiting:
  assumes a: "awaiting mid w s pc ch t0 S p" and pkt: "carries mid w s pc ch header payload i"
    and ok: "transit_ok w s pc bound" and mid: "mid \<noteq> 0" and now: "t0 \<le> now"
    and few: "chunk_count w s + pc \<le> bound div 64 + 8"
  shows "\<exists>p' evs. handle_data p header payload rtt mult buf bound ri now unix now2 unix2 = Inr (p', evs) \<and>
    (evs = [] \<and> awaiting mid w s pc ch t0 (insert i S) p' \<or>
     evs = [Deliver (drop 4 s)] \<and> map_of (m_completed p') mid \<noteq> None \<or>
     evs = [Message_loss ch] \<and> map_of (m_completed p') mid \<noteq> None \<and>
       \<not> recoverable w s pc (insert i S) \<and> min (ms 250) (12 * ri) \<le> now2 - t0)"
proof -
  define p1 where "p1 = track_seq (account_late p (transit_time_us p (h_tick header) unix) rtt mult buf)
    (h_sequence header) ch now"
  have p1: "m_incoming p1 = m_incoming p" "m_completed p1 = m_completed p"
    by (simp_all add: p1_def)
  have a1: "awaiting mid w s pc ch t0 S p1"
    using a p1 by (simp add: awaiting_def)
  have small: "chunk_count w s + pc < 65536"
    using ok by (simp add: transit_ok_def)
  have hdr: "h_message_id header = mid" "unat (h_fragment_index header) = i" "i < chunk_count w s + pc"
    "unat (h_fragment_count header) = chunk_count w s + pc" "channel_of (h_reserved header) = ch"
    using pkt small by (simp_all add: carries_def unat_of_nat take_bit_nat_eq_self_iff del: of_nat_add)
  define im where "im = open_entry p1 header now"
  have im: "holds mid w s pc ch S im" "t0 \<le> im_first_seen im"
    using open_entry_holds [OF a1 pkt mid now ok] by (simp_all add: im_def)
  obtain im2 where st: "store_fragment im header payload = Inr im2" and im2: "holds mid w s pc ch (insert i S) im2"
    "t0 \<le> im_first_seen im2"
    using store_fragment_holds [OF im(1) pkt ok] im(2) by metis
  define p2 where "p2 = p1\<lparr> m_incoming := om_put mid im (m_incoming p1) \<rparr>"
  define p3 where "p3 = p2\<lparr> m_incoming := om_put mid im2 (m_incoming p2) \<rparr>"
  define wait where "wait = loss_wait_for p3 ch rtt ri"
  have guards: "h_fragment_count header \<noteq> 0" "map_of (m_completed p1) mid = None"
    "\<not> h_fragment_index header \<ge> h_fragment_count header" "\<not> chunk_count w s + pc > bound div 64 + 8"
    "im_total_count im = h_fragment_count header" "\<not> i \<ge> length (im_fragments im)"
    using a1 hdr few im(1) pkt
    by (auto simp: awaiting_def word_le_nat_alt holds_def carries_def simp del: of_nat_add)
  have start: "handle_data p header payload rtt mult buf bound ri now unix now2 unix2 =
    (case try_assemble p3 im2 bound wait now2 unix2 of
       Inl e \<Rightarrow> Inl e
     | Inr (assembled, p, im, evs) \<Rightarrow>
         let p = p\<lparr> m_incoming := om_put mid im (m_incoming p) \<rparr>
         in if assembled
            then Inr (p\<lparr> m_completed := om_put mid now (m_completed p),
              m_incoming := om_del mid (m_incoming p) \<rparr>, evs)
            else Inr (p, evs))"
    unfolding handle_data_def Let_def p1_def [symmetric] hdr im_def [symmetric] st sum.case
      p2_def [symmetric] p3_def [symmetric] wait_def [symmetric]
    using guards by simp
  obtain p4 where p4: "m_incoming p4 = m_incoming p3" "m_completed p4 = m_completed p3"
    and t: "(\<exists>im'. try_assemble p3 im2 bound wait now2 unix2 = Inr (True, p4, im', [Deliver (drop 4 s)])) \<or>
     (try_assemble p3 im2 bound wait now2 unix2 = Inr (False, p4, im2, []) \<and> \<not> recoverable w s pc (insert i S)) \<or>
     (try_assemble p3 im2 bound wait now2 unix2 = Inr (True, p4, im2, [Message_loss ch]) \<and>
       \<not> recoverable w s pc (insert i S) \<and> wait \<le> now2 - im_first_seen im2)"
    using try_assemble_holds [OF im2(1) ok insertI1 hdr(3), of p3 wait now2 unix2] by blast
  have c: "map_of (m_completed p4) mid = None"
    using p4 guards(2) by (simp add: p3_def p2_def)
  from t show ?thesis
  proof (elim disjE conjE exE)
    assume t: "try_assemble p3 im2 bound wait now2 unix2 = Inr (False, p4, im2, [])"
      and "\<not> recoverable w s pc (insert i S)"
    then have "awaiting mid w s pc ch t0 (insert i S) (p4\<lparr> m_incoming := om_put mid im2 (m_incoming p4) \<rparr>)"
      using c im2 by (simp add: awaiting_def)
    then show ?thesis
      unfolding start t by simp
  next
    assume "wait \<le> now2 - im_first_seen im2" "\<not> recoverable w s pc (insert i S)"
      and t: "try_assemble p3 im2 bound wait now2 unix2 = Inr (True, p4, im2, [Message_loss ch])"
    moreover have "min (ms 250) (12 * ri) \<le> wait"
      unfolding wait_def by (rule loss_wait_floor)
    ultimately show ?thesis
      unfolding start t using im2(2) by simp
  qed (unfold start, simp)
qed

text \<open>An arrival: the packet, the round-trip time then known, and the clocks read while handling it.\<close>

record arrival =
  a_header :: packet_header
  a_payload :: bytes
  a_rtt :: u32
  a_now :: time
  a_unix :: u64
  a_now2 :: time
  a_unix2 :: u64

primrec receive_all :: "double \<Rightarrow> u32 \<Rightarrow> nat \<Rightarrow> time \<Rightarrow> peer \<Rightarrow> arrival list \<Rightarrow> rx_error + (peer \<times> rx_event list)" where
  "receive_all mult buf bound ri p [] = Inr (p, [])"
| "receive_all mult buf bound ri p (a # as) =
    (case handle_data p (a_header a) (a_payload a) (a_rtt a) mult buf bound ri (a_now a) (a_unix a) (a_now2 a) (a_unix2 a) of
       Inl e \<Rightarrow> Inl e
     | Inr (p, evs) \<Rightarrow>
         (case receive_all mult buf bound ri p as of
            Inl e \<Rightarrow> Inl e
          | Inr (p, evs') \<Rightarrow> Inr (p, evs @ evs')))"

lemma handle_data_completed:
  assumes "map_of (m_completed p) (h_message_id header) \<noteq> None"
  shows "\<exists>p'. handle_data p header payload rtt mult buf bound ri now unix now2 unix2 = Inr (p', []) \<and>
    m_completed p' = m_completed p"
  using assms by (auto simp: handle_data_def Let_def)

lemma receive_all_completed:
  assumes "map_of (m_completed p) mid \<noteq> None" "\<forall>a\<in>set as. h_message_id (a_header a) = mid"
  shows "\<exists>p'. receive_all mult buf bound ri p as = Inr (p', [])"
  using assms
proof (induction as arbitrary: p)
  case (Cons a as)
  have id: "map_of (m_completed p) (h_message_id (a_header a)) \<noteq> None"
    using Cons.prems by simp
  obtain p1 where h: "handle_data p (a_header a) (a_payload a) (a_rtt a) mult buf bound ri (a_now a) (a_unix a)
      (a_now2 a) (a_unix2 a) = Inr (p1, [])" "m_completed p1 = m_completed p"
    using handle_data_completed [OF id, of "a_payload a" "a_rtt a" mult buf bound ri "a_now a" "a_unix a"
        "a_now2 a" "a_unix2 a"] by (elim exE conjE)
  obtain p2 where "receive_all mult buf bound ri p1 as = Inr (p2, [])"
    using Cons.IH [of p1] Cons.prems h(2) by auto
  then have "receive_all mult buf bound ri p (a # as) = Inr (p2, [])"
    by (simp only: receive_all.simps h(1) sum.case prod.case append_Nil)
  then show ?case ..
qed simp

lemma receive_all_awaiting:
  assumes "awaiting mid w s pc ch t0 S p" "transit_ok w s pc bound" "mid \<noteq> 0"
    and "chunk_count w s + pc \<le> bound div 64 + 8"
    and "\<forall>a\<in>set as. carries mid w s pc ch (a_header a) (a_payload a) (f a) \<and> t0 \<le> a_now a"
  shows "\<exists>p' evs. receive_all mult buf bound ri p as = Inr (p', evs) \<and>
    (evs = [] \<and> awaiting mid w s pc ch t0 (S \<union> f ` set as) p' \<or> evs = [Deliver (drop 4 s)] \<or>
     evs = [Message_loss ch] \<and> (\<exists>a\<in>set as. min (ms 250) (12 * ri) \<le> a_now2 a - t0))"
  using assms(1,5)
proof (induction as arbitrary: p S)
  case (Cons a as)
  let ?h = "handle_data p (a_header a) (a_payload a) (a_rtt a) mult buf bound ri (a_now a) (a_unix a) (a_now2 a) (a_unix2 a)"
  have ids: "\<forall>a\<in>set as. h_message_id (a_header a) = mid"
    using Cons.prems(2) by (simp add: carries_def)
  have c: "carries mid w s pc ch (a_header a) (a_payload a) (f a)" "t0 \<le> a_now a"
    and rest: "\<forall>a\<in>set as. carries mid w s pc ch (a_header a) (a_payload a) (f a) \<and> t0 \<le> a_now a"
    using Cons.prems(2) by simp_all
  obtain p1 evs where h: "?h = Inr (p1, evs)"
    and r: "evs = [] \<and> awaiting mid w s pc ch t0 (insert (f a) S) p1 \<or>
      evs = [Deliver (drop 4 s)] \<and> map_of (m_completed p1) mid \<noteq> None \<or>
      evs = [Message_loss ch] \<and> map_of (m_completed p1) mid \<noteq> None \<and>
       \<not> recoverable w s pc (insert (f a) S) \<and> min (ms 250) (12 * ri) \<le> a_now2 a - t0"
    using handle_data_awaiting [OF Cons.prems(1) c(1) assms(2,3) c(2) assms(4), of "a_rtt a" mult buf ri
        "a_unix a" "a_now2 a" "a_unix2 a"] by (elim exE conjE)
  have done_now: "\<exists>p'. receive_all mult buf bound ri p (a # as) = Inr (p', evs)"
    if fin: "map_of (m_completed p1) mid \<noteq> None"
  proof -
    obtain p2 where "receive_all mult buf bound ri p1 as = Inr (p2, [])"
      using receive_all_completed [OF fin ids, of mult buf bound ri] by (elim exE)
    then have "receive_all mult buf bound ri p (a # as) = Inr (p2, evs)"
      by (simp only: receive_all.simps h sum.case prod.case append_Nil2)
    then show ?thesis ..
  qed
  from r consider "evs = []" "awaiting mid w s pc ch t0 (insert (f a) S) p1"
    | "evs = [Deliver (drop 4 s)]" "map_of (m_completed p1) mid \<noteq> None"
    | "evs = [Message_loss ch]" "map_of (m_completed p1) mid \<noteq> None" "min (ms 250) (12 * ri) \<le> a_now2 a - t0"
    by (elim disjE conjE)
  then show ?case
  proof cases
    case 1
    obtain p2 evs2 where r2: "receive_all mult buf bound ri p1 as = Inr (p2, evs2)"
      and e2: "evs2 = [] \<and> awaiting mid w s pc ch t0 (insert (f a) S \<union> f ` set as) p2 \<or> evs2 = [Deliver (drop 4 s)] \<or>
        evs2 = [Message_loss ch] \<and> (\<exists>a\<in>set as. min (ms 250) (12 * ri) \<le> a_now2 a - t0)"
      using Cons.IH [OF 1(2) rest] by (elim exE conjE)
    have "receive_all mult buf bound ri p (a # as) = Inr (p2, evs2)"
      by (simp only: receive_all.simps h r2 1(1) sum.case prod.case append_Nil)
    moreover have "insert (f a) S \<union> f ` set as = S \<union> f ` set (a # as)"
      by simp
    ultimately show ?thesis
      using e2 by (intro exI [of _ p2] exI [of _ evs2]) (simp only: simp_thms, auto)
  next
    case 2
    then show ?thesis
      using done_now [OF 2(2)] 2 by auto
  next
    case 3
    then show ?thesis
      using done_now [OF 3(2)] 3 by auto
  qed
qed simp

section \<open>What the sender puts on the wire\<close>

lemma cut_spans_chunks: "cut_spans s w (chunk_count w s) = chunks w s"
  by (auto simp: cut_spans_def chunks_def chunk_def Let_def min_def)

lemma full_buffer_eq: "full_buffer payload = mem32 (to_be32 (word_of_nat (length payload))) @ payload"
  by (simp add: full_buffer_def Let_def blit_def)

lemma prefix_full_buffer: "length payload < 2 ^ 32 \<Longrightarrow> prefix_length (full_buffer payload) = length payload"
  by (simp add: prefix_length_def full_buffer_eq get32_mem32 unat_of_nat take_bit_nat_eq_self_iff)

lemma reused_parity:
  "q < pc \<Longrightarrow> take w (encode_into frags pc w out ! q) = rs_encode frags pc w ! q"
proof -
  assume q: "q < pc"
  define out' where "out' = (if length out < pc then resize pc [] out else out)"
  have "length out' \<ge> pc"
    by (simp add: out'_def)
  then have "encode_into frags pc w out ! q = encode_parity frags w q (out' ! q)"
    using q fold_update(2) [where f = "\<lambda>p out. encode_parity frags w p out" and d = out' and a = 0 and b = pc and i = q]
    by (simp add: encode_into_def Let_def out'_def)
  moreover have "take w (encode_parity frags w q b) = encode_parity frags w q []" for b
  proof (rule nth_equalityI)
    fix k
    assume "k < length (take w (encode_parity frags w q b))"
    then have "k < w"
      by simp
    then have "byte_at (encode_parity frags w q b) k = byte_at (encode_parity frags w q []) k"
      by (simp add: byte_at_encode_parity)
    with \<open>k < w\<close> show "take w (encode_parity frags w q b) ! k = encode_parity frags w q [] ! k"
      by (simp add: byte_at_def less_max_iff_disj)
  qed simp
  ultimately show ?thesis
    using q by (simp add: rs_encode_nth)
qed

text \<open>The call that sends fragment \<open>i\<close>.\<close>

definition call_at :: "u32 \<Rightarrow> nat \<Rightarrow> bytes \<Rightarrow> nat \<Rightarrow> nat \<Rightarrow> fragment_call" where
  "call_at mid w s pc i = \<lparr> fc_msg_id = mid, fc_idx = word_of_nat i, fc_cnt = word_of_nat (chunk_count w s + pc),
     fc_data_cnt = word_of_nat (chunk_count w s), fc_real_size = word_of_nat (real_size w s i),
     fc_data = (if i < chunk_count w s then chunk w s i else rs_encode (chunks w s) pc w ! (i - chunk_count w s)),
     fc_width = w, fc_ackable = True \<rparr>"

lemma fragment_calls:
  assumes "fragment_and_send log2 p payload mtu ce pe unix bufs = (p1, bufs1, calls)"
    and "chunk_count (fragment_payload mtu) (full_buffer payload) < 65536"
  defines "w \<equiv> fragment_payload mtu" and "s \<equiv> full_buffer payload"
  obtains pc where "pc \<le> chunk_count w s"
    "calls = map (call_at (fst (next_msg_id (m_msg_id_out p))) w s pc) [0..<chunk_count w s + pc]"
proof -
  let ?n = "chunk_count w s"
  have w: "0 < w"
    by (simp add: w_def fragment_payload_def Let_def)
  have "4 \<le> length s"
    by (simp add: s_def full_buffer_eq)
  then have n: "0 < ?n" "(length s + w - 1) div w = ?n" "(if ?n = 0 then 1 else ?n) = ?n"
    using chunk_count_pos [OF w, of s] by (simp_all add: chunk_count_def)
  obtain mid out where id: "next_msg_id (m_msg_id_out p) = (mid, out)"
    by fastforce
  obtain pw p' where ad: "adaptive_parity log2 (p\<lparr> m_msg_id_out := out \<rparr>)
      (m_peer_late_ratio (p\<lparr> m_msg_id_out := out \<rparr>)) ?n = (pw, p')"
    by fastforce
  define pcw where "pcw = (if unat (pw + ce + pe) > ?n then word_of_nat ?n else pw + ce + pe)"
  let ?bufs = "encode_into (chunks w s) (unat pcw) w bufs"
  have calls: "calls = map (\<lambda>i. \<lparr> fc_msg_id = mid, fc_idx = word_of_nat i, fc_cnt = word_of_nat (?n + unat pcw),
        fc_data_cnt = word_of_nat ?n, fc_real_size = word_of_nat (length (chunks w s ! i)),
        fc_data = chunks w s ! i, fc_width = w, fc_ackable = True \<rparr>) [0..<?n] @
      map (\<lambda>q. \<lparr> fc_msg_id = mid, fc_idx = word_of_nat (?n + q), fc_cnt = word_of_nat (?n + unat pcw),
        fc_data_cnt = word_of_nat ?n, fc_real_size = word_of_nat w, fc_data = take w (?bufs ! q),
        fc_width = w, fc_ackable = True \<rparr>) [0..<unat pcw]"
    using assms(1) id ad
    unfolding fragment_and_send_def Let_def w_def [symmetric] s_def [symmetric] n(2) n(3)
    by (auto simp: pcw_def cut_spans_chunks del: of_nat_add)
  have "unat pcw \<le> ?n"
    using assms(2)[folded w_def s_def] by (auto simp: pcw_def unat_of_nat take_bit_nat_eq_self_iff)
  moreover have "calls = map (call_at mid w s (unat pcw)) [0..<?n + unat pcw]"
  proof (rule nth_equalityI)
    fix i
    assume "i < length calls"
    then have i: "i < ?n + unat pcw"
      by (simp add: calls)
    show "calls ! i = map (call_at mid w s (unat pcw)) [0..<?n + unat pcw] ! i"
    proof (cases "i < ?n")
      case True
      then show ?thesis
        by (simp add: calls nth_append call_at_def real_size_def del: of_nat_add)
    next
      case False
      then show ?thesis
        using i reused_parity [of "i - ?n" "unat pcw" w "chunks w s" bufs]
        by (simp add: calls nth_append call_at_def real_size_def less_diff_conv2 del: of_nat_add)
    qed
  qed (simp add: calls)
  ultimately show thesis
    using that id by simp
qed

lemma data_packet_carries:
  assumes "data_packet cfg ids p ch (call_at mid w s pc i) unix now = (p', header, payload, keep)"
    and "i < chunk_count w s + pc" "w < 4096" "ch < 16"
  shows "carries mid w s pc ch header payload i"
proof -
  have ch: "channel_of (reserved_field r ch) = ch" for r
  proof -
    have "ch AND 0x0F = ch"
      using assms(4) by (simp add: field_masks take_bit_eq_mask [symmetric] word_unat_eq_iff unsigned_take_bit_eq
          take_bit_nat_eq_self_iff word_less_nat_alt)
    then show ?thesis
      by (simp add: channel_of_reserved)
  qed
  have size: "reserved_field (word_of_nat (real_size w s i)) ch AND kRealSizeMask = word_of_nat (real_size w s i)"
    using length_real_size [of w s i] assms(3) by (intro real_size_of_reserved) simp
  have payload: "blit 0 (take w (fc_data (call_at mid w s pc i))) (replicate w 0) = wire_fragment w s pc i"
    using assms(2) by (simp add: call_at_def wire_fragment_def blit_def resize_def rs_encode_nth min_def)
  have "h_message_id header = mid" "h_fragment_index header = word_of_nat i"
    "h_fragment_count header = word_of_nat (chunk_count w s + pc)" "h_flags header = word_of_nat (chunk_count w s)"
    "h_reserved header = reserved_field (word_of_nat (real_size w s i)) ch"
    "payload = blit 0 (take w (fc_data (call_at mid w s pc i))) (replicate w 0)"
    using assms(1) by (auto simp: data_packet_def Let_def call_at_def simp del: of_nat_add)
  then show ?thesis
    using assms(2) ch size payload by (simp add: carries_def del: of_nat_add)
qed

lemma data_packets_nth:
  "data_packets cfg ids p ch clk fcs = (p', pkts) \<Longrightarrow>
   length pkts = length fcs \<and> (\<forall>i<length fcs. \<exists>q q' unix now keep.
     data_packet cfg ids q ch (fcs ! i) unix now = (q', fst (pkts ! i), snd (pkts ! i), keep))"
proof (induction cfg ids p ch clk fcs arbitrary: p' pkts rule: data_packets.induct)
  case (2 cfg ids p ch clk fc fcs)
  obtain p1 header payload keep where d: "data_packet cfg ids p ch fc (fst (clk 0)) (snd (clk 0)) = (p1, header, payload, keep)"
    by (metis prod_cases4)
  obtain p2 rest where r: "data_packets cfg ids p1 ch (\<lambda>n. clk (Suc n)) fcs = (p2, rest)"
    by fastforce
  have "pkts = (header, payload) # rest"
    using 2(2) d r by (simp add: Let_def)
  moreover have "length rest = length fcs \<and> (\<forall>i<length fcs. \<exists>q q' unix now keep.
     data_packet cfg ids q ch (fcs ! i) unix now = (q', fst (rest ! i), snd (rest ! i), keep))"
    using 2(1) [OF d [symmetric] refl refl refl r] .
  ultimately show ?case
    using d by (auto simp: nth_Cons', blast)
qed auto

text \<open>What was sent, as seen by a receiver: each packet carries the fragment with its index.\<close>

lemma transmitted:
  assumes "transmit_message log2 cfg ids probe p payload ch unix clk bufs = (p2, bufs2, pkts)"
    and "chunk_count (fragment_payload (c_mtu cfg)) (full_buffer payload) < 65536"
    and "fragment_payload (c_mtu cfg) < 4096" "ch < 16"
  defines "w \<equiv> fragment_payload (c_mtu cfg)" and "s \<equiv> full_buffer payload"
    and "mid \<equiv> fst (next_msg_id (m_msg_id_out p))"
  obtains pc where "pc \<le> chunk_count w s" "length pkts = chunk_count w s + pc"
    "\<forall>i<length pkts. carries mid w s pc ch (fst (pkts ! i)) (snd (pkts ! i)) i"
proof -
  let ?ce = "if ch < 8 then c_channel_fec_extra cfg ! unat ch else 0" and ?pe = "if ch \<noteq> 0 then 0 else probe"
  obtain p1 bufs1 calls where f: "fragment_and_send log2 p payload (c_mtu cfg) ?ce ?pe unix bufs = (p1, bufs1, calls)"
    by (metis prod_cases3)
  obtain p2' pkts' where d: "data_packets cfg ids p1 ch clk calls = (p2', pkts')"
    by fastforce
  have pk: "pkts' = pkts"
    using assms(1) f d by (simp add: transmit_message_def Let_def)
  note nth = data_packets_nth [OF d, unfolded pk]
  obtain pc where pc: "pc \<le> chunk_count w s" "calls = map (call_at mid w s pc) [0..<chunk_count w s + pc]"
  proof (rule fragment_calls [OF f])
    show "chunk_count (fragment_payload (c_mtu cfg)) (full_buffer payload) < 65536"
      by (fact assms(2))
  qed (simp add: w_def s_def mid_def)
  have "carries mid w s pc ch (fst (pkts ! i)) (snd (pkts ! i)) i" if i: "i < chunk_count w s + pc" for i
  proof -
    have "calls ! i = call_at mid w s pc i" "i < length calls"
      using i by (simp_all add: pc(2))
    then obtain q q' u n k where "data_packet cfg ids q ch (call_at mid w s pc i) u n = (q', fst (pkts ! i), snd (pkts ! i), k)"
      using nth by metis
    then show ?thesis
      by (rule data_packet_carries) (use i assms(3,4) in \<open>simp_all add: w_def\<close>)
  qed
  then show thesis
    using that pc nth by simp
qed

lemma transit_full_buffer:
  assumes "fragment_payload mtu < 4096" "chunk_count (fragment_payload mtu) (full_buffer payload) + pc < 65536"
    and "length payload \<le> bound" "length payload < 2 ^ 32"
  shows "transit_ok (fragment_payload mtu) (full_buffer payload) pc bound" "drop 4 (full_buffer payload) = payload"
  using assms prefix_full_buffer [OF assms(4)]
  by (simp_all add: transit_ok_def full_buffer_eq fragment_payload_def Let_def)

section \<open>End to end\<close>

definition fresh_message :: "u32 \<Rightarrow> peer \<Rightarrow> bool" where
  "fresh_message mid q \<longleftrightarrow> map_of (m_incoming q) mid = None \<and> map_of (m_completed q) mid = None"

definition fragment_index :: "arrival \<Rightarrow> nat" where
  "fragment_index a = unat (h_fragment_index (a_header a))"

text \<open>The sizes for which sender and receiver agree on the header fields.\<close>

definition message_fits :: "tight_config \<Rightarrow> bytes \<Rightarrow> u8 \<Rightarrow> nat \<Rightarrow> nat \<Rightarrow> bool" where
  "message_fits cfg payload ch bound packets \<longleftrightarrow>
    fragment_payload (c_mtu cfg) < 4096 \<and> ch < 16 \<and> length payload \<le> bound \<and> length payload < 2 ^ 32 \<and>
    chunk_count (fragment_payload (c_mtu cfg)) (full_buffer payload) < 65536 \<and>
    packets < 65536 \<and> packets \<le> bound div 64 + 8"

lemma transmit_receive:
  assumes "transmit_message log2 cfg ids probe p payload ch unix clk bufs = (p2, bufs2, pkts)"
    and "message_fits cfg payload ch bound (length pkts)"
    and "fresh_message (fst (next_msg_id (m_msg_id_out p))) q"
    and "\<forall>a\<in>set as. (a_header a, a_payload a) \<in> set pkts" "\<forall>a\<in>set as. t0 \<le> a_now a"
  defines "w \<equiv> fragment_payload (c_mtu cfg)" and "s \<equiv> full_buffer payload"
  shows "\<exists>q' evs. receive_all mult buf bound ri q as = Inr (q', evs) \<and>
    (evs = [] \<and> (as \<noteq> [] \<longrightarrow> \<not> recoverable w s (length pkts - chunk_count w s) (fragment_index ` set as)) \<or>
     evs = [Deliver payload] \<or>
     evs = [Message_loss ch] \<and> (\<exists>a\<in>set as. min (ms 250) (12 * ri) \<le> a_now2 a - t0))"
proof -
  define mid where "mid = fst (next_msg_id (m_msg_id_out p))"
  have fits: "fragment_payload (c_mtu cfg) < 4096" "ch < 16" "length payload \<le> bound" "length payload < 2 ^ 32"
    "length pkts < 65536" "length pkts \<le> bound div 64 + 8"
    "chunk_count (fragment_payload (c_mtu cfg)) (full_buffer payload) < 65536"
    using assms(2) by (simp_all add: message_fits_def)
  obtain pc where pc: "pc \<le> chunk_count w s" "length pkts = chunk_count w s + pc"
    "\<forall>i<length pkts. carries mid w s pc ch (fst (pkts ! i)) (snd (pkts ! i)) i"
    by (rule transmitted [OF assms(1) fits(7,1,2)]) (simp add: w_def s_def mid_def)
  have mid: "mid \<noteq> 0"
    using msg_id_bounds(1) [of "m_msg_id_out p"] by (auto simp: mid_def)
  have ok: "transit_ok w s pc bound" "drop 4 s = payload"
    using transit_full_buffer [OF fits(1) _ fits(3,4), of pc] fits(5) pc(2) by (simp_all add: w_def s_def)
  have aw: "awaiting mid w s pc ch t0 {} q"
    using assms(3) by (simp add: awaiting_def fresh_message_def mid_def)
  have car: "\<forall>a\<in>set as. carries mid w s pc ch (a_header a) (a_payload a) (fragment_index a) \<and> t0 \<le> a_now a"
  proof
    fix a
    assume a: "a \<in> set as"
    then obtain i where i: "i < length pkts" "(a_header a, a_payload a) = pkts ! i"
      using assms(4) by (metis in_set_conv_nth)
    then have c: "carries mid w s pc ch (a_header a) (a_payload a) i"
      using pc(3) by (metis fst_conv snd_conv)
    then have "fragment_index a = i"
      using i(1) fits(5) by (simp add: carries_def fragment_index_def unat_of_nat take_bit_nat_eq_self_iff)
    with c assms(5) a show "carries mid w s pc ch (a_header a) (a_payload a) (fragment_index a) \<and> t0 \<le> a_now a"
      by simp
  qed
  have few: "chunk_count w s + pc \<le> bound div 64 + 8"
    using fits(6) pc(2) by simp
  obtain q' evs where r: "receive_all mult buf bound ri q as = Inr (q', evs)"
    and e: "evs = [] \<and> awaiting mid w s pc ch t0 ({} \<union> fragment_index ` set as) q' \<or> evs = [Deliver (drop 4 s)] \<or>
     evs = [Message_loss ch] \<and> (\<exists>a\<in>set as. min (ms 250) (12 * ri) \<le> a_now2 a - t0)"
    using receive_all_awaiting [OF aw ok(1) mid few car, of mult buf ri] by (elim exE conjE)
  have "length pkts - chunk_count w s = pc"
    using pc(2) by simp
  with r e show ?thesis
    by (auto simp: awaiting_def ok(2))
qed

text \<open>
  C2: a message is never garbled. Whatever packets of a message arrive, in whatever order,
  repeated or lost, the receiver hands over at most one thing for it, once: the payload that
  was sent, byte for byte, or the notice that the message is lost. (As long as the message is
  remembered as completed: a packet repeated after \<open>check_offline\<close>, theory \<open>Link\<close>, has purged the
  identifier from \<open>m_completed\<close> would open the message again.)
\<close>

theorem message_never_garbled:
  assumes "transmit_message log2 cfg ids probe p payload ch unix clk bufs = (p2, bufs2, pkts)"
    and "message_fits cfg payload ch bound (length pkts)"
    and "fresh_message (fst (next_msg_id (m_msg_id_out p))) q"
    and "\<forall>a\<in>set as. (a_header a, a_payload a) \<in> set pkts"
  shows "\<exists>q' evs. receive_all mult buf bound ri q as = Inr (q', evs) \<and>
    evs \<in> {[], [Deliver payload], [Message_loss ch]}"
proof -
  obtain t0 where "\<forall>a\<in>set as. t0 \<le> a_now a"
    by (meson Min_le finite_imageI finite_set image_eqI)
  from transmit_receive [OF assms this, of mult buf ri] show ?thesis
    by blast
qed

definition arrive_at :: "time \<Rightarrow> packet_header \<times> bytes \<Rightarrow> arrival" where
  "arrive_at t k = \<lparr> a_header = fst k, a_payload = snd k, a_rtt = 0, a_now = t, a_unix = 0, a_now2 = t, a_unix2 = 0 \<rparr>"

lemma example_packets:
  assumes "transmit_message log2 default_config ids 0 new_peer [7] 0 0 clk [] = (p2, bufs2, pkts)"
  shows "0 < length pkts" "length pkts \<le> 2" "\<forall>i<length pkts. unat (h_fragment_index (fst (pkts ! i))) = i"
    "chunk_count (fragment_payload (c_mtu default_config)) (full_buffer [7]) = 1"
proof -
  have w: "fragment_payload (c_mtu default_config) = 1302"
    by (simp add: fragment_payload_def default_config_def kHeaderSize_def)
  show n: "chunk_count (fragment_payload (c_mtu default_config)) (full_buffer [7]) = 1"
    by (simp add: w chunk_count_def full_buffer_eq)
  obtain pc where "pc \<le> 1" "length pkts = 1 + pc"
    and c: "\<forall>i<length pkts. carries (fst (next_msg_id (m_msg_id_out new_peer)))
      (fragment_payload (c_mtu default_config)) (full_buffer [7]) pc 0 (fst (pkts ! i)) (snd (pkts ! i)) i"
    by (rule transmitted [OF assms]) (simp_all only: n, simp_all add: w)
  then show "0 < length pkts" "length pkts \<le> 2"
    by simp_all
  then show "\<forall>i<length pkts. unat (h_fragment_index (fst (pkts ! i))) = i"
    using c by (simp add: carries_def unat_of_nat take_bit_nat_eq_self_iff)
qed

lemma example_fits: "n \<le> 2 \<Longrightarrow> message_fits default_config [7] 0 65536 n"
  by (simp add: message_fits_def fragment_payload_def default_config_def kHeaderSize_def chunk_count_def full_buffer_eq)

lemma message_never_garbled_witness:
  "\<exists>q' evs. receive_all 4 16 65536 (ms 1000) new_peer (map (arrive_at 0)
     (rev (snd (snd (transmit_message (\<lambda>x. 0) default_config \<lparr> l_client_id = 1, l_session_id = 2 \<rparr> 0 new_peer [7]
       0 0 (\<lambda>n. (0, 0)) []))))) = Inr (q', evs) \<and> evs \<in> {[], [Deliver [7]], [Message_loss 0]}"
proof -
  obtain p2 bufs2 pkts where t: "transmit_message (\<lambda>x. 0) default_config \<lparr> l_client_id = 1, l_session_id = 2 \<rparr>
      0 new_peer [7] 0 0 (\<lambda>n. (0, 0)) [] = (p2, bufs2, pkts)"
    by (rule prod_cases3)
  show ?thesis
    unfolding t snd_conv using t
    by (rule message_never_garbled)
      (use example_packets [OF t] in \<open>auto simp: example_fits fresh_message_def new_peer_def arrive_at_def\<close>)
qed

text \<open>
  C3: a message is delivered despite losses. If the packets that arrive within the waiting time
  of the first include all data fragments, or (of at most 255 data fragments) at least as many
  parity fragments as data fragments are missing, the first of them with consecutive indices,
  then exactly the payload is delivered, exactly once.
\<close>

theorem message_delivered_despite_loss:
  assumes "transmit_message log2 cfg ids probe p payload ch unix clk bufs = (p2, bufs2, pkts)"
    and "message_fits cfg payload ch bound (length pkts)"
    and "fresh_message (fst (next_msg_id (m_msg_id_out p))) q"
    and "\<forall>a\<in>set as. (a_header a, a_payload a) \<in> set pkts" "\<forall>a\<in>set as. t0 \<le> a_now a"
    and "\<forall>a\<in>set as. a_now2 a - t0 < min (ms 250) (12 * ri)" "as \<noteq> []"
    and "recoverable (fragment_payload (c_mtu cfg)) (full_buffer payload)
      (length pkts - chunk_count (fragment_payload (c_mtu cfg)) (full_buffer payload)) (fragment_index ` set as)"
  shows "\<exists>q'. receive_all mult buf bound ri q as = Inr (q', [Deliver payload])"
proof -
  have "\<not> (\<exists>a\<in>set as. min (ms 250) (12 * ri) \<le> a_now2 a - t0)"
    using assms(6) by fastforce
  with transmit_receive [OF assms(1-5), of mult buf ri] assms(7,8) show ?thesis
    by auto
qed

lemma message_delivered_despite_loss_witness:
  "\<exists>q'. receive_all 4 16 65536 (ms 1000) new_peer (map (arrive_at 0)
     (rev (snd (snd (transmit_message (\<lambda>x. 0) default_config \<lparr> l_client_id = 1, l_session_id = 2 \<rparr> 0 new_peer [7]
       0 0 (\<lambda>n. (0, 0)) []))))) = Inr (q', [Deliver [7]])"
proof -
  obtain p2 bufs2 pkts where t: "transmit_message (\<lambda>x. 0) default_config \<lparr> l_client_id = 1, l_session_id = 2 \<rparr>
      0 new_peer [7] 0 0 (\<lambda>n. (0, 0)) [] = (p2, bufs2, pkts)"
    by (rule prod_cases3)
  note ex = example_packets [OF t]
  have "0 \<in> fragment_index ` set (map (arrive_at 0) (rev pkts))"
    using ex(1,3) by (auto simp: fragment_index_def arrive_at_def image_iff intro!: bexI [of _ "pkts ! 0"])
  then have "lost (fragment_payload (c_mtu default_config)) (full_buffer [7])
      (fragment_index ` set (map (arrive_at 0) (rev pkts))) = {}"
    unfolding lost_def ex(4) by (auto simp del: set_map set_rev)
  then have "recoverable (fragment_payload (c_mtu default_config)) (full_buffer [7]) n
      (fragment_index ` set (map (arrive_at 0) (rev pkts)))" for n
    by (simp add: recoverable_def)
  then show ?thesis
    unfolding t snd_conv
    by (intro message_delivered_despite_loss [OF t])
      (use ex in \<open>auto simp: example_fits fresh_message_def new_peer_def arrive_at_def ms_def\<close>)
qed

end
