(* ===== verification/Reporting.thy ===== *)
theory Reporting
  imports Reassembler
begin

text \<open>
  Reports, \<open>report.cpp\<close>: what the receiver measured in an interval is packed into a payload,
  and the sender prunes and retransmits its pending packets from it. The scan of the missing
  packets, the late ratio and the cursor are as in \<open>build_payload\<close>; the tail average of the
  histogram (\<open>p999_us\<close>) is left out, nothing reads it. The resend callback is a list of calls.
\<close>

definition kMaxRetries :: u32 where "kMaxRetries = 10"
definition kMinCeSamples :: u64 where "kMinCeSamples = 20"

section \<open>Missing packets\<close>

definition skip_gap :: "peer \<Rightarrow> u32 \<Rightarrow> peer" where
  "skip_gap p g =
    (if m_seq_initialized p \<and> g = m_next_expected_seq p
     then let (recv, nxt) = advance (m_recv_seqs p) (m_next_expected_seq p + 1)
       in p\<lparr> m_recv_seqs := recv, m_next_expected_seq := nxt \<rparr>
     else p)"

definition loss_threshold_us :: "peer \<Rightarrow> u32" where
  "loss_threshold_us p =
    (let rtt_threshold = (if m_sender_rtt_us p > 0 then m_sender_rtt_us p else 10000);
         loss_threshold = rtt_threshold * 7 div 2
     in if rtt_threshold < 10000 then 100000 else loss_threshold)"

definition forget_missing :: "peer \<Rightarrow> u32 \<Rightarrow> peer" where
  "forget_missing p g = p\<lparr> m_missing_channel := om_del g (m_missing_channel p),
     m_missing_seqs := om_del g (m_missing_seqs p) \<rparr>"

text \<open>One turn of the loop over the missing packets; the lost ones are collected.\<close>

definition scan_gap :: "time \<Rightarrow> u32 \<Rightarrow> int \<Rightarrow> peer \<times> u32 list \<Rightarrow> u32 \<times> time \<Rightarrow> peer \<times> u32 list" where
  "scan_gap now loss_threshold give_up_us st e =
    (case st of (p, lost_seqs) \<Rightarrow> case e of (g, since) \<Rightarrow>
     let elapsed_us = to_us (now - since);
         gch = (case map_of (m_missing_channel p) g of None \<Rightarrow> 0 | Some c \<Rightarrow> c);
         reliable = (gch < 8 \<and> m_channel_reliable p ! unat gch \<and> m_peer_retransmit p)
     in if \<not> reliable then (forget_missing (skip_gap p g) g, lost_seqs)
        else if elapsed_us > give_up_us then (forget_missing p g, lost_seqs)
        else if elapsed_us > uint loss_threshold then (skip_gap p g, lost_seqs @ [g])
        else (p, lost_seqs))"

definition drop_oldest :: "peer \<Rightarrow> peer" where
  "drop_oldest p = p\<lparr> m_missing_channel := om_del (fst (hd (m_missing_seqs p))) (m_missing_channel p),
     m_missing_seqs := tl (m_missing_seqs p) \<rparr>"

definition scan_missing :: "peer \<Rightarrow> time \<Rightarrow> time \<Rightarrow> peer \<times> u32 list" where
  "scan_missing p report_interval now =
    (let give_up_us = to_us (report_interval * (uint kMaxRetries + 2));
         (p, lost_seqs) = foldl (scan_gap now (loss_threshold_us p) give_up_us) (p, []) (m_missing_seqs p)
     in ((drop_oldest ^^ (length (m_missing_seqs p) - 4096)) p, lost_seqs))"

section \<open>Late ratio\<close>

fun find_bin :: "u32 list \<Rightarrow> u64 \<Rightarrow> u64 \<Rightarrow> u64 \<Rightarrow> u64" where
  "find_bin [] b cum target = 0"
| "find_bin (c # cs) b cum target =
    (let cum = cum + ucast c in if cum > target then b * 8000 + 4000 else find_bin cs (b + 1) cum target)"

definition over_line :: "u32 list \<Rightarrow> u64 \<Rightarrow> u64" where
  "over_line hist line_us =
    (let line_bin = unat (line_us div 8000)
     in if line_bin + 1 < length hist
        then foldl (\<lambda>over b. over + ucast (hist ! b)) 0 [line_bin + 1..<length hist] +
          ucast (hist ! line_bin) * (8000 - (line_us - word_of_nat line_bin * 8000)) div 8000
        else 0)"

text \<open>Result: the ratio, the median in microseconds, and the peer with the new late line.\<close>

definition late_statistics :: "peer \<Rightarrow> u32 \<Rightarrow> nat \<Rightarrow> double \<times> u64 \<times> peer" where
  "late_statistics p late_buffer_ms lost_this_interval =
    (let lost_for_late = (if m_ce_marks p > 0 then 0 else word_of_nat lost_this_interval :: u64)
     in if late_buffer_ms > 0 \<and> m_hist_samples p > 0 then
          let p50_us = find_bin (m_latency_hist p) 0 0 (m_hist_samples p div 2);
              line_us = p50_us + ucast late_buffer_ms * 1000;
              over = over_line (m_latency_hist p) line_us;
              denom = m_hist_samples p + lost_for_late;
              late_ratio = fdiv (fof (uint (over + lost_for_late))) (fof (uint (if denom > 0 then denom else 1)));
              late_ratio = (if late_ratio > 1 then 1 else late_ratio)
          in (late_ratio, p50_us, p\<lparr> m_late_line_us := line_us \<rparr>)
        else
          let denom = m_transit_samples p + lost_for_late
          in (fdiv (fof (uint (m_late_samples p + lost_for_late))) (fof (uint (if denom > 0 then denom else 1))), 0, p))"

definition ratio_10000 :: "double \<Rightarrow> u16" where
  "ratio_10000 late_ratio = word_of_int (ftrunc (fmul late_ratio 10000))"

definition ack_of :: "peer \<Rightarrow> u32" where
  "ack_of p = (if m_seq_initialized p
     then (if m_next_expected_seq p > 0 then m_next_expected_seq p - 1 else 0) else 0)"

definition loss_ratio_10000 :: "u32 \<Rightarrow> u32 \<Rightarrow> nat \<Rightarrow> u16" where
  "loss_ratio_10000 cursor_before ack_seq lost_this_interval =
    (let cursor_advance = ack_seq + 1 - cursor_before; lost = (word_of_nat lost_this_interval :: u32)
     in if cursor_advance > 0 \<and> lost > 0
        then ucast (min (10000 :: u32) (ucast ((ucast lost * 10000 :: u64) div ucast cursor_advance)))
        else 0)"

definition recv_rate_of :: "peer \<Rightarrow> time \<Rightarrow> u64" where
  "recv_rate_of p report_interval =
    (let interval_s = (word_of_int (max (report_interval div 1000000) 1) :: u64)
     in if m_recv_bytes p \<ge> 4096 then m_recv_bytes p * 1000 div interval_s else 0)"

definition ce_ratio_of :: "peer \<Rightarrow> u64" where
  "ce_ratio_of p =
    (let tot = m_ce_marks p + m_data_pkts p
     in if tot \<ge> kMinCeSamples
        then (let r = (if tot > 0 then m_ce_marks p * 10000 div tot else 0) in if r > 10000 then 10000 else r)
        else 0)"

section \<open>The payload\<close>

text \<open>What \<open>build_payload\<close> has measured when it starts to write.\<close>

record report_fields =
  rp_ack :: u32
  rp_ratio :: u16
  rp_lost :: "u32 list"
  rp_probe_bw :: u64
  rp_recv_rate :: u64
  rp_loss :: u16
  rp_ce :: u64
  rp_p50_us :: u64
  rp_frame_max :: u32
  rp_frame_hist :: "u32 list"
  rp_frame_pairs :: "(u16 \<times> u16) list"

definition lost_count_of :: "u32 list \<Rightarrow> nat" where
  "lost_count_of lost_seqs =
    (let lost_count = (word_of_nat (length lost_seqs) :: u16) in unat (if lost_count > 256 then 256 else lost_count))"

definition put_lost :: "u32 list \<Rightarrow> nat \<Rightarrow> bytes \<Rightarrow> bytes" where
  "put_lost lost_seqs n p = foldl (\<lambda>p i. put32 (12 + i * 4) (lost_seqs ! i) p) p [0..<n]"

definition put_hist :: "nat \<Rightarrow> u32 list \<Rightarrow> bytes \<Rightarrow> bytes" where
  "put_hist off hist p = foldl (\<lambda>p b. p[off + b := ucast (if hist ! b > 255 then 255 else hist ! b)]) p [0..<length hist]"

definition put_pairs :: "nat \<Rightarrow> (u16 \<times> u16) list \<Rightarrow> nat \<Rightarrow> bytes \<Rightarrow> bytes" where
  "put_pairs off pairs n p =
    foldl (\<lambda>p i. put16 (off + 2 + i * 4) (snd (pairs ! i)) (put16 (off + i * 4) (fst (pairs ! i)) p)) p [0..<n]"

text \<open>The fixed fields, and the buffer made long enough for the frame statistics.\<close>

definition write_head :: "bool \<Rightarrow> report_fields \<Rightarrow> nat \<Rightarrow> bytes" where
  "write_head lite_mode r n =
    (let p = replicate (16 + n * 4 + 14) 0;
         p = put32 0 (rp_ack r) p;
         p = put16 4 (rp_ratio r) p;
         p = put16 6 (word_of_nat n) p;
         p = put32 8 0 p;
         p = put_lost (rp_lost r) n p;
         p = put32 (12 + n * 4) (ucast (rp_probe_bw r AND 0xFFFFFFFF)) p;
         p = put32 (16 + n * 4) (ucast (rp_recv_rate r AND 0xFFFFFFFF)) p;
         p = put16 (22 + n * 4) (ucast (rp_ce r)) p;
         p = put16 (20 + n * 4) (rp_loss r) p;
         p = put16 (24 + n * 4) (ucast (rp_p50_us r div 1000)) p;
         base = 12 + n * 4 + 14;
         p = resize (base + 1 + 2 + 64 + 1 + 4 * 48) 0 p;
         p = p[base := (if lite_mode then 0 else 1)]
     in put16 (base + 1) (ucast (min (rp_frame_max r) 65535)) p)"

definition write_report :: "bool \<Rightarrow> report_fields \<Rightarrow> bytes" where
  "write_report lite_mode r =
    (let n = lost_count_of (rp_lost r);
         p = write_head lite_mode r n;
         base = 12 + n * 4 + 14
     in if lite_mode then resize (base + 3 + 64) 0 (put_hist (base + 3) (rp_frame_hist r) p)
        else
          let k = min (length (rp_frame_pairs r)) 48;
              p = p[base + 3 := word_of_nat k]
          in resize (base + 4 + k * 4) 0 (put_pairs (base + 4) (rp_frame_pairs r) k p))"

definition measure :: "peer \<Rightarrow> time \<Rightarrow> u32 \<Rightarrow> time \<Rightarrow> report_fields \<times> peer" where
  "measure p report_interval late_buffer_ms now =
    (let cursor_before = (if m_seq_initialized p then m_next_expected_seq p else 0);
         (p, lost_seqs) = scan_missing p report_interval now;
         (late_ratio, p50_us, p) = late_statistics p late_buffer_ms (length lost_seqs);
         ack_seq = ack_of p;
         p = p\<lparr> m_transit_samples := 0, m_late_samples := 0, m_latency_hist := replicate 256 0, m_hist_samples := 0 \<rparr>;
         p = finalize_probe_train p now;
         r = \<lparr> rp_ack = ack_seq, rp_ratio = ratio_10000 late_ratio, rp_lost = lost_seqs,
           rp_probe_bw = m_probe_bw_bps p, rp_recv_rate = recv_rate_of p report_interval,
           rp_loss = loss_ratio_10000 cursor_before ack_seq (length lost_seqs), rp_ce = ce_ratio_of p,
           rp_p50_us = p50_us, rp_frame_max = m_frame_max_bytes p, rp_frame_hist = m_frame_latency_hist p,
           rp_frame_pairs = m_frame_pairs p \<rparr>
     in (r, p\<lparr> m_probe_bw_bps := 0, m_recv_bytes := 0, m_ce_marks := 0, m_data_pkts := 0,
           m_frame_latency_hist := replicate 64 0, m_frame_hist_samples := 0, m_frame_max_bytes := 0,
           m_frame_pairs := [] \<rparr>))"

definition build_payload :: "peer \<Rightarrow> time \<Rightarrow> u32 \<Rightarrow> bool \<Rightarrow> time \<Rightarrow> bytes \<times> peer" where
  "build_payload p report_interval late_buffer_ms lite_mode now =
    (let (r, p) = measure p report_interval late_buffer_ms now in (write_report lite_mode r, p))"

section \<open>Handling a report\<close>

record report_result =
  rr_probe_bw :: u64
  rr_recv_rate :: u64
  rr_loss_ratio :: u16
  rr_ce_ratio :: u16
  rr_frame_lite :: bool
  rr_frame_hist :: "u32 list"
  rr_frame_hist_samples :: u32
  rr_frame_max_bytes :: u32
  rr_frame_pairs :: "(u16 \<times> u16) list"

definition zero_result :: report_result where
  "zero_result = \<lparr> rr_probe_bw = 0, rr_recv_rate = 0, rr_loss_ratio = 0, rr_ce_ratio = 0, rr_frame_lite = True,
     rr_frame_hist = replicate 64 0, rr_frame_hist_samples = 0, rr_frame_max_bytes = 0, rr_frame_pairs = [] \<rparr>"

definition parse_frames :: "bytes \<Rightarrow> nat \<Rightarrow> report_result \<Rightarrow> report_result" where
  "parse_frames p fbase r =
    (if length p \<ge> fbase + 1 then
       let r = r\<lparr> rr_frame_lite := (p ! fbase AND 1 = 0) \<rparr>
       in if rr_frame_lite r then
            (if length p \<ge> fbase + 3 + 64
             then r\<lparr> rr_frame_max_bytes := ucast (get16 p (fbase + 1)),
               rr_frame_hist := map (\<lambda>b. ucast (p ! (fbase + 3 + b))) [0..<64],
               rr_frame_hist_samples := rr_frame_hist_samples r + sum_list (map (\<lambda>b. ucast (p ! (fbase + 3 + b))) [0..<64]) \<rparr>
             else r)
          else
            (if length p \<ge> fbase + 4 then
               let r = r\<lparr> rr_frame_max_bytes := ucast (get16 p (fbase + 1)) \<rparr>;
                   n = min (unat (p ! (fbase + 3))) 48
               in if length p \<ge> fbase + 4 + n * 4
                  then r\<lparr> rr_frame_pairs := rr_frame_pairs r @
                    map (\<lambda>i. (get16 p (fbase + 4 + i * 4), get16 p (fbase + 6 + i * 4))) [0..<n] \<rparr>
                  else r
             else r)
     else r)"

text \<open>The fields of a payload: cursor, late ratio, lost sequence numbers, median and result.\<close>

definition parse_report :: "bytes \<Rightarrow> (u32 \<times> u16 \<times> u32 list \<times> u16 \<times> report_result) option" where
  "parse_report p =
    (if length p < 12 then None
     else
       let lost_count = unat (get16 p 6); expected = 12 + lost_count * 4
       in if length p < expected then None
          else
            let r = zero_result\<lparr>
                  rr_probe_bw := (if length p \<ge> expected + 4 then ucast (get32 p expected) else 0),
                  rr_recv_rate := (if length p \<ge> expected + 8 then ucast (get32 p (expected + 4)) else 0),
                  rr_loss_ratio := (if length p \<ge> expected + 10 then get16 p (expected + 8) else 0),
                  rr_ce_ratio := (if length p \<ge> expected + 12 then get16 p (expected + 10) else 0) \<rparr>;
                p50_ms = (if length p \<ge> expected + 14 then get16 p (expected + 12) else 0)
            in Some (get32 p 0, get16 p 4, map (\<lambda>i. get32 p (12 + i * 4)) [0..<lost_count], p50_ms,
                 parse_frames p (expected + 14) r))"

definition late_ratio_of :: "u16 \<Rightarrow> double" where
  "late_ratio_of raw = (let p = fdiv (fof (uint raw)) 10000; p = (if p < 0 then 0 else p) in if p > 1 then 1 else p)"

definition mark_resent :: "time \<Rightarrow> (u32, pending_send) omap \<Rightarrow> u32 \<Rightarrow> (u32, pending_send) omap" where
  "mark_resent now pending k =
    (case map_of pending k of
       None \<Rightarrow> pending
     | Some ps \<Rightarrow> if ps_retries ps < kMaxRetries
         then om_put k (ps\<lparr> ps_last_send := now, ps_retries := ps_retries ps + 1 \<rparr>) pending else pending)"

definition handle_lost :: "peer \<Rightarrow> u32 \<Rightarrow> u32 list \<Rightarrow> time \<Rightarrow> peer \<times> (packet_header \<times> bytes) list" where
  "handle_lost p ack_seq lost_seqs now =
    (let snapshot = filter (\<lambda>(k, ps). k \<in> set lost_seqs \<and> ps_retries ps < kMaxRetries) (m_pending p);
         p = p\<lparr> m_pending := filter (\<lambda>(k, ps). \<not> (k \<le> ack_seq \<and> k \<notin> set lost_seqs \<or> ps_retries ps \<ge> kMaxRetries)) (m_pending p) \<rparr>;
         p = p\<lparr> m_pending := foldl (mark_resent now) (m_pending p) (map fst snapshot) \<rparr>
     in (p, map (\<lambda>(k, ps). (ps_header ps, ps_payload ps)) snapshot))"

definition report_handle :: "peer \<Rightarrow> bytes \<Rightarrow> time \<Rightarrow> report_result \<times> peer \<times> (packet_header \<times> bytes) list" where
  "report_handle p payload now =
    (case parse_report payload of
       None \<Rightarrow> (zero_result, p, [])
     | Some (ack_seq, late_raw, lost_seqs, p50_ms, result) \<Rightarrow>
         let p = p\<lparr> m_peer_late_ratio := late_ratio_of late_raw, m_have_late_report := True,
               m_peer_p50_ms := p50_ms \<rparr>;
             (p, resends) = handle_lost p ack_seq lost_seqs now
         in (result, p, resends))"

section \<open>Reading back a report\<close>

lemma get_put_other [buffer_simps]:
  "off + 2 \<le> length p \<Longrightarrow> i + 2 \<le> length p \<Longrightarrow> i + 2 \<le> off \<or> off + 2 \<le> i \<Longrightarrow> get16 (put16 off a p) i = get16 p i"
  "off + 4 \<le> length p \<Longrightarrow> i + 2 \<le> length p \<Longrightarrow> i + 2 \<le> off \<or> off + 4 \<le> i \<Longrightarrow> get16 (put32 off b p) i = get16 p i"
  "off + 2 \<le> length p \<Longrightarrow> i + 4 \<le> length p \<Longrightarrow> i + 4 \<le> off \<or> off + 2 \<le> i \<Longrightarrow> get32 (put16 off a p) i = get32 p i"
  "off + 4 \<le> length p \<Longrightarrow> i + 4 \<le> length p \<Longrightarrow> i + 4 \<le> off \<or> off + 4 \<le> i \<Longrightarrow> get32 (put32 off b p) i = get32 p i"
  by (auto intro!: get16_cong get32_cong simp: nth_put)

lemma get_update_other [buffer_simps]:
  "j < i \<or> i + 2 \<le> j \<Longrightarrow> get16 (p[j := x]) i = get16 p i"
  "j < i \<or> i + 4 \<le> j \<Longrightarrow> get32 (p[j := x]) i = get32 p i"
  by (auto intro!: get16_cong get32_cong)

lemma get_resize [buffer_simps]:
  "i + 2 \<le> n \<Longrightarrow> i + 2 \<le> length p \<Longrightarrow> get16 (resize n z p) i = get16 p i"
  "i + 4 \<le> n \<Longrightarrow> i + 4 \<le> length p \<Longrightarrow> get32 (resize n z p) i = get32 p i"
  by (auto intro!: get16_cong get32_cong simp: nth_resize)

lemma put_lost_spec:
  assumes "12 + n * 4 \<le> length p"
  shows "length (put_lost ls n p) = length p"
    "i + 2 \<le> length p \<Longrightarrow> i + 2 \<le> 12 \<or> 12 + n * 4 \<le> i \<Longrightarrow> get16 (put_lost ls n p) i = get16 p i"
    "i + 4 \<le> length p \<Longrightarrow> i + 4 \<le> 12 \<or> 12 + n * 4 \<le> i \<Longrightarrow> get32 (put_lost ls n p) i = get32 p i"
    "j < n \<Longrightarrow> get32 (put_lost ls n p) (12 + j * 4) = ls ! j"
proof -
  have *: "length (put_lost ls m p) = length p \<and>
    (\<forall>i. i + 2 \<le> length p \<longrightarrow> i + 2 \<le> 12 \<or> 12 + m * 4 \<le> i \<longrightarrow> get16 (put_lost ls m p) i = get16 p i) \<and>
    (\<forall>i. i + 4 \<le> length p \<longrightarrow> i + 4 \<le> 12 \<or> 12 + m * 4 \<le> i \<longrightarrow> get32 (put_lost ls m p) i = get32 p i) \<and>
    (\<forall>j<m. get32 (put_lost ls m p) (12 + j * 4) = ls ! j)" if "m \<le> n" for m
    using that
  proof (induction m)
    case (Suc m)
    have step: "put_lost ls (Suc m) p = put32 (12 + m * 4) (ls ! m) (put_lost ls m p)"
      by (simp add: put_lost_def)
    from Suc show ?case
      unfolding step using assms by (auto simp: buffer_simps less_Suc_eq)
  qed (simp add: put_lost_def)
  show "length (put_lost ls n p) = length p"
    "i + 2 \<le> length p \<Longrightarrow> i + 2 \<le> 12 \<or> 12 + n * 4 \<le> i \<Longrightarrow> get16 (put_lost ls n p) i = get16 p i"
    "i + 4 \<le> length p \<Longrightarrow> i + 4 \<le> 12 \<or> 12 + n * 4 \<le> i \<Longrightarrow> get32 (put_lost ls n p) i = get32 p i"
    "j < n \<Longrightarrow> get32 (put_lost ls n p) (12 + j * 4) = ls ! j"
    using * [OF order_refl] by blast+
qed

lemma put_hist_spec:
  assumes "off + length hist \<le> length p"
  shows "length (put_hist off hist p) = length p"
    "i < off \<Longrightarrow> put_hist off hist p ! i = p ! i"
    "b < length hist \<Longrightarrow> put_hist off hist p ! (off + b) = ucast (if hist ! b > 255 then 255 else hist ! b)"
proof -
  let ?f = "\<lambda>p b. p[off + b := ucast (if hist ! b > 255 then 255 else hist ! b)]"
  have *: "length (foldl ?f p [0..<m]) = length p \<and> (\<forall>i<off. foldl ?f p [0..<m] ! i = p ! i) \<and>
    (\<forall>b<m. foldl ?f p [0..<m] ! (off + b) = ucast (if hist ! b > 255 then 255 else hist ! b))"
    if "m \<le> length hist" for m
    using that
  proof (induction m)
    case (Suc m)
    then show ?case
      using assms by (auto simp: less_Suc_eq nth_list_update)
  qed simp
  show "length (put_hist off hist p) = length p"
    "i < off \<Longrightarrow> put_hist off hist p ! i = p ! i"
    "b < length hist \<Longrightarrow> put_hist off hist p ! (off + b) = ucast (if hist ! b > 255 then 255 else hist ! b)"
    using * [OF order_refl] unfolding put_hist_def by blast+
qed

lemma put_pairs_spec:
  assumes "off + n * 4 \<le> length p"
  shows "length (put_pairs off ps n p) = length p"
    "i < off \<Longrightarrow> put_pairs off ps n p ! i = p ! i"
    "j < n \<Longrightarrow> get16 (put_pairs off ps n p) (off + j * 4) = fst (ps ! j)"
    "j < n \<Longrightarrow> get16 (put_pairs off ps n p) (off + 2 + j * 4) = snd (ps ! j)"
proof -
  have *: "length (put_pairs off ps m p) = length p \<and> (\<forall>i<off. put_pairs off ps m p ! i = p ! i) \<and>
    (\<forall>j<m. get16 (put_pairs off ps m p) (off + j * 4) = fst (ps ! j) \<and>
      get16 (put_pairs off ps m p) (off + 2 + j * 4) = snd (ps ! j))" if "m \<le> n" for m
    using that
  proof (induction m)
    case (Suc m)
    have step: "put_pairs off ps (Suc m) p =
        put16 (off + 2 + m * 4) (snd (ps ! m)) (put16 (off + m * 4) (fst (ps ! m)) (put_pairs off ps m p))"
      by (simp add: put_pairs_def)
    from Suc show ?case
      unfolding step using assms by (auto simp: buffer_simps less_Suc_eq)
  qed (simp add: put_pairs_def)
  show "length (put_pairs off ps n p) = length p"
    "i < off \<Longrightarrow> put_pairs off ps n p ! i = p ! i"
    "j < n \<Longrightarrow> get16 (put_pairs off ps n p) (off + j * 4) = fst (ps ! j)"
    "j < n \<Longrightarrow> get16 (put_pairs off ps n p) (off + 2 + j * 4) = snd (ps ! j)"
    using * [OF order_refl] by blast+
qed

text \<open>The writes of the head in terms of arbitrary values.\<close>

definition head_writes :: "nat \<Rightarrow> u32 list \<Rightarrow> u32 \<Rightarrow> u16 \<Rightarrow> u16 \<Rightarrow> u32 \<Rightarrow> u32 \<Rightarrow> u16 \<Rightarrow> u16 \<Rightarrow> u16 \<Rightarrow> bytes" where
  "head_writes n ls ack ratio cnt bw rate ce loss p50 =
    put16 (24 + n * 4) p50 (put16 (20 + n * 4) loss (put16 (22 + n * 4) ce (put32 (16 + n * 4) rate
      (put32 (12 + n * 4) bw (put_lost ls n (put32 8 0 (put16 6 cnt (put16 4 ratio (put32 0 ack
        (replicate (30 + n * 4) 0))))))))))"

text \<open>The reading rules for buffers of a known size, so that a long chain of writes is simplified in one pass.\<close>

lemma sized_put:
  "length p = L \<Longrightarrow> off + 2 \<le> L \<Longrightarrow> length (put16 off a p) = L"
  "length p = L \<Longrightarrow> off + 4 \<le> L \<Longrightarrow> length (put32 off b p) = L"
  "length p = L \<Longrightarrow> 12 + m * 4 \<le> L \<Longrightarrow> length (put_lost ls m p) = L"
  by (simp_all add: put_lost_spec)

lemma sized_get:
  "length p = L \<Longrightarrow> off + 2 \<le> L \<Longrightarrow> get16 (put16 off a p) off = a"
  "length p = L \<Longrightarrow> off + 4 \<le> L \<Longrightarrow> get32 (put32 off b p) off = b"
  "length p = L \<Longrightarrow> 12 + m * 4 \<le> L \<Longrightarrow> j < m \<Longrightarrow> get32 (put_lost ls m p) (12 + j * 4) = ls ! j"
  by (simp_all add: buffer_simps put_lost_spec)

lemma sized_get_other:
  "length p = L \<Longrightarrow> off + 2 \<le> L \<Longrightarrow> i + 2 \<le> L \<Longrightarrow> i + 2 \<le> off \<or> off + 2 \<le> i \<Longrightarrow> get16 (put16 off a p) i = get16 p i"
  "length p = L \<Longrightarrow> off + 4 \<le> L \<Longrightarrow> i + 2 \<le> L \<Longrightarrow> i + 2 \<le> off \<or> off + 4 \<le> i \<Longrightarrow> get16 (put32 off b p) i = get16 p i"
  "length p = L \<Longrightarrow> off + 2 \<le> L \<Longrightarrow> i + 4 \<le> L \<Longrightarrow> i + 4 \<le> off \<or> off + 2 \<le> i \<Longrightarrow> get32 (put16 off a p) i = get32 p i"
  "length p = L \<Longrightarrow> off + 4 \<le> L \<Longrightarrow> i + 4 \<le> L \<Longrightarrow> i + 4 \<le> off \<or> off + 4 \<le> i \<Longrightarrow> get32 (put32 off b p) i = get32 p i"
  "length p = L \<Longrightarrow> 12 + m * 4 \<le> L \<Longrightarrow> i + 2 \<le> L \<Longrightarrow> i + 2 \<le> 12 \<or> 12 + m * 4 \<le> i \<Longrightarrow> get16 (put_lost ls m p) i = get16 p i"
  "length p = L \<Longrightarrow> 12 + m * 4 \<le> L \<Longrightarrow> i + 4 \<le> L \<Longrightarrow> i + 4 \<le> 12 \<or> 12 + m * 4 \<le> i \<Longrightarrow> get32 (put_lost ls m p) i = get32 p i"
  by (simp_all add: buffer_simps put_lost_spec)

lemma head_writes_spec:
  assumes q_def: "q = head_writes n ls ack ratio cnt bw rate ce loss p50"
  shows "length q = 30 + n * 4" "get32 q 0 = ack" "get16 q 4 = ratio" "get16 q 6 = cnt"
    "j < n \<Longrightarrow> get32 q (12 + j * 4) = ls ! j" "get32 q (12 + n * 4) = bw" "get32 q (16 + n * 4) = rate"
    "get16 q (20 + n * 4) = loss" "get16 q (22 + n * 4) = ce" "get16 q (24 + n * 4) = p50"
proof -
  note len = length_replicate sized_put [where L = "30 + n * 4"]
  note get = len sized_get [where L = "30 + n * 4"] sized_get_other [where L = "30 + n * 4"]
  show "length q = 30 + n * 4"
    unfolding q_def head_writes_def by (simp add: len del: length_put)
  show "get32 q 0 = ack" unfolding q_def head_writes_def by (simp add: get del: length_put)
  show "get16 q 4 = ratio" unfolding q_def head_writes_def by (simp add: get del: length_put)
  show "get16 q 6 = cnt" unfolding q_def head_writes_def by (simp add: get del: length_put)
  show "j < n \<Longrightarrow> get32 q (12 + j * 4) = ls ! j" unfolding q_def head_writes_def by (simp add: get del: length_put)
  show "get32 q (12 + n * 4) = bw" unfolding q_def head_writes_def by (simp add: get del: length_put)
  show "get32 q (16 + n * 4) = rate" unfolding q_def head_writes_def by (simp add: get del: length_put)
  show "get16 q (20 + n * 4) = loss" unfolding q_def head_writes_def by (simp add: get del: length_put)
  show "get16 q (22 + n * 4) = ce" unfolding q_def head_writes_def by (simp add: get del: length_put)
  show "get16 q (24 + n * 4) = p50" unfolding q_def head_writes_def by (simp add: get del: length_put)
qed

lemma write_head_eq:
  "write_head lite r n = put16 (27 + n * 4) (ucast (min (rp_frame_max r) 65535))
    ((resize (286 + n * 4) 0 (head_writes n (rp_lost r) (rp_ack r) (rp_ratio r) (word_of_nat n)
        (ucast (rp_probe_bw r AND 0xFFFFFFFF)) (ucast (rp_recv_rate r AND 0xFFFFFFFF)) (ucast (rp_ce r)) (rp_loss r)
        (ucast (rp_p50_us r div 1000))))[26 + n * 4 := (if lite then 0 else 1)])"
proof -
  have e: "16 + n * 4 + 14 = 30 + n * 4" "12 + n * 4 + 14 = 26 + n * 4" "26 + n * 4 + 1 = 27 + n * 4"
    "27 + n * 4 + 2 + 64 + 1 + 4 * 48 = 286 + n * 4"
    by simp_all
  show ?thesis
    unfolding write_head_def Let_def head_writes_def e ..
qed

lemma write_head_spec:
  assumes "p = write_head lite r n"
  shows "length p = 286 + n * 4" "get32 p 0 = rp_ack r" "get16 p 4 = rp_ratio r" "get16 p 6 = word_of_nat n"
    "j < n \<Longrightarrow> get32 p (12 + j * 4) = rp_lost r ! j"
    "get32 p (12 + n * 4) = ucast (rp_probe_bw r AND 0xFFFFFFFF)"
    "get32 p (16 + n * 4) = ucast (rp_recv_rate r AND 0xFFFFFFFF)"
    "get16 p (20 + n * 4) = rp_loss r" "get16 p (22 + n * 4) = ucast (rp_ce r)"
    "get16 p (24 + n * 4) = ucast (rp_p50_us r div 1000)"
    "p ! (26 + n * 4) = (if lite then 0 else 1)" "get16 p (27 + n * 4) = ucast (min (rp_frame_max r) 65535)"
proof -
  define q where "q = head_writes n (rp_lost r) (rp_ack r) (rp_ratio r) (word_of_nat n)
        (ucast (rp_probe_bw r AND 0xFFFFFFFF)) (ucast (rp_recv_rate r AND 0xFFFFFFFF)) (ucast (rp_ce r)) (rp_loss r)
        (ucast (rp_p50_us r div 1000))"
  note Q = head_writes_spec [OF q_def]
  define q2 where "q2 = (resize (286 + n * 4) 0 q)[26 + n * 4 := (if lite then 0 else 1 :: u8)]"
  have len: "length q2 = 286 + n * 4"
    by (simp add: q2_def)
  have p: "p = put16 (27 + n * 4) (ucast (min (rp_frame_max r) 65535)) q2"
    unfolding assms write_head_eq q_def [symmetric] q2_def ..
  have below: "get32 p i = get32 q i" if "i + 4 \<le> 26 + n * 4" for i
    unfolding p q2_def using that by (simp add: buffer_simps Q(1))
  have below16: "get16 p i = get16 q i" if "i + 2 \<le> 26 + n * 4" for i
    unfolding p q2_def using that by (simp add: buffer_simps Q(1))
  show "length p = 286 + n * 4"
    by (simp add: p len)
  show "get32 p 0 = rp_ack r" "get16 p 4 = rp_ratio r" "get16 p 6 = word_of_nat n"
    "j < n \<Longrightarrow> get32 p (12 + j * 4) = rp_lost r ! j"
    "get32 p (12 + n * 4) = ucast (rp_probe_bw r AND 0xFFFFFFFF)"
    "get32 p (16 + n * 4) = ucast (rp_recv_rate r AND 0xFFFFFFFF)"
    "get16 p (20 + n * 4) = rp_loss r" "get16 p (22 + n * 4) = ucast (rp_ce r)"
    "get16 p (24 + n * 4) = ucast (rp_p50_us r div 1000)"
    by (simp_all add: below below16 Q)
  show "p ! (26 + n * 4) = (if lite then 0 else 1)"
    by (simp add: p nth_put len) (simp add: q2_def)
  show "get16 p (27 + n * 4) = ucast (min (rp_frame_max r) 65535)"
    by (simp add: p buffer_simps len)
qed

text \<open>The report the other end reads.\<close>

definition expected_result :: "bool \<Rightarrow> report_fields \<Rightarrow> report_result" where
  "expected_result lite r = \<lparr> rr_probe_bw = rp_probe_bw r AND 0xFFFFFFFF, rr_recv_rate = rp_recv_rate r AND 0xFFFFFFFF,
     rr_loss_ratio = rp_loss r, rr_ce_ratio = ucast (rp_ce r), rr_frame_lite = lite,
     rr_frame_hist = (if lite then map (\<lambda>c. if c > 255 then 255 else c) (rp_frame_hist r) else replicate 64 0),
     rr_frame_hist_samples = (if lite then sum_list (map (\<lambda>c. if c > 255 then 255 else c) (rp_frame_hist r)) else 0),
     rr_frame_max_bytes = min (rp_frame_max r) 65535,
     rr_frame_pairs = (if lite then [] else take 48 (rp_frame_pairs r)) \<rparr>"

lemma put_tail_get:
  "off + length hist \<le> length p \<Longrightarrow> i + 2 \<le> off \<Longrightarrow> get16 (put_hist off hist p) i = get16 p i"
  "off + length hist \<le> length p \<Longrightarrow> i + 4 \<le> off \<Longrightarrow> get32 (put_hist off hist p) i = get32 p i"
  "off + k * 4 \<le> length p \<Longrightarrow> i + 2 \<le> off \<Longrightarrow> get16 (put_pairs off ps k p) i = get16 p i"
  "off + k * 4 \<le> length p \<Longrightarrow> i + 4 \<le> off \<Longrightarrow> get32 (put_pairs off ps k p) i = get32 p i"
  by (auto intro!: get16_cong get32_cong simp: put_hist_spec put_pairs_spec)

text \<open>A payload that starts with the fixed fields.\<close>

definition has_head :: "bool \<Rightarrow> report_fields \<Rightarrow> nat \<Rightarrow> bytes \<Rightarrow> bool" where
  "has_head lite r n p \<longleftrightarrow> 29 + n * 4 \<le> length p \<and> get32 p 0 = rp_ack r \<and> get16 p 4 = rp_ratio r \<and>
    get16 p 6 = word_of_nat n \<and> (\<forall>j<n. get32 p (12 + j * 4) = rp_lost r ! j) \<and>
    get32 p (12 + n * 4) = ucast (rp_probe_bw r AND 0xFFFFFFFF) \<and>
    get32 p (16 + n * 4) = ucast (rp_recv_rate r AND 0xFFFFFFFF) \<and>
    get16 p (20 + n * 4) = rp_loss r \<and> get16 p (22 + n * 4) = ucast (rp_ce r) \<and>
    get16 p (24 + n * 4) = ucast (rp_p50_us r div 1000) \<and>
    p ! (26 + n * 4) = (if lite then 0 else 1) \<and> get16 p (27 + n * 4) = ucast (min (rp_frame_max r) 65535)"

lemma has_headI:
  assumes "p = write_head lite r n" "29 + n * 4 \<le> length q"
    and "\<And>i. i + 2 \<le> 29 + n * 4 \<Longrightarrow> get16 q i = get16 p i" "\<And>i. i + 4 \<le> 29 + n * 4 \<Longrightarrow> get32 q i = get32 p i"
    and "q ! (26 + n * 4) = p ! (26 + n * 4)"
  shows "has_head lite r n q"
  unfolding has_head_def using assms(2) by (simp add: assms(3,4,5) write_head_spec [OF assms(1)])

lemma low32_u64: "ucast (ucast (x AND 0xFFFFFFFF) :: u32) = (x AND 0xFFFFFFFF)" for x :: u64
proof -
  have m: "(0xFFFFFFFF :: u64) = mask 32"
    by (simp add: mask_eq_exp_minus_1)
  show ?thesis
    unfolding m by (rule bit_word_eqI) (auto simp: bit_simps)
qed

lemma parse_head:
  assumes "has_head lite r n p" "n < 65536"
  shows "parse_report p = Some (rp_ack r, rp_ratio r, map (\<lambda>j. rp_lost r ! j) [0..<n], ucast (rp_p50_us r div 1000),
    parse_frames p (26 + n * 4) (zero_result\<lparr> rr_probe_bw := rp_probe_bw r AND 0xFFFFFFFF,
      rr_recv_rate := rp_recv_rate r AND 0xFFFFFFFF, rr_loss_ratio := rp_loss r, rr_ce_ratio := ucast (rp_ce r) \<rparr>))"
proof -
  have n: "unat (get16 p 6) = n"
    using assms by (simp add: has_head_def unat_of_nat take_bit_nat_eq_self_iff)
  have len: "29 + n * 4 \<le> length p"
    using assms(1) by (simp add: has_head_def)
  have e: "12 + n * 4 + 4 = 16 + n * 4" "12 + n * 4 + 8 = 20 + n * 4" "12 + n * 4 + 10 = 22 + n * 4"
    "12 + n * 4 + 12 = 24 + n * 4" "12 + n * 4 + 14 = 26 + n * 4"
    by simp_all
  have sizes: "\<not> length p < 12" "\<not> length p < 12 + n * 4" "16 + n * 4 \<le> length p" "20 + n * 4 \<le> length p"
    "22 + n * 4 \<le> length p" "24 + n * 4 \<le> length p" "26 + n * 4 \<le> length p"
    using len by simp_all
  show ?thesis
    unfolding parse_report_def Let_def n e
    using assms(1) by (simp add: sizes has_head_def low32_u64)
qed

lemma narrow_u8: "unat (c :: u32) < 256 \<Longrightarrow> ucast (ucast c :: u8) = c"
  by (simp add: word_unat_eq_iff unsigned_ucast_eq unsigned_take_bit_eq take_bit_nat_eq_self_iff)

lemma narrow_u16: "unat (c :: u32) < 65536 \<Longrightarrow> ucast (ucast c :: u16) = c"
  by (simp add: word_unat_eq_iff unsigned_ucast_eq unsigned_take_bit_eq take_bit_nat_eq_self_iff)

lemma u32_cap: "ucast (ucast (if c > 255 then 255 else c :: u32) :: u8) = (if c > 255 then 255 else c)"
  by (rule narrow_u8) (auto simp: word_less_nat_alt not_less)

lemma frame_max_cap: "ucast (ucast (min (x :: u32) 65535) :: u16) = min x 65535"
  by (rule narrow_u16) (auto simp: min_def word_le_nat_alt)

lemma written_lite:
  assumes "length (rp_frame_hist r) = 64" and p_def: "p = resize (26 + n * 4 + 3 + 64) 0 (put_hist (26 + n * 4 + 3) (rp_frame_hist r) (write_head True r n))"
  shows "has_head True r n p" "length p = 93 + n * 4"
    "b < 64 \<Longrightarrow> ucast (p ! (26 + n * 4 + 3 + b)) = (if rp_frame_hist r ! b > 255 then 255 else rp_frame_hist r ! b)"
proof -
  define q where "q = write_head True r n"
  note Q = write_head_spec [OF q_def]
  have fits: "29 + n * 4 + length (rp_frame_hist r) \<le> length q"
    using assms(1) Q(1) by simp
  have e: "26 + n * 4 + 3 = 29 + n * 4" "29 + n * 4 + 64 = 93 + n * 4"
    by simp_all
  have p: "p = resize (93 + n * 4) 0 (put_hist (29 + n * 4) (rp_frame_hist r) q)"
    unfolding p_def e q_def ..
  note H = put_hist_spec [OF fits] put_tail_get(1,2) [OF fits]
  show "length p = 93 + n * 4"
    by (simp add: p)
  show "has_head True r n p"
    by (rule has_headI [OF q_def]) (simp_all add: p buffer_simps H Q(1))
  show "ucast (p ! (26 + n * 4 + 3 + b)) = (if rp_frame_hist r ! b > 255 then 255 else rp_frame_hist r ! b)" if "b < 64"
  proof -
    have "p ! (29 + n * 4 + b) = ucast (if rp_frame_hist r ! b > 255 then 255 else rp_frame_hist r ! b)"
      unfolding p using that assms(1) H(3) [of b] by (simp add: nth_resize H(1) Q(1))
    then show ?thesis
      unfolding e by (simp only: u32_cap)
  qed
qed

lemma written_pairs:
  assumes "k \<le> 48" and p_def: "p = resize (26 + n * 4 + 4 + k * 4) 0 (put_pairs (26 + n * 4 + 4) ps k
    ((write_head False r n)[26 + n * 4 + 3 := word_of_nat k]))"
  shows "has_head False r n p" "length p = 30 + n * 4 + k * 4" "p ! (29 + n * 4) = word_of_nat k"
    "j < k \<Longrightarrow> get16 p (30 + n * 4 + j * 4) = fst (ps ! j)"
    "j < k \<Longrightarrow> get16 p (32 + n * 4 + j * 4) = snd (ps ! j)"
proof -
  define q where "q = write_head False r n"
  note Q = write_head_spec [OF q_def]
  define q2 where "q2 = q[29 + n * 4 := word_of_nat k]"
  have fits: "30 + n * 4 + k * 4 \<le> length q2"
    using assms(1) Q(1) by (simp add: q2_def)
  have e: "26 + n * 4 + 4 = 30 + n * 4" "26 + n * 4 + 3 = 29 + n * 4"
    by simp_all
  have p: "p = resize (30 + n * 4 + k * 4) 0 (put_pairs (30 + n * 4) ps k q2)"
    unfolding p_def e q2_def q_def ..
  note H = put_pairs_spec [OF fits] put_tail_get(3,4) [OF fits]
  show "length p = 30 + n * 4 + k * 4"
    by (simp add: p)
  have len: "length (put_pairs (30 + n * 4) ps k q2) = 286 + n * 4"
    unfolding H(1) by (simp add: q2_def Q(1))
  have low: "get16 p i = get16 q2 i" if "i + 2 \<le> 30 + n * 4" for i
    using that assms(1) unfolding p by (simp add: get_resize len H(5))
  have low32: "get32 p i = get32 q2 i" if "i + 4 \<le> 30 + n * 4" for i
    using that assms(1) unfolding p by (simp add: get_resize len H(6))
  have nth: "p ! i = q2 ! i" if "i < 30 + n * 4" for i
    using that assms(1) unfolding p by (simp add: nth_resize len H(2))
  show "has_head False r n p"
    by (rule has_headI [OF q_def]) (simp_all add: low low32 nth q2_def buffer_simps \<open>length p = _\<close>)
  show "p ! (29 + n * 4) = word_of_nat k"
    by (simp add: nth q2_def Q(1))
  show "j < k \<Longrightarrow> get16 p (30 + n * 4 + j * 4) = fst (ps ! j)"
    using assms(1) by (simp add: p get_resize len H(3))
  show "get16 p (32 + n * 4 + j * 4) = snd (ps ! j)" if "j < k"
  proof -
    have "get16 p (30 + n * 4 + 2 + j * 4) = get16 (put_pairs (30 + n * 4) ps k q2) (30 + n * 4 + 2 + j * 4)"
      unfolding p using that assms(1) by (intro get_resize) (simp_all add: len)
    also have "30 + n * 4 + 2 + j * 4 = 32 + n * 4 + j * 4"
      by simp
    finally show ?thesis
      using H(4) [OF that] by simp
  qed
qed

lemma lost_count_bound: "lost_count_of ls \<le> 256"
  by (auto simp: lost_count_of_def Let_def word_less_nat_alt)

lemma lost_prefix:
  assumes "length ls < 65536"
  shows "map ((!) ls) [0..<lost_count_of ls] = take 256 ls"
proof -
  have "lost_count_of ls = min (length ls) 256"
    using assms by (auto simp: lost_count_of_def Let_def word_less_nat_alt unat_of_nat take_bit_nat_eq_self_iff)
  then show ?thesis
    by (intro nth_equalityI) auto
qed

definition head_result :: "report_fields \<Rightarrow> report_result" where
  "head_result r = zero_result\<lparr> rr_probe_bw := rp_probe_bw r AND 0xFFFFFFFF,
     rr_recv_rate := rp_recv_rate r AND 0xFFFFFFFF, rr_loss_ratio := rp_loss r, rr_ce_ratio := ucast (rp_ce r) \<rparr>"

lemma lite_frames_roundtrip:
  assumes "length (rp_frame_hist r) = 64"
    and p: "p = resize (26 + n * 4 + 3 + 64) 0 (put_hist (26 + n * 4 + 3) (rp_frame_hist r) (write_head True r n))"
  shows "parse_frames p (26 + n * 4) (head_result r) = expected_result True r"
proof -
  note W = written_lite [OF assms]
  have "map (\<lambda>b. ucast (p ! (26 + n * 4 + 3 + b))) [0..<64] = map (\<lambda>c. if c > 255 then 255 else c) (rp_frame_hist r)"
    using W(3) assms(1) by (intro nth_equalityI) simp_all
  moreover have "get16 p (27 + n * 4) = ucast (min (rp_frame_max r) 65535)" "p ! (26 + n * 4) = 0"
    using W(1) by (simp_all add: has_head_def)
  moreover have "26 + n * 4 + 1 = 27 + n * 4"
    by simp
  ultimately show ?thesis
    unfolding parse_frames_def Let_def
    by (simp add: W(2) frame_max_cap expected_result_def head_result_def zero_result_def)
qed

lemma pair_frames_roundtrip:
  assumes k: "k = min (length (rp_frame_pairs r)) 48"
    and p: "p = resize (26 + n * 4 + 4 + k * 4) 0 (put_pairs (26 + n * 4 + 4) (rp_frame_pairs r) k
      ((write_head False r n)[26 + n * 4 + 3 := word_of_nat k]))"
  shows "parse_frames p (26 + n * 4) (head_result r) = expected_result False r"
proof -
  have k': "k \<le> 48" "unat (word_of_nat k :: u8) = k"
    by (simp_all add: k unat_of_nat take_bit_nat_eq_self_iff min_def)
  note W = written_pairs [OF k'(1) p]
  have "map (\<lambda>i. (get16 p (30 + n * 4 + i * 4), get16 p (32 + n * 4 + i * 4))) [0..<k] = take 48 (rp_frame_pairs r)"
    using W(4,5) by (intro nth_equalityI) (simp_all add: k)
  moreover have "get16 p (27 + n * 4) = ucast (min (rp_frame_max r) 65535)" "p ! (26 + n * 4) = 1"
    using W(1) by (simp_all add: has_head_def)
  moreover have "26 + n * 4 + 1 = 27 + n * 4" "26 + n * 4 + 4 = 30 + n * 4" "26 + n * 4 + 6 = 32 + n * 4"
    "26 + n * 4 + 3 = 29 + n * 4"
    by simp_all
  ultimately show ?thesis
    unfolding parse_frames_def Let_def
    by (simp add: W(2,3) k' frame_max_cap expected_result_def head_result_def zero_result_def)
qed

text \<open>
  C20: a report is read as it was written. Whatever was measured (with fewer than 65536 packets
  lost), the other end reads the same cursor, late ratio and median, the first 256 lost
  sequence numbers, and the same rates and frame statistics, each cut to its field on the wire;
  in both frame formats.
\<close>

theorem report_roundtrip:
  assumes "length (rp_lost r) < 65536" "length (rp_frame_hist r) = 64"
  shows "parse_report (write_report lite r) =
    Some (rp_ack r, rp_ratio r, take 256 (rp_lost r), ucast (rp_p50_us r div 1000), expected_result lite r)"
proof -
  define n where "n = lost_count_of (rp_lost r)"
  have n: "n < 65536" "map ((!) (rp_lost r)) [0..<n] = take 256 (rp_lost r)"
    using lost_count_bound [of "rp_lost r"] lost_prefix [OF assms(1)] by (simp_all add: n_def)
  have head: "parse_report p = Some (rp_ack r, rp_ratio r, take 256 (rp_lost r), ucast (rp_p50_us r div 1000),
      parse_frames p (26 + n * 4) (head_result r))" if "has_head l r n p" for l p
    using parse_head [OF that n(1)] n(2) by (simp add: head_result_def)
  show ?thesis
  proof (cases lite)
    case True
    then show ?thesis
      using head [OF written_lite(1) [OF assms(2) refl]] lite_frames_roundtrip [OF assms(2) refl, of n]
      by (simp add: write_report_def Let_def n_def [symmetric])
  next
    case False
    then show ?thesis
      using head [OF written_pairs(1) [OF min.cobounded2 refl]] pair_frames_roundtrip [OF refl refl, of n r]
      by (simp add: write_report_def Let_def n_def [symmetric])
  qed
qed

definition example_fields :: report_fields where
  "example_fields = \<lparr> rp_ack = 4, rp_ratio = 0, rp_lost = [2], rp_probe_bw = 0, rp_recv_rate = 0, rp_loss = 0, rp_ce = 0,
     rp_p50_us = 0, rp_frame_max = 0, rp_frame_hist = replicate 64 0, rp_frame_pairs = [] \<rparr>"

lemma report_roundtrip_witness:
  "parse_report (write_report True example_fields) = Some (4, 0, [2], 0, expected_result True example_fields)"
  using report_roundtrip [of example_fields True] by (simp add: example_fields_def)

section \<open>Pending packets\<close>

text \<open>What becomes of a pending packet, as a function of its entry.\<close>

definition pending_after :: "u32 \<Rightarrow> u32 list \<Rightarrow> time \<Rightarrow> u32 \<Rightarrow> pending_send \<Rightarrow> pending_send option" where
  "pending_after ack_seq lost_seqs now k ps =
    (if ps_retries ps \<ge> kMaxRetries \<or> k \<le> ack_seq \<and> k \<notin> set lost_seqs then None
     else if k \<in> set lost_seqs then Some (ps\<lparr> ps_last_send := now, ps_retries := ps_retries ps + 1 \<rparr>)
     else Some ps)"

lemma map_of_filter_ok:
  "om_ok m \<Longrightarrow> map_of (filter (\<lambda>(k, v). P k v) m) k = (case map_of m k of None \<Rightarrow> None | Some v \<Rightarrow> if P k v then Some v else None)"
proof -
  assume ok: "om_ok m"
  then have ok': "om_ok (filter (\<lambda>(k, v). P k v) m)"
    by simp
  define f where "f = filter (\<lambda>(k, v). P k v) m"
  have *: "map_of f k = Some v \<longleftrightarrow> map_of m k = Some v \<and> P k v" for v
    using om_ok_map_of [OF ok, of k v] om_ok_map_of [OF ok' [folded f_def], of k v] by (simp add: f_def)
  have "map_of f k = (case map_of m k of None \<Rightarrow> None | Some v \<Rightarrow> if P k v then Some v else None)"
  proof (cases "map_of m k")
    case None
    then show ?thesis
      using * [of "the (map_of f k)"] by (cases "map_of f k") auto
  next
    case (Some v)
    show ?thesis
    proof (cases "P k v")
      case False
      with Some show ?thesis
        using * [of "the (map_of f k)"] by (cases "map_of f k") auto
    qed (use * Some in simp)
  qed
  then show ?thesis
    by (simp only: f_def)
qed

lemma mark_resent_ok: "om_ok m \<Longrightarrow> om_ok (foldl (mark_resent now) m ks)"
  by (induction ks arbitrary: m) (auto simp: mark_resent_def split: option.splits)

lemma mark_resent_all:
  "distinct ks \<Longrightarrow> \<forall>k ps. k \<in> set ks \<longrightarrow> map_of m k = Some ps \<longrightarrow> ps_retries ps < kMaxRetries \<Longrightarrow>
   map_of (foldl (mark_resent now) m ks) k = (case map_of m k of None \<Rightarrow> None
     | Some ps \<Rightarrow> if k \<in> set ks then Some (ps\<lparr> ps_last_send := now, ps_retries := ps_retries ps + 1 \<rparr>) else Some ps)"
proof (induction ks arbitrary: m)
  case (Cons j ks)
  have m': "map_of (mark_resent now m j) i = (case map_of m i of None \<Rightarrow> None
      | Some ps \<Rightarrow> if i = j then Some (ps\<lparr> ps_last_send := now, ps_retries := ps_retries ps + 1 \<rparr>) else Some ps)" for i
    using Cons.prems(2) by (cases "map_of m j"; cases "map_of m i"; cases "i = j") (auto simp: mark_resent_def)
  have "\<forall>k ps. k \<in> set ks \<longrightarrow> map_of (mark_resent now m j) k = Some ps \<longrightarrow> ps_retries ps < kMaxRetries"
  proof (intro allI impI)
    fix i ps
    assume i: "i \<in> set ks" "map_of (mark_resent now m j) i = Some ps"
    then have "i \<noteq> j"
      using Cons.prems(1) by auto
    with i(2) have "map_of m i = Some ps"
      by (simp add: m' split: option.splits)
    with Cons.prems(2) i(1) show "ps_retries ps < kMaxRetries"
      by simp
  qed
  from Cons.IH [OF _ this] Cons.prems(1) show ?case
    by (cases "map_of m k"; cases "k = j") (simp_all add: m')
qed (simp split: option.splits)

lemma handle_lost_spec:
  assumes "om_ok (m_pending p)"
  shows "om_ok (m_pending (fst (handle_lost p ack_seq lost_seqs now)))"
    "map_of (m_pending (fst (handle_lost p ack_seq lost_seqs now))) k =
      (case map_of (m_pending p) k of None \<Rightarrow> None | Some ps \<Rightarrow> pending_after ack_seq lost_seqs now k ps)"
    "snd (handle_lost p ack_seq lost_seqs now) = map (\<lambda>(k, ps). (ps_header ps, ps_payload ps))
      (filter (\<lambda>(k, ps). k \<in> set lost_seqs \<and> ps_retries ps < kMaxRetries) (m_pending p))"
proof -
  define snap where "snap = filter (\<lambda>(k, ps). k \<in> set lost_seqs \<and> ps_retries ps < kMaxRetries) (m_pending p)"
  define kept where "kept = filter (\<lambda>(k, ps). \<not> (k \<le> ack_seq \<and> k \<notin> set lost_seqs \<or> ps_retries ps \<ge> kMaxRetries)) (m_pending p)"
  have h: "handle_lost p ack_seq lost_seqs now = (p\<lparr> m_pending := foldl (mark_resent now) kept (map fst snap) \<rparr>,
      map (\<lambda>(k, ps). (ps_header ps, ps_payload ps)) snap)"
    by (simp add: handle_lost_def Let_def snap_def kept_def)
  have ok: "om_ok snap" "om_ok kept"
    using assms by (simp_all add: snap_def kept_def)
  have kept: "map_of kept k = (case map_of (m_pending p) k of None \<Rightarrow> None
      | Some ps \<Rightarrow> if \<not> (k \<le> ack_seq \<and> k \<notin> set lost_seqs \<or> ps_retries ps \<ge> kMaxRetries) then Some ps else None)" for k
    unfolding kept_def by (rule map_of_filter_ok [OF assms])
  have snap: "map_of snap k = (case map_of (m_pending p) k of None \<Rightarrow> None
      | Some ps \<Rightarrow> if k \<in> set lost_seqs \<and> ps_retries ps < kMaxRetries then Some ps else None)" for k
    unfolding snap_def by (rule map_of_filter_ok [OF assms])
  have keys: "k \<in> set (map fst snap) \<longleftrightarrow> map_of snap k \<noteq> None" for k
    by (simp add: map_of_eq_None_iff)
  have "\<forall>k ps. k \<in> set (map fst snap) \<longrightarrow> map_of kept k = Some ps \<longrightarrow> ps_retries ps < kMaxRetries"
    by (auto simp: kept split: option.splits if_splits)
  note marked = mark_resent_all [OF om_ok_distinct [OF ok(1)] this, of now k]
  show "om_ok (m_pending (fst (handle_lost p ack_seq lost_seqs now)))"
    using mark_resent_ok [OF ok(2)] by (simp add: h)
  show "map_of (m_pending (fst (handle_lost p ack_seq lost_seqs now))) k =
      (case map_of (m_pending p) k of None \<Rightarrow> None | Some ps \<Rightarrow> pending_after ack_seq lost_seqs now k ps)"
  proof (cases "map_of (m_pending p) k")
    case None
    then show ?thesis
      using marked by (simp add: h kept)
  next
    case (Some ps)
    have "k \<in> set (map fst snap) \<longleftrightarrow> k \<in> set lost_seqs \<and> ps_retries ps < kMaxRetries"
      unfolding keys using Some by (simp add: snap)
    then show ?thesis
      using marked unfolding h fst_conv Some kept option.case pending_after_def
      by (cases "ps_retries ps \<ge> kMaxRetries"; cases "k \<in> set lost_seqs"; cases "k \<le> ack_seq") simp_all
  qed
  show "snd (handle_lost p ack_seq lost_seqs now) = map (\<lambda>(k, ps). (ps_header ps, ps_payload ps))
      (filter (\<lambda>(k, ps). k \<in> set lost_seqs \<and> ps_retries ps < kMaxRetries) (m_pending p))"
    by (simp add: h snap_def)
qed

text \<open>
  C21: what a report does to each pending packet, and what is sent again: packets acknowledged
  and not reported lost are dropped, packets retransmitted ten times are dropped, reported
  packets are retransmitted, each once and with its stored header and payload, and counted;
  the others are kept unchanged.
\<close>

theorem report_updates_pending:
  assumes "om_ok (m_pending p)" "parse_report payload = Some (ack_seq, late, lost_seqs, p50, r)"
    and "report_handle p payload now = (r', p', resends)"
  shows "r' = r \<and> om_ok (m_pending p') \<and>
    (\<forall>k. map_of (m_pending p') k =
      (case map_of (m_pending p) k of None \<Rightarrow> None | Some ps \<Rightarrow> pending_after ack_seq lost_seqs now k ps)) \<and>
    resends = map (\<lambda>(k, ps). (ps_header ps, ps_payload ps))
      (filter (\<lambda>(k, ps). k \<in> set lost_seqs \<and> ps_retries ps < kMaxRetries) (m_pending p))"
proof -
  define q where "q = p\<lparr> m_peer_late_ratio := late_ratio_of late, m_have_late_report := True, m_peer_p50_ms := p50 \<rparr>"
  have q: "m_pending q = m_pending p"
    by (simp add: q_def)
  have "p' = fst (handle_lost q ack_seq lost_seqs now)" "resends = snd (handle_lost q ack_seq lost_seqs now)" "r' = r"
    using assms(2,3) by (auto simp: report_handle_def Let_def q_def split: prod.splits)
  with handle_lost_spec [of q, unfolded q, OF assms(1), of ack_seq lost_seqs now] show ?thesis
    by simp
qed
definition example_pending :: "u32 \<Rightarrow> pending_send" where
  "example_pending retries = \<lparr> ps_header = zero_header, ps_payload = [1], ps_last_send = 0, ps_bytes = 0, ps_retries = retries \<rparr>"

lemma example_parse: "parse_report (write_head False example_fields 1) \<noteq> None"
  by (simp add: parse_report_def Let_def write_head_spec [OF refl])

lemma report_updates_pending_witness:
  "\<exists>ack late lost p50 r r' p' resends.
    parse_report (write_head False example_fields 1) = Some (ack, late, lost, p50, r) \<and>
    report_handle (new_peer\<lparr> m_pending := [(2, example_pending 0), (3, example_pending 0), (9, example_pending 10)] \<rparr>)
      (write_head False example_fields 1) 7 = (r', p', resends) \<and>
    map_of (m_pending p') 2 = pending_after ack lost 7 2 (example_pending 0)"
proof -
  define p where "p = new_peer\<lparr> m_pending := [(2, example_pending 0), (3, example_pending 0), (9, example_pending 10)] \<rparr>"
  obtain ack late lost p50 r where parse: "parse_report (write_head False example_fields 1) = Some (ack, late, lost, p50, r)"
    using example_parse by (metis option.exhaust prod_cases5)
  obtain r' p' resends where h: "report_handle p (write_head False example_fields 1) 7 = (r', p', resends)"
    by (rule prod_cases3)
  have "om_ok (m_pending p)"
    by (simp add: p_def om_ok_def)
  from report_updates_pending [OF this parse h] have "map_of (m_pending p') 2 = pending_after ack lost 7 2 (example_pending 0)"
    by (simp add: p_def)
  with parse h show ?thesis
    unfolding p_def by blast
qed

text \<open>The retransmissions of a sequence of reports.\<close>

primrec run_reports :: "(bytes \<times> time) list \<Rightarrow> peer \<Rightarrow> peer \<times> (packet_header \<times> bytes) list" where
  "run_reports [] p = (p, [])"
| "run_reports (e # es) p =
    (let (_, p, sent) = report_handle p (fst e) (snd e); (p, rest) = run_reports es p in (p, sent @ rest))"

text \<open>Every pending packet is stored under the sequence number of its header, as \<open>send_data_packet\<close> does.\<close>

definition pending_keyed :: "peer \<Rightarrow> bool" where
  "pending_keyed p \<longleftrightarrow> om_ok (m_pending p) \<and> (\<forall>k ps. map_of (m_pending p) k = Some ps \<longrightarrow> h_sequence (ps_header ps) = k)"

definition resends_left :: "peer \<Rightarrow> u32 \<Rightarrow> nat" where
  "resends_left p k = (case map_of (m_pending p) k of None \<Rightarrow> 0 | Some ps \<Rightarrow> 10 - unat (ps_retries ps))"

definition count_seq :: "u32 \<Rightarrow> (packet_header \<times> bytes) list \<Rightarrow> nat" where
  "count_seq k sent = length (filter (\<lambda>e. h_sequence (fst e) = k) sent)"

lemma count_seq_resends:
  assumes "om_ok m" "\<forall>j ps. map_of m j = Some ps \<longrightarrow> h_sequence (ps_header ps) = j"
  shows "count_seq k (map (\<lambda>(k, ps). (ps_header ps, ps_payload ps)) (filter (\<lambda>(k, ps). P k ps) m)) =
    (case map_of m k of None \<Rightarrow> 0 | Some ps \<Rightarrow> if P k ps then 1 else 0)"
proof -
  have count: "distinct (map fst m) \<Longrightarrow> length (filter (\<lambda>(j, v). P j v \<and> j = k) m) =
      (case map_of m k of None \<Rightarrow> 0 | Some ps \<Rightarrow> if P k ps then 1 else 0)" for m
  proof (induction m)
    case (Cons e m)
    obtain j v where e: "e = (j, v)"
      by fastforce
    show ?case
    proof (cases "j = k")
      case True
      then have "map_of m k = None"
        using Cons.prems by (simp add: e map_of_eq_None_iff)
      with True Cons show ?thesis
        by (simp add: e)
    qed (use Cons in \<open>simp add: e\<close>)
  qed simp
  have "filter (\<lambda>e. h_sequence (fst e) = k) (map (\<lambda>(k, ps). (ps_header ps, ps_payload ps)) (filter (\<lambda>(k, ps). P k ps) m)) =
      map (\<lambda>(k, ps). (ps_header ps, ps_payload ps)) (filter (\<lambda>(j, ps). P j ps \<and> j = k) m)"
    using assms(2) om_ok_map_of [OF assms(1)] by (auto simp: filter_map o_def case_prod_unfold intro!: arg_cong [where f = "map _"] filter_cong)
  with count [OF om_ok_distinct [OF assms(1)]] show ?thesis
    by (simp add: count_seq_def)
qed

lemma report_handle_step:
  assumes "pending_keyed p" "report_handle p payload now = (r, p', sent)"
  shows "pending_keyed p'" "count_seq k sent + resends_left p' k \<le> resends_left p k"
proof -
  have ok: "om_ok (m_pending p)" and keyed: "\<forall>k ps. map_of (m_pending p) k = Some ps \<longrightarrow> h_sequence (ps_header ps) = k"
    using assms(1) by (simp_all add: pending_keyed_def)
  have "pending_keyed p' \<and> count_seq k sent + resends_left p' k \<le> resends_left p k"
  proof (cases "parse_report payload")
    case None
    then show ?thesis
      using assms by (simp add: report_handle_def count_seq_def)
  next
    case (Some x)
    obtain ack late lost p50 r0 where x: "x = (ack, late, lost, p50, r0)"
      by (rule prod_cases5)
    define q where "q = p\<lparr> m_peer_late_ratio := late_ratio_of late, m_have_late_report := True, m_peer_p50_ms := p50 \<rparr>"
    have q: "m_pending q = m_pending p"
      by (simp add: q_def)
    have p': "p' = fst (handle_lost q ack lost now)" "sent = snd (handle_lost q ack lost now)"
      using assms(2) Some x by (auto simp: report_handle_def Let_def q_def split: prod.splits)
    note H = handle_lost_spec [of q, unfolded q, OF ok, of ack lost now]
    have sent: "count_seq k sent = (case map_of (m_pending p) k of None \<Rightarrow> 0
        | Some ps \<Rightarrow> if k \<in> set lost \<and> ps_retries ps < kMaxRetries then 1 else 0)"
      unfolding p' H(3) using count_seq_resends [OF ok keyed] .
    have "h_sequence (ps_header ps) = j" if "map_of (m_pending p') j = Some ps" for j ps
      using that keyed unfolding p' H(2) by (auto simp: pending_after_def split: option.splits if_splits)
    then have "pending_keyed p'"
      using H(1) by (simp add: pending_keyed_def p')
    moreover have "count_seq k sent + resends_left p' k \<le> resends_left p k"
    proof (cases "map_of (m_pending p) k")
      case None
      then show ?thesis
        by (simp add: sent resends_left_def p'(1) H(2))
    next
      case (Some ps)
      have "unat (ps_retries ps + 1) = unat (ps_retries ps) + 1" if "ps_retries ps < kMaxRetries"
        using that by (simp add: kMaxRetries_def word_less_nat_alt unat_word_ariths)
      then show ?thesis
        unfolding sent resends_left_def p'(1) H(2) Some option.case
        by (auto simp: pending_after_def kMaxRetries_def word_less_nat_alt not_less word_le_nat_alt)
    qed
    ultimately show ?thesis ..
  qed
  then show "pending_keyed p'" "count_seq k sent + resends_left p' k \<le> resends_left p k"
    by simp_all
qed

lemma run_reports_left:
  "pending_keyed p \<Longrightarrow> count_seq k (snd (run_reports es p)) + resends_left (fst (run_reports es p)) k \<le> resends_left p k"
proof (induction es arbitrary: p)
  case (Cons e es)
  obtain r p1 sent where h: "report_handle p (fst e) (snd e) = (r, p1, sent)"
    by (rule prod_cases3)
  note step = report_handle_step [OF Cons.prems h]
  obtain p2 rest where run: "run_reports es p1 = (p2, rest)"
    by fastforce
  have "count_seq k (sent @ rest) = count_seq k sent + count_seq k rest"
    by (simp add: count_seq_def)
  with Cons.IH [OF step(1)] step(2) [of k] show ?case
    by (simp add: h run)
qed (simp add: count_seq_def)

text \<open>
  C22: retransmission is bounded. Over any number of reports, whatever they say, a pending packet
  is sent again at most ten times, less the times it was sent again before.
\<close>

theorem retransmissions_bounded:
  assumes "pending_keyed p"
  shows "count_seq k (snd (run_reports es p)) \<le> resends_left p k \<and> resends_left p k \<le> 10"
  using run_reports_left [OF assms, of k es] by (auto simp: resends_left_def split: option.splits)

lemma retransmissions_bounded_witness:
  "count_seq 2 (snd (run_reports (replicate 100 (write_head False example_fields 1, 7))
     (new_peer\<lparr> m_pending := [(2, (example_pending 3)\<lparr> ps_header := zero_header\<lparr> h_sequence := 2 \<rparr> \<rparr>)] \<rparr>))) \<le> 7"
  using retransmissions_bounded [of "new_peer\<lparr> m_pending := [(2, (example_pending 3)\<lparr> ps_header := zero_header\<lparr> h_sequence := 2 \<rparr> \<rparr>)] \<rparr>"
      2 "replicate 100 (write_head False example_fields 1, 7)"]
  by (simp add: pending_keyed_def om_ok_def resends_left_def example_pending_def)

section \<open>Bounds\<close>

lemma late_ratio_of_bounds: "0 \<le> late_ratio_of raw" "late_ratio_of raw \<le> 1"
  by (simp_all add: late_ratio_of_def Let_def)

lemma fdiv_le_1: "0 \<le> a \<Longrightarrow> a \<le> b \<Longrightarrow> 0 < b \<Longrightarrow> fdiv (fof a) (fof b) \<le> 1"
proof -
  assume a: "0 \<le> a" "a \<le> b" "0 < b"
  have "1 \<le> fof b"
    using a r64.rnd_ge_int [of 1 "of_int b"] by (simp add: fof_def)
  moreover have "fof a \<le> fof b"
    unfolding fof_def by (rule rnd64_mono) (use a in simp)
  ultimately show ?thesis
    unfolding fdiv_def by (intro r64.rnd_le_1) simp
qed

lemma late_statistics_plain:
  assumes "\<not> (buf > 0 \<and> m_hist_samples p > 0)"
    and l: "l = (if m_ce_marks p > 0 then 0 else word_of_nat n)" and den: "den = m_transit_samples p + l"
  shows "fst (late_statistics p buf n) =
    fdiv (fof (uint (m_late_samples p + l))) (fof (uint (if den > 0 then den else 1)))"
  unfolding late_statistics_def Let_def if_not_P [OF assms(1)] fst_conv den l by (rule refl)

lemma late_statistics_capped:
  assumes "buf > 0 \<and> m_hist_samples p > 0"
    and "l = (if m_ce_marks p > 0 then 0 else word_of_nat n)" and "den = m_hist_samples p + l"
    and "line = find_bin (m_latency_hist p) 0 0 (m_hist_samples p div 2) + ucast buf * 1000"
    and "x = fdiv (fof (uint (over_line (m_latency_hist p) line + l))) (fof (uint (if den > 0 then den else 1)))"
  shows "fst (late_statistics p buf n) = (if x > 1 then 1 else x)"
  unfolding late_statistics_def Let_def if_P [OF assms(1)] fst_conv assms(2-5) by (rule refl)

lemma late_statistics_capped_bounds:
  assumes "buf > 0 \<and> m_hist_samples p > 0"
  shows "fst (late_statistics p buf n) \<le> 1" "0 \<le> fst (late_statistics p buf n)"
proof -
  define l where "l = (if m_ce_marks p > 0 then 0 else word_of_nat n :: u64)"
  define den where "den = m_hist_samples p + l"
  define line where "line = find_bin (m_latency_hist p) 0 0 (m_hist_samples p div 2) + ucast buf * 1000"
  define x where "x = fdiv (fof (uint (over_line (m_latency_hist p) line + l))) (fof (uint (if den > 0 then den else 1)))"
  have "0 \<le> x"
    unfolding x_def by (intro fdiv_nonneg fof_nonneg) simp_all
  then show "fst (late_statistics p buf n) \<le> 1" "0 \<le> fst (late_statistics p buf n)"
    unfolding late_statistics_capped [OF assms l_def den_def line_def x_def] by simp_all
qed

lemma late_statistics_ratio:
  assumes "m_late_samples p \<le> m_transit_samples p" "unat (m_transit_samples p) < 2 ^ 63" "n < 2 ^ 32"
  shows "0 \<le> fst (late_statistics p buf n)" "fst (late_statistics p buf n) \<le> 1"
proof -
  define l where "l = (if m_ce_marks p > 0 then 0 else word_of_nat n :: u64)"
  have l: "unat l < 2 ^ 32"
    using assms(3) by (simp add: l_def unat_of_nat take_bit_nat_eq_self_iff)
  have add: "unat (a + l) = unat a + unat l" if "unat a < 2 ^ 63" for a :: u64
    using that l by (simp add: unat_word_ariths)
  have late: "unat (m_late_samples p) \<le> unat (m_transit_samples p)"
    using assms(1) by (simp add: word_le_nat_alt)
  define den where "den = m_transit_samples p + l"
  have "uint (m_late_samples p + l) \<le> uint (if den > 0 then den else 1)"
  proof -
    have "m_late_samples p + l \<le> den"
      using late assms(2) add [of "m_late_samples p"] add [of "m_transit_samples p"]
      by (simp add: den_def word_le_nat_alt)
    moreover have "den \<le> (if den > 0 then den else 1)"
      by (cases "den = 0") (simp_all add: word_gt_0)
    ultimately show ?thesis
      unfolding word_le_def [symmetric] by (rule order_trans)
  qed
  moreover have "0 < uint (if den > 0 then den else 1)"
    by (auto simp: word_less_def)
  ultimately have "fdiv (fof (uint (m_late_samples p + l))) (fof (uint (if den > 0 then den else 1))) \<le> 1"
    by (intro fdiv_le_1) simp_all
  then have le: "fst (late_statistics p buf n) \<le> 1" "0 \<le> fst (late_statistics p buf n)"
    if "\<not> (buf > 0 \<and> m_hist_samples p > 0)"
    unfolding late_statistics_plain [OF that l_def den_def] by (simp_all add: fdiv_nonneg fof_nonneg)
  show "fst (late_statistics p buf n) \<le> 1" "0 \<le> fst (late_statistics p buf n)"
    using le late_statistics_capped_bounds [of buf p n] by blast+
qed

lemma ratio_10000_bound: "0 \<le> x \<Longrightarrow> x \<le> 1 \<Longrightarrow> ratio_10000 x \<le> 10000"
proof -
  assume x: "0 \<le> x" "x \<le> 1"
  have "fmul x 10000 \<le> of_int 10000"
    using r64.rnd_scale_le [of 10000 x] x by (simp add: fmul_def mult.commute)
  then have "0 \<le> ftrunc (fmul x 10000)" "ftrunc (fmul x 10000) \<le> 10000"
    using x by (auto intro!: ftrunc_le ftrunc_nonneg fmul_nonneg)
  then show ?thesis
    by (simp add: ratio_10000_def word_le_def uint_word_of_int_eq take_bit_int_eq_self)
qed

text \<open>A data packet counts as late only if it counts as a sample.\<close>

lemma account_late_samples:
  assumes "m_late_samples p \<le> m_transit_samples p" "unat (m_transit_samples p) < 2 ^ 64 - 1"
  shows "m_late_samples (account_late p t rtt mult buf) \<le> m_transit_samples (account_late p t rtt mult buf)"
proof -
  have "unat (m_transit_samples p + 1) = unat (m_transit_samples p) + 1"
    using assms(2) by (simp add: unat_word_ariths)
  moreover have "unat (m_late_samples p + 1) \<le> unat (m_late_samples p) + 1"
    by (simp add: unat_word_ariths)
  ultimately have "m_late_samples p + 1 \<le> m_transit_samples p + 1" "m_late_samples p \<le> m_transit_samples p + 1"
    using assms(1) by (simp_all add: word_le_nat_alt)
  then show ?thesis
    using assms(1) by (simp add: account_late_def Let_def split del: if_split cong: if_cong split: if_split)
qed

text \<open>
  C23: every ratio a report carries is a ratio. If late packets are counted among the samples,
  which the receive path maintains, the late ratio on the wire is at most 10000, the loss and
  mark ratios always are, and the ratio the sender derives from any report, well formed or
  hostile, lies between 0 and 1.
\<close>

theorem report_ratios_bounded:
  assumes "m_late_samples p \<le> m_transit_samples p" "unat (m_transit_samples p) < 2 ^ 63" "n < 2 ^ 32"
  shows "ratio_10000 (fst (late_statistics p buf n)) \<le> 10000 \<and> loss_ratio_10000 before ack n \<le> 10000 \<and>
    ce_ratio_of p \<le> 10000 \<and> 0 \<le> late_ratio_of raw \<and> late_ratio_of raw \<le> 1 \<and>
    m_late_samples (account_late p t rtt mult buf) \<le> m_transit_samples (account_late p t rtt mult buf)"
proof -
  have "unat (ucast (min (10000 :: u32) x) :: u16) \<le> 10000" for x
  proof -
    have "unat (min (10000 :: u32) x) \<le> 10000"
      by (simp add: min_def word_le_nat_alt)
    then show ?thesis
      by (simp add: unsigned_ucast_eq order_trans [OF take_bit_nat_less_eq_self])
  qed
  then have "loss_ratio_10000 before ack n \<le> 10000"
    by (auto simp: loss_ratio_10000_def Let_def word_le_nat_alt)
  moreover have "ce_ratio_of p \<le> 10000"
    by (auto simp: ce_ratio_of_def Let_def not_less)
  moreover have "m_late_samples (account_late p t rtt mult buf) \<le> m_transit_samples (account_late p t rtt mult buf)"
    using assms by (intro account_late_samples) simp_all
  ultimately show ?thesis
    using late_statistics_ratio [OF assms] late_ratio_of_bounds ratio_10000_bound by simp
qed

lemma report_ratios_bounded_witness:
  "ratio_10000 (fst (late_statistics (new_peer\<lparr> m_late_samples := 3, m_transit_samples := 4 \<rparr>) 0 2)) \<le> 10000"
  using report_ratios_bounded [of "new_peer\<lparr> m_late_samples := 3, m_transit_samples := 4 \<rparr>" 2 0 0 0 0 0 0 0]
  by simp













end
