(* ===== verification/Field25519.thy ===== *)
theory Field25519
  imports Tight_Prelude
begin

text \<open>
  The field of X25519, \<open>crypto.cpp\<close>: an element is five 64-bit limbs of 51 bits, products are
  computed in 128 bits and folded by \<open>2 ^ 255 = 19\<close>. Every operation is shown to compute modulo
  \<open>2 ^ 255 - 19\<close>, without overflow, for limbs below stated bounds.
\<close>

section \<open>The code\<close>

type_synonym u128 = "128 word"

datatype fe = Fe u64 u64 u64 u64 u64

definition kMask51 :: u64 where "kMask51 = 0x7FFFFFFFFFFFF"

definition load_le64 :: "bytes \<Rightarrow> nat \<Rightarrow> u64" where
  "load_le64 b off = foldl (\<lambda>v i. v OR push_bit (i * 8) (ucast (b ! (off + i)))) 0 [0..<8]"

definition fe_frombytes :: "bytes \<Rightarrow> fe" where
  "fe_frombytes s = Fe (load_le64 s 0 AND kMask51) (drop_bit 3 (load_le64 s 6) AND kMask51)
     (drop_bit 6 (load_le64 s 12) AND kMask51) (drop_bit 1 (load_le64 s 19) AND kMask51)
     (drop_bit 12 (load_le64 s 24) AND kMask51)"

text \<open>One of the three carry passes of \<open>fe_tobytes\<close>.\<close>

fun carry_pass :: "fe \<Rightarrow> fe" where
  "carry_pass (Fe h0 h1 h2 h3 h4) =
    (let c = drop_bit 51 h0; h0 = h0 AND kMask51; h1 = h1 + c;
         c = drop_bit 51 h1; h1 = h1 AND kMask51; h2 = h2 + c;
         c = drop_bit 51 h2; h2 = h2 AND kMask51; h3 = h3 + c;
         c = drop_bit 51 h3; h3 = h3 AND kMask51; h4 = h4 + c;
         c = drop_bit 51 h4; h4 = h4 AND kMask51; h0 = h0 + 19 * c
     in Fe h0 h1 h2 h3 h4)"

text \<open>One limb of \<open>h - p\<close>: the 64-bit signed difference, whether it borrows, and its low 51 bits.\<close>

definition sub_limb :: "u64 \<Rightarrow> u64 \<Rightarrow> u64 \<Rightarrow> u64 \<times> u64" where
  "sub_limb h p borrow =
    (let t = h - p - borrow in (t AND kMask51, if sint t < 0 then 1 else 0))"

fun reduce_once :: "fe \<Rightarrow> fe" where
  "reduce_once (Fe h0 h1 h2 h3 h4) =
    (let (m0, b) = sub_limb h0 (kMask51 - 18) 0;
         (m1, b) = sub_limb h1 kMask51 b;
         (m2, b) = sub_limb h2 kMask51 b;
         (m3, b) = sub_limb h3 kMask51 b;
         (m4, b) = sub_limb h4 kMask51 b;
         keep = - b;
         sel = (\<lambda>h m. (keep AND h) OR (NOT keep AND m))
     in Fe (sel h0 m0) (sel h1 m1) (sel h2 m2) (sel h3 m3) (sel h4 m4))"

fun pack_limbs :: "fe \<Rightarrow> bytes" where
  "pack_limbs (Fe o0 o1 o2 o3 o4) =
    [ucast o0, ucast (drop_bit 8 o0), ucast (drop_bit 16 o0), ucast (drop_bit 24 o0),
     ucast (drop_bit 32 o0), ucast (drop_bit 40 o0), ucast (drop_bit 48 o0 OR push_bit 3 o1),
     ucast (drop_bit 5 o1), ucast (drop_bit 13 o1), ucast (drop_bit 21 o1), ucast (drop_bit 29 o1),
     ucast (drop_bit 37 o1), ucast (drop_bit 45 o1 OR push_bit 6 o2),
     ucast (drop_bit 2 o2), ucast (drop_bit 10 o2), ucast (drop_bit 18 o2), ucast (drop_bit 26 o2),
     ucast (drop_bit 34 o2), ucast (drop_bit 42 o2), ucast (drop_bit 50 o2 OR push_bit 1 o3),
     ucast (drop_bit 7 o3), ucast (drop_bit 15 o3), ucast (drop_bit 23 o3), ucast (drop_bit 31 o3),
     ucast (drop_bit 39 o3), ucast (drop_bit 47 o3 OR push_bit 4 o4),
     ucast (drop_bit 4 o4), ucast (drop_bit 12 o4), ucast (drop_bit 20 o4), ucast (drop_bit 28 o4),
     ucast (drop_bit 36 o4), ucast (drop_bit 44 o4)]"

definition fe_tobytes :: "fe \<Rightarrow> bytes" where
  "fe_tobytes h = pack_limbs (reduce_once (carry_pass (carry_pass (carry_pass h))))"

fun fe_add :: "fe \<Rightarrow> fe \<Rightarrow> fe" where
  "fe_add (Fe f0 f1 f2 f3 f4) (Fe g0 g1 g2 g3 g4) = Fe (f0 + g0) (f1 + g1) (f2 + g2) (f3 + g3) (f4 + g4)"

fun fe_sub :: "fe \<Rightarrow> fe \<Rightarrow> fe" where
  "fe_sub (Fe f0 f1 f2 f3 f4) (Fe g0 g1 g2 g3 g4) =
     Fe (f0 + 0xFFFFFFFFFFFDA - g0) (f1 + 0xFFFFFFFFFFFFE - g1) (f2 + 0xFFFFFFFFFFFFE - g2)
       (f3 + 0xFFFFFFFFFFFFE - g3) (f4 + 0xFFFFFFFFFFFFE - g4)"

text \<open>The carry chain that ends \<open>fe_mul\<close> and \<open>fe_mul_scalar\<close>; \<open>19 * c\<close> is a 64-bit product.\<close>

definition carry51 :: "u128 \<Rightarrow> u64" where "carry51 r = ucast (drop_bit 51 r)"
definition low51 :: "u128 \<Rightarrow> u128" where "low51 r = r AND ucast kMask51"

definition fold_carries :: "u128 \<Rightarrow> u128 \<Rightarrow> u128 \<Rightarrow> u128 \<Rightarrow> u128 \<Rightarrow> fe" where
  "fold_carries r0 r1 r2 r3 r4 =
    (let c = carry51 r0; r0 = low51 r0; r1 = r1 + ucast c;
         c = carry51 r1; r1 = low51 r1; r2 = r2 + ucast c;
         c = carry51 r2; r2 = low51 r2; r3 = r3 + ucast c;
         c = carry51 r3; r3 = low51 r3; r4 = r4 + ucast c;
         c = carry51 r4; r4 = low51 r4; r0 = r0 + ucast (19 * c);
         c = carry51 r0; r0 = low51 r0; r1 = r1 + ucast c
     in Fe (ucast r0) (ucast r1) (ucast r2) (ucast r3) (ucast r4))"

fun fe_mul :: "fe \<Rightarrow> fe \<Rightarrow> fe" where
  "fe_mul (Fe a0 a1 a2 a3 a4) (Fe b0 b1 b2 b3 b4) =
    (let f0 = ucast a0; f1 = ucast a1; f2 = ucast a2; f3 = ucast a3; f4 = ucast a4;
         g0 = ucast b0; g1 = ucast b1; g2 = ucast b2; g3 = ucast b3; g4 = ucast b4;
         r0 = f0 * g0 + 19 * (f1 * g4 + f2 * g3 + f3 * g2 + f4 * g1);
         r1 = f0 * g1 + f1 * g0 + 19 * (f2 * g4 + f3 * g3 + f4 * g2);
         r2 = f0 * g2 + f1 * g1 + f2 * g0 + 19 * (f3 * g4 + f4 * g3);
         r3 = f0 * g3 + f1 * g2 + f2 * g1 + f3 * g0 + 19 * (f4 * g4);
         r4 = f0 * g4 + f1 * g3 + f2 * g2 + f3 * g1 + f4 * g0
     in fold_carries r0 r1 r2 r3 r4)"

definition fe_sq :: "fe \<Rightarrow> fe" where "fe_sq f = fe_mul f f"

fun fe_mul_scalar :: "fe \<Rightarrow> u64 \<Rightarrow> fe" where
  "fe_mul_scalar (Fe f0 f1 f2 f3 f4) s =
     fold_carries (ucast f0 * ucast s) (ucast f1 * ucast s) (ucast f2 * ucast s) (ucast f3 * ucast s) (ucast f4 * ucast s)"

primrec fe_sq_n :: "fe \<Rightarrow> nat \<Rightarrow> fe" where
  "fe_sq_n f 0 = f"
| "fe_sq_n f (Suc n) = fe_sq_n (fe_sq f) n"

definition fe_inv :: "fe \<Rightarrow> fe" where
  "fe_inv z =
    (let z2 = fe_sq z;
         z8 = fe_sq_n z2 2;
         z9 = fe_mul z z8;
         z11 = fe_mul z2 z9;
         z22 = fe_sq z11;
         z_5_0 = fe_mul z9 z22;
         z_10_0 = fe_mul (fe_sq_n z_5_0 5) z_5_0;
         z_20_0 = fe_mul (fe_sq_n z_10_0 10) z_10_0;
         z_40_0 = fe_mul (fe_sq_n z_20_0 20) z_20_0;
         z_50_0 = fe_mul (fe_sq_n z_40_0 10) z_10_0;
         z_100_0 = fe_mul (fe_sq_n z_50_0 50) z_50_0;
         z_200_0 = fe_mul (fe_sq_n z_100_0 100) z_100_0;
         z_250_0 = fe_mul (fe_sq_n z_200_0 50) z_50_0
     in fe_mul (fe_sq_n z_250_0 5) z11)"

text \<open>\<open>fe_cswap\<close>, returning both.\<close>

definition swap_limb :: "u64 \<Rightarrow> u64 \<Rightarrow> u64 \<Rightarrow> u64 \<times> u64" where
  "swap_limb m f g = (let t = m AND (f XOR g) in (f XOR t, g XOR t))"

fun fe_cswap :: "fe \<Rightarrow> fe \<Rightarrow> u64 \<Rightarrow> fe \<times> fe" where
  "fe_cswap (Fe f0 f1 f2 f3 f4) (Fe g0 g1 g2 g3 g4) swap =
    (let m = 0 - swap;
         (f0, g0) = swap_limb m f0 g0;
         (f1, g1) = swap_limb m f1 g1;
         (f2, g2) = swap_limb m f2 g2;
         (f3, g3) = swap_limb m f3 g3;
         (f4, g4) = swap_limb m f4 g4
     in (Fe f0 f1 f2 f3 f4, Fe g0 g1 g2 g3 g4))"

section \<open>Values\<close>

definition p25519 :: int where "p25519 = 2 ^ 255 - 19"

fun fe_val :: "fe \<Rightarrow> int" where
  "fe_val (Fe f0 f1 f2 f3 f4) =
     uint f0 + 2 ^ 51 * uint f1 + 2 ^ 102 * uint f2 + 2 ^ 153 * uint f3 + 2 ^ 204 * uint f4"

fun fe_below :: "int \<Rightarrow> fe \<Rightarrow> bool" where
  "fe_below b (Fe f0 f1 f2 f3 f4) \<longleftrightarrow>
     uint f0 < b \<and> uint f1 < b \<and> uint f2 < b \<and> uint f3 < b \<and> uint f4 < b"

text \<open>
  An element that represents an integer modulo the prime: reduced, as products are, or loose, as
  sums and differences of reduced elements are.
\<close>

definition reduced :: "fe \<Rightarrow> int \<Rightarrow> bool" where
  "reduced f x \<longleftrightarrow> fe_below (2 ^ 51 + 2 ^ 14) f \<and> fe_val f mod p25519 = x mod p25519"

definition loose :: "fe \<Rightarrow> int \<Rightarrow> bool" where
  "loose f x \<longleftrightarrow> fe_below (2 ^ 54) f \<and> fe_val f mod p25519 = x mod p25519"

lemma fe_below_mono: "fe_below a f \<Longrightarrow> a \<le> b \<Longrightarrow> fe_below b f"
  by (cases f) auto

lemma reduced_loose: "reduced f x \<Longrightarrow> loose f x"
  unfolding reduced_def loose_def by (auto elim: fe_below_mono)

lemma loose_val: "loose f x \<Longrightarrow> fe_val f mod p25519 = x mod p25519"
  and reduced_val: "reduced f x \<Longrightarrow> fe_val f mod p25519 = x mod p25519"
  by (simp_all add: loose_def reduced_def)

lemma loose_below: "loose f x \<Longrightarrow> fe_below (2 ^ 54) f"
  and reduced_below: "reduced f x \<Longrightarrow> fe_below (2 ^ 51 + 2 ^ 14) f"
  by (simp_all add: loose_def reduced_def)

lemma mod_shift: "a = b + c * p25519 \<Longrightarrow> a mod p25519 = b mod p25519"
  by simp

section \<open>Machine arithmetic without wrap-around\<close>

lemma mask51: "x AND kMask51 = take_bit 51 x"
  by (simp add: kMask51_def take_bit_eq_mask mask_eq_exp_minus_1)

lemma uint_exp_51: "uint (2251799813685248 :: u128) = 2 ^ 51"
  by simp

lemma low51: "uint (low51 r) = uint r mod 2 ^ 51"
proof -
  have "low51 r = take_bit 51 r"
    by (simp add: low51_def kMask51_def take_bit_eq_mask mask_eq_exp_minus_1 unsigned_ucast_eq)
  also have "\<dots> = r mod 2251799813685248"
    by (simp add: take_bit_eq_mod)
  finally have "low51 r = r mod 2251799813685248" .
  then show ?thesis
    by (simp only: uint_mod_distrib uint_exp_51)
qed

lemma carry51: "uint r < 2 ^ 115 \<Longrightarrow> uint (carry51 r) = uint r div 2 ^ 51"
proof -
  assume r: "uint r < 2 ^ 115"
  have "drop_bit 51 r = r div 2251799813685248"
    by (simp add: drop_bit_eq_div)
  then have "uint (drop_bit 51 r) = uint r div 2 ^ 51"
    by (simp only: uint_div_distrib uint_exp_51)
  moreover have "uint r div 2 ^ 51 < 2 ^ 64" "0 \<le> uint r div 2 ^ 51"
    using r by (simp_all add: pos_imp_zdiv_nonneg_iff)
  ultimately show ?thesis
    by (simp add: carry51_def unsigned_ucast_eq take_bit_int_eq_self)
qed

lemma uint_add_bound: "uint a + uint b < 2 ^ LENGTH('a) \<Longrightarrow> uint (a + b) = uint a + uint b" for a b :: "'a::len word"
  by (simp add: uint_word_ariths)

lemma uint_ucast_high: "uint (ucast c :: u128) = uint c" for c :: u64
  by (simp add: unsigned_ucast_eq take_bit_int_eq_self order.strict_trans2 [OF uint_lt2p])

lemma uint_add_ucast: "uint r + uint c < 2 ^ 128 \<Longrightarrow> uint (r + ucast c) = uint r + uint c" for r :: u128 and c :: u64
  using uint_add_bound [of r "ucast c"] by (simp add: uint_ucast_high)

lemma uint_ucast_low: "uint r < 2 ^ 64 \<Longrightarrow> uint (ucast r :: u64) = uint r" for r :: u128
  by (simp add: unsigned_ucast_eq take_bit_int_eq_self)

text \<open>One link of the chain: the low part, the carry and the next limb.\<close>

lemma carry_link:
  fixes r s :: u128
  assumes "uint r < 2 ^ 114 + 2 ^ 113" "uint s < 2 ^ 114 + 2 ^ 112"
  shows "uint r = uint (low51 r) + 2 ^ 51 * uint (carry51 r)" "0 \<le> uint (low51 r)" "uint (low51 r) < 2 ^ 51"
    "uint (s + ucast (carry51 r)) = uint s + uint (carry51 r)" "uint (carry51 r) < 2 ^ 64"
    "uint (s + ucast (carry51 r)) < 2 ^ 114 + 2 ^ 113"
proof -
  have c: "uint (carry51 r) = uint r div 2 ^ 51"
    using assms(1) by (intro carry51) simp
  show "uint r = uint (low51 r) + 2 ^ 51 * uint (carry51 r)"
    unfolding low51 c by simp
  show "0 \<le> uint (low51 r)" "uint (low51 r) < 2 ^ 51"
    unfolding low51 by simp_all
  show c64: "uint (carry51 r) < 2 ^ 64"
    unfolding c using assms(1) by simp
  show sum: "uint (s + ucast (carry51 r)) = uint s + uint (carry51 r)"
    using c64 assms(2) by (intro uint_add_ucast) simp
  show "uint (s + ucast (carry51 r)) < 2 ^ 114 + 2 ^ 113"
    unfolding sum using c64 assms(2) by simp
qed

lemma fold_carries_spec:
  assumes "uint r0 < 2 ^ 114 + 2 ^ 112" "uint r1 < 2 ^ 114 + 2 ^ 112" "uint r2 < 2 ^ 114 + 2 ^ 112"
    "uint r3 < 2 ^ 114 + 2 ^ 112" "uint r4 \<le> 5 * 2 ^ 108"
  shows "reduced (fold_carries r0 r1 r2 r3 r4)
    (uint r0 + 2 ^ 51 * uint r1 + 2 ^ 102 * uint r2 + 2 ^ 153 * uint r3 + 2 ^ 204 * uint r4)"
proof -
  define s1 where "s1 = r1 + ucast (carry51 r0)"
  define s2 where "s2 = r2 + ucast (carry51 s1)"
  define s3 where "s3 = r3 + ucast (carry51 s2)"
  define s4 where "s4 = r4 + ucast (carry51 s3)"
  define t0 where "t0 = low51 r0 + ucast (19 * carry51 s4)"
  define u1 where "u1 = low51 s1 + ucast (carry51 t0)"
  have out: "fold_carries r0 r1 r2 r3 r4 = Fe (ucast (low51 t0)) (ucast u1) (ucast (low51 s2)) (ucast (low51 s3)) (ucast (low51 s4))"
    by (simp only: fold_carries_def Let_def s1_def s2_def s3_def s4_def t0_def u1_def)
  have "uint r0 < 2 ^ 114 + 2 ^ 113" "uint r4 < 2 ^ 114 + 2 ^ 112"
    using assms(1,5) by simp_all
  note c0 = carry_link [OF this(1) assms(2), folded s1_def]
  note c1 = carry_link [OF c0(6) assms(3), folded s2_def]
  note c2 = carry_link [OF c1(6) assms(4), folded s3_def]
  note c3 = carry_link [OF c2(6) \<open>uint r4 < 2 ^ 114 + 2 ^ 112\<close>, folded s4_def]
  have s4: "uint s4 < 5 * 2 ^ 108 + 2 ^ 64 + 1"
    using assms(5) c3(4,5) by simp
  then have c4: "uint (carry51 s4) = uint s4 div 2 ^ 51"
    by (intro carry51) simp
  then have c4': "uint s4 = uint (low51 s4) + 2 ^ 51 * uint (carry51 s4)"
    by (simp add: low51)
  have c4_bound: "uint (carry51 s4) \<le> 5 * 2 ^ 57 + 2 ^ 13"
    unfolding c4 using s4 by simp
  have "uint (19 * carry51 s4) = 19 * uint (carry51 s4)"
    using c4_bound by (simp add: uint_word_ariths)
  moreover have "uint (low51 r0) + uint (19 * carry51 s4) < 2 ^ 128"
    using calculation c4_bound c0(3) by simp
  ultimately have t0: "uint t0 = uint (low51 r0) + 19 * uint (carry51 s4)"
    unfolding t0_def by (subst uint_add_ucast) simp_all
  then have t0_bound: "uint t0 < 2 ^ 64"
    using c4_bound c0(3) by simp
  then have c5: "uint (carry51 t0) = uint t0 div 2 ^ 51"
    by (intro carry51) simp
  then have c5': "uint t0 = uint (low51 t0) + 2 ^ 51 * uint (carry51 t0)" "uint (carry51 t0) < 2 ^ 14"
    using t0_bound by (simp_all add: low51)
  have u1: "uint u1 = uint (low51 s1) + uint (carry51 t0)"
    unfolding u1_def using c5'(2) c1(3) by (intro uint_add_ucast) simp
  have low: "uint (low51 r) < 2 ^ 51" "uint (ucast (low51 r) :: u64) = uint (low51 r)" for r
    by (simp_all add: low51 uint_ucast_low)
  have u1': "uint (ucast u1 :: u64) = uint u1"
    using u1 c5'(2) low(1) [of s1] by (intro uint_ucast_low) simp
  have below: "fe_below (2 ^ 51 + 2 ^ 14) (fold_carries r0 r1 r2 r3 r4)"
    using low(1) [of t0] low(1) [of s1] low(1) [of s2] low(1) [of s3] low(1) [of s4] u1 c5'(2)
    by (simp add: out low(2) u1')
  have "uint r0 + 2 ^ 51 * uint r1 + 2 ^ 102 * uint r2 + 2 ^ 153 * uint r3 + 2 ^ 204 * uint r4 =
    fe_val (fold_carries r0 r1 r2 r3 r4) + uint (carry51 s4) * p25519"
    using c0(1,4) c1(1,4) c2(1,4) c3(1,4) c4' t0 c5'(1) u1
    by (simp add: out low(2) u1' p25519_def)
  from mod_shift [OF this] below show ?thesis
    by (simp add: reduced_def)
qed

section \<open>Ring operations\<close>

text \<open>A machine value that is an integer within range.\<close>

lemma uint_of_int: "w = word_of_int k \<Longrightarrow> 0 \<le> k \<Longrightarrow> k < 2 ^ 128 \<Longrightarrow> uint (w :: u128) = k"
  by (simp add: uint_word_of_int_eq take_bit_int_eq_self)

lemma ucast_int: "(ucast a :: u128) = word_of_int (uint a)" for a :: u64
  by (simp add: word_of_int_uint)

lemma product_bound: "0 \<le> x \<Longrightarrow> x < 2 ^ 54 \<Longrightarrow> 0 \<le> y \<Longrightarrow> y < 2 ^ 54 \<Longrightarrow> 0 \<le> x * y \<and> x * y \<le> 2 ^ 108" for x y :: int
  using mult_mono [of x "2 ^ 54" y "2 ^ 54"] by simp

lemma fe_mul_spec:
  assumes "loose f x" "loose g y"
  shows "reduced (fe_mul f g) (x * y)"
proof -
  obtain f0 f1 f2 f3 f4 where f: "f = Fe f0 f1 f2 f3 f4" by (cases f)
  obtain g0 g1 g2 g3 g4 where g: "g = Fe g0 g1 g2 g3 g4" by (cases g)
  define F0 F1 F2 F3 F4 where F: "F0 = uint f0" "F1 = uint f1" "F2 = uint f2" "F3 = uint f3" "F4 = uint f4"
  define G0 G1 G2 G3 G4 where G: "G0 = uint g0" "G1 = uint g1" "G2 = uint g2" "G3 = uint g3" "G4 = uint g4"
  have b: "0 \<le> a * b \<and> a * b \<le> 2 ^ 108" if "a \<in> {F0, F1, F2, F3, F4}" "b \<in> {G0, G1, G2, G3, G4}" for a b
    using loose_below [OF assms(1)] loose_below [OF assms(2)] that by (intro product_bound) (auto simp: f g F G)
  define R0 where "R0 = F0 * G0 + 19 * (F1 * G4 + F2 * G3 + F3 * G2 + F4 * G1)"
  define R1 where "R1 = F0 * G1 + F1 * G0 + 19 * (F2 * G4 + F3 * G3 + F4 * G2)"
  define R2 where "R2 = F0 * G2 + F1 * G1 + F2 * G0 + 19 * (F3 * G4 + F4 * G3)"
  define R3 where "R3 = F0 * G3 + F1 * G2 + F2 * G1 + F3 * G0 + 19 * (F4 * G4)"
  define R4 where "R4 = F0 * G4 + F1 * G3 + F2 * G2 + F3 * G1 + F4 * G0"
  have R0: "0 \<le> R0" "R0 < 2 ^ 114 + 2 ^ 112"
    using b [of F0 G0] b [of F1 G4] b [of F2 G3] b [of F3 G2] b [of F4 G1] unfolding R0_def by simp_all
  have R1: "0 \<le> R1" "R1 < 2 ^ 114 + 2 ^ 112"
    using b [of F0 G1] b [of F1 G0] b [of F2 G4] b [of F3 G3] b [of F4 G2] unfolding R1_def by simp_all
  have R2: "0 \<le> R2" "R2 < 2 ^ 114 + 2 ^ 112"
    using b [of F0 G2] b [of F1 G1] b [of F2 G0] b [of F3 G4] b [of F4 G3] unfolding R2_def by simp_all
  have R3: "0 \<le> R3" "R3 < 2 ^ 114 + 2 ^ 112"
    using b [of F0 G3] b [of F1 G2] b [of F2 G1] b [of F3 G0] b [of F4 G4] unfolding R3_def by simp_all
  have R4: "0 \<le> R4" "R4 \<le> 5 * 2 ^ 108"
    using b [of F0 G4] b [of F1 G3] b [of F2 G2] b [of F3 G1] b [of F4 G0] unfolding R4_def by simp_all
  note R = R0 R1 R2 R3 R4
  have mul: "fe_mul f g = fold_carries (word_of_int R0) (word_of_int R1) (word_of_int R2) (word_of_int R3) (word_of_int R4)"
    by (simp only: f g fe_mul.simps Let_def ucast_int R0_def R1_def R2_def R3_def R4_def F G of_int_add of_int_mult of_int_numeral)
  have u: "uint (word_of_int R0 :: u128) = R0" "uint (word_of_int R1 :: u128) = R1" "uint (word_of_int R2 :: u128) = R2"
    "uint (word_of_int R3 :: u128) = R3" "uint (word_of_int R4 :: u128) = R4"
    using R by (auto intro!: uint_of_int)
  have "reduced (fe_mul f g) (R0 + 2 ^ 51 * R1 + 2 ^ 102 * R2 + 2 ^ 153 * R3 + 2 ^ 204 * R4)"
    unfolding mul using fold_carries_spec [of "word_of_int R0" "word_of_int R1" "word_of_int R2" "word_of_int R3" "word_of_int R4"] R
    by (simp only: u)
  moreover have "fe_val f * fe_val g = (R0 + 2 ^ 51 * R1 + 2 ^ 102 * R2 + 2 ^ 153 * R3 + 2 ^ 204 * R4) +
    (F1 * G4 + F2 * G3 + F3 * G2 + F4 * G1 + 2 ^ 51 * (F2 * G4 + F3 * G3 + F4 * G2) +
     2 ^ 102 * (F3 * G4 + F4 * G3) + 2 ^ 153 * (F4 * G4)) * p25519"
    by (simp add: f g F [symmetric] G [symmetric] R0_def R1_def R2_def R3_def R4_def p25519_def algebra_simps)
  from mod_shift [OF this] have "(R0 + 2 ^ 51 * R1 + 2 ^ 102 * R2 + 2 ^ 153 * R3 + 2 ^ 204 * R4) mod p25519 = x * y mod p25519"
    using mod_mult_cong [OF loose_val [OF assms(1)] loose_val [OF assms(2)]] by (rule trans [OF sym])
  ultimately show ?thesis
    by (simp add: reduced_def)
qed

lemma fe_sq_spec: "loose f x \<Longrightarrow> reduced (fe_sq f) (x * x)"
  by (simp add: fe_sq_def fe_mul_spec)

lemma scalar_product:
  fixes a s :: u64
  assumes "uint a < 2 ^ 54" "uint s < 2 ^ 17"
  shows "uint (ucast a * ucast s :: u128) = uint a * uint s" "uint a * uint s \<le> 2 ^ 71"
proof -
  show le: "uint a * uint s \<le> 2 ^ 71"
    using mult_mono [of "uint a" "2 ^ 54" "uint s" "2 ^ 17"] assms by simp
  have "(ucast a * ucast s :: u128) = word_of_int (uint a * uint s)"
    by (simp only: ucast_int of_int_mult)
  moreover have "0 \<le> uint a * uint s"
    by (intro mult_nonneg_nonneg uint_ge_0)
  moreover have "uint a * uint s < 2 ^ 128"
    using le by simp
  ultimately show "uint (ucast a * ucast s :: u128) = uint a * uint s"
    by (rule uint_of_int)
qed

lemma fe_mul_scalar_spec:
  assumes "loose f x" "uint s < 2 ^ 17"
  shows "reduced (fe_mul_scalar f s) (x * uint s)"
proof -
  obtain f0 f1 f2 f3 f4 where f: "f = Fe f0 f1 f2 f3 f4" by (cases f)
  define S where "S = uint s"
  have "uint f0 < 2 ^ 54" "uint f1 < 2 ^ 54" "uint f2 < 2 ^ 54" "uint f3 < 2 ^ 54" "uint f4 < 2 ^ 54"
    using loose_below [OF assms(1)] by (simp_all add: f)
  note u = this [THEN scalar_product(1) [OF _ assms(2)], folded S_def]
    and b = this [THEN scalar_product(2) [OF _ assms(2)], folded S_def]
  have le: "x < 2 ^ 114 + 2 ^ 112 \<and> x \<le> 5 * 2 ^ 108" if "x \<le> 2 ^ 71" for x :: int
    using that by simp
  have "reduced (fe_mul_scalar f s) (uint f0 * S + 2 ^ 51 * (uint f1 * S) + 2 ^ 102 * (uint f2 * S) +
      2 ^ 153 * (uint f3 * S) + 2 ^ 204 * (uint f4 * S))"
    using fold_carries_spec [of "ucast f0 * ucast s" "ucast f1 * ucast s" "ucast f2 * ucast s" "ucast f3 * ucast s" "ucast f4 * ucast s",
        unfolded u] b [THEN le]
    by (simp only: f fe_mul_scalar.simps simp_thms)
  moreover have "uint f0 * S + 2 ^ 51 * (uint f1 * S) + 2 ^ 102 * (uint f2 * S) +
      2 ^ 153 * (uint f3 * S) + 2 ^ 204 * (uint f4 * S) = fe_val f * S"
    by (simp add: f algebra_simps)
  moreover have "fe_val f * S mod p25519 = x * S mod p25519"
    by (rule mod_mult_cong [OF loose_val [OF assms(1)] refl])
  ultimately show ?thesis
    by (simp add: reduced_def S_def)
qed

lemma uint_add64: "uint a < 2 ^ 53 \<Longrightarrow> uint b < 2 ^ 53 \<Longrightarrow> uint (a + b) = uint a + uint b" for a b :: u64
  by (rule uint_add_bound) simp

lemma fe_add_spec:
  assumes "reduced f x" "reduced g y"
  shows "loose (fe_add f g) (x + y)"
proof -
  obtain f0 f1 f2 f3 f4 where f: "f = Fe f0 f1 f2 f3 f4" by (cases f)
  obtain g0 g1 g2 g3 g4 where g: "g = Fe g0 g1 g2 g3 g4" by (cases g)
  have "fe_val (fe_add f g) = fe_val f + fe_val g" "fe_below (2 ^ 54) (fe_add f g)"
    using reduced_below [OF assms(1)] reduced_below [OF assms(2)] by (simp_all add: f g uint_add64)
  then show ?thesis
    using mod_add_cong [OF reduced_val [OF assms(1)] reduced_val [OF assms(2)]] by (simp add: loose_def)
qed

lemma uint_sub64:
  fixes a k b :: u64
  assumes "uint a < 2 ^ 53" "uint k < 2 ^ 53" "uint b \<le> uint k"
  shows "uint (a + k - b) = uint a + uint k - uint b"
proof -
  have "uint (a + k) = uint a + uint k"
    using assms by (intro uint_add64)
  moreover have "uint b \<le> uint (a + k)"
    using calculation assms(3) uint_ge_0 [of a] by linarith
  ultimately show ?thesis
    by (simp only: uint_sub_lem [THEN iffD1])
qed

lemma fe_sub_spec:
  assumes "reduced f x" "reduced g y"
  shows "loose (fe_sub f g) (x - y)"
proof -
  obtain f0 f1 f2 f3 f4 where f: "f = Fe f0 f1 f2 f3 f4" by (cases f)
  obtain g0 g1 g2 g3 g4 where g: "g = Fe g0 g1 g2 g3 g4" by (cases g)
  have diff_less: "uint a - uint b < n" if "uint a < 2 ^ 51 + 2 ^ 14" "2 ^ 51 + 2 ^ 14 \<le> n" for a b :: u64 and n
    using that uint_ge_0 [of b] by linarith
  have s: "uint (a + 0xFFFFFFFFFFFDA - b) = uint a + 0xFFFFFFFFFFFDA - uint b"
    "uint (a + 0xFFFFFFFFFFFFE - b) = uint a + 0xFFFFFFFFFFFFE - uint b"
    if "uint a < 2 ^ 51 + 2 ^ 14" "uint b < 2 ^ 51 + 2 ^ 14" for a b :: u64
    using that by (simp_all add: uint_sub64)
  have "fe_val (fe_sub f g) = fe_val f - fe_val g + 2 * p25519" "fe_below (2 ^ 54) (fe_sub f g)"
    using reduced_below [OF assms(1)] reduced_below [OF assms(2)]
    by (simp_all add: f g s p25519_def diff_less)
  moreover have "(fe_val f - fe_val g) mod p25519 = (x - y) mod p25519"
    by (rule mod_diff_cong [OF reduced_val [OF assms(1)] reduced_val [OF assms(2)]])
  ultimately show ?thesis
    by (simp add: loose_def)
qed

lemma swap_limb_cases: "swap_limb 0 f g = (f, g)" "swap_limb (- 1) f g = (g, f)"
  by (simp_all add: swap_limb_def Let_def xor.assoc [symmetric]) (simp add: xor.commute [of f] xor.assoc)

lemma fe_cswap_spec: "fe_cswap f g 0 = (f, g)" "fe_cswap f g 1 = (g, f)"
  by (cases f; cases g; simp add: swap_limb_cases)+

section \<open>Inversion\<close>

lemma reduced_mul: "reduced f x \<Longrightarrow> reduced g y \<Longrightarrow> reduced (fe_mul f g) (x * y)"
  by (intro fe_mul_spec reduced_loose)

lemma reduced_pow: "reduced f (x ^ a) \<Longrightarrow> reduced g (x ^ b) \<Longrightarrow> a + b = n \<Longrightarrow> reduced (fe_mul f g) (x ^ n)"
  using reduced_mul [of f "x ^ a" g "x ^ b"] by (simp add: power_add [symmetric])

lemma reduced_sq_n: "reduced f (x ^ a) \<Longrightarrow> a * 2 ^ n = m \<Longrightarrow> reduced (fe_sq_n f n) (x ^ m)"
proof (induction n arbitrary: f a)
  case (Suc n)
  have "reduced (fe_sq f) (x ^ (a * 2))"
    using reduced_pow [OF Suc.prems(1) Suc.prems(1)] by (simp add: fe_sq_def mult_2_right)
  then show ?case
    using Suc.IH [of "fe_sq f" "a * 2"] Suc.prems(2) by (simp add: mult.assoc)
qed simp

lemma fe_inv_spec:
  assumes "loose z x"
  shows "reduced (fe_inv z) (x ^ (2 ^ 255 - 21))"
proof -
  define z2 where "z2 = fe_sq z"
  define z8 where "z8 = fe_sq_n z2 2"
  define z9 where "z9 = fe_mul z z8"
  define z11 where "z11 = fe_mul z2 z9"
  define z22 where "z22 = fe_sq z11"
  define z5 where "z5 = fe_mul z9 z22"
  define z10 where "z10 = fe_mul (fe_sq_n z5 5) z5"
  define z20 where "z20 = fe_mul (fe_sq_n z10 10) z10"
  define z40 where "z40 = fe_mul (fe_sq_n z20 20) z20"
  define z50 where "z50 = fe_mul (fe_sq_n z40 10) z10"
  define z100 where "z100 = fe_mul (fe_sq_n z50 50) z50"
  define z200 where "z200 = fe_mul (fe_sq_n z100 100) z100"
  define z250 where "z250 = fe_mul (fe_sq_n z200 50) z50"
  have "reduced z2 (x ^ 2)"
    unfolding z2_def power2_eq_square by (rule fe_sq_spec [OF assms])
  moreover from this have "reduced z8 (x ^ 8)"
    unfolding z8_def by (rule reduced_sq_n) simp
  from fe_mul_spec [OF assms reduced_loose [OF this]] have z9: "reduced z9 (x ^ 9)"
    unfolding z9_def by (simp add: power_Suc [symmetric] del: power_Suc)
  ultimately have z11: "reduced z11 (x ^ 11)"
    unfolding z11_def by (rule reduced_pow) simp
  have "reduced z22 (x ^ 22)"
    unfolding z22_def fe_sq_def using z11 z11 by (rule reduced_pow) simp
  with z9 have z5: "reduced z5 (x ^ (2 ^ 5 - 1))"
    unfolding z5_def by (rule reduced_pow) simp
  then have z10: "reduced z10 (x ^ (2 ^ 10 - 1))"
    unfolding z10_def by (intro reduced_pow [OF reduced_sq_n [OF z5 refl] z5]) simp
  then have z20: "reduced z20 (x ^ (2 ^ 20 - 1))"
    unfolding z20_def by (intro reduced_pow [OF reduced_sq_n [OF z10 refl] z10]) simp
  then have z40: "reduced z40 (x ^ (2 ^ 40 - 1))"
    unfolding z40_def by (intro reduced_pow [OF reduced_sq_n [OF z20 refl] z20]) simp
  then have z50: "reduced z50 (x ^ (2 ^ 50 - 1))"
    unfolding z50_def by (intro reduced_pow [OF reduced_sq_n [OF z40 refl] z10]) simp
  then have z100: "reduced z100 (x ^ (2 ^ 100 - 1))"
    unfolding z100_def by (intro reduced_pow [OF reduced_sq_n [OF z50 refl] z50]) simp
  then have z200: "reduced z200 (x ^ (2 ^ 200 - 1))"
    unfolding z200_def by (intro reduced_pow [OF reduced_sq_n [OF z100 refl] z100]) simp
  then have z250: "reduced z250 (x ^ (2 ^ 250 - 1))"
    unfolding z250_def by (intro reduced_pow [OF reduced_sq_n [OF z200 refl] z50]) simp
  then have "reduced (fe_mul (fe_sq_n z250 5) z11) (x ^ (2 ^ 255 - 21))"
    by (intro reduced_pow [OF reduced_sq_n [OF z250 refl] z11]) simp
  then show ?thesis
    by (simp only: fe_inv_def Let_def z2_def z8_def z9_def z11_def z22_def z5_def z10_def z20_def z40_def z50_def
        z100_def z200_def z250_def)
qed

section \<open>From bytes\<close>

text \<open>The little-endian number a byte string denotes.\<close>

primrec le_val :: "bytes \<Rightarrow> int" where
  "le_val [] = 0"
| "le_val (b # bs) = uint b + 256 * le_val bs"

lemma bit_le_val: "bit (le_val bs) n \<longleftrightarrow> n div 8 < length bs \<and> bit (bs ! (n div 8)) (n mod 8)"
proof (induction bs arbitrary: n)
  case (Cons b bs)
  have "uint b + push_bit 8 (le_val bs) = uint b OR push_bit 8 (le_val bs)"
    by (rule disjunctive_add) (auto simp: bit_simps)
  then have "le_val (b # bs) = uint b OR push_bit 8 (le_val bs)"
    by (simp add: push_bit_eq_mult mult.commute)
  then show ?case
    using Cons by (cases "n < 8") (auto simp: bit_simps le_div_geq le_mod_geq not_less)
qed simp

lemma bit_fold_or:
  fixes b :: bytes
  shows "bit (foldl (\<lambda>v i. v OR push_bit (i * 8) (ucast (b ! (off + i)) :: u64)) v [0..<m]) n \<longleftrightarrow>
   bit v n \<or> n < 64 \<and> n div 8 < m \<and> bit (b ! (off + n div 8)) (n mod 8)"
proof (induction m)
  case (Suc m)
  have "m * 8 \<le> n \<and> bit (b ! (off + m)) (n - m * 8) \<longleftrightarrow> n div 8 = m \<and> bit (b ! (off + n div 8)) (n mod 8)"
  proof (cases "n div 8 = m")
    case True
    then have "n - m * 8 = n mod 8" "m * 8 \<le> n"
      by (auto simp: minus_div_mult_eq_mod [symmetric])
    with True show ?thesis
      by simp
  next
    case False
    then have "\<not> (m * 8 \<le> n \<and> n - m * 8 < 8)"
      by auto
    with False show ?thesis
      using u8_high [of "n - m * 8" "b ! (off + m)"] by linarith
  qed
  with Suc show ?case
    by (auto simp: bit_simps less_Suc_eq)
qed simp

lemma bit_load_le64: "bit (load_le64 s off) n \<longleftrightarrow> n < 64 \<and> bit (s ! (off + n div 8)) (n mod 8)"
  unfolding load_le64_def bit_fold_or by (auto simp: div_less_iff_less_mult)

lemma limb_of_bytes:
  assumes "8 * off + sh = e" "sh \<le> 13" "off + 8 \<le> length s"
  shows "uint (drop_bit sh (load_le64 s off) AND kMask51) = take_bit 51 (drop_bit e (le_val s))"
proof (rule bit_eqI)
  fix n
  have "(e + n) div 8 = off + (sh + n) div 8" "(e + n) mod 8 = (sh + n) mod 8"
    by (simp_all add: assms(1) [symmetric] add.assoc)
  moreover have "off + (sh + n) div 8 < length s" if "n < 51"
  proof -
    have "sh + n < 8 * 8"
      using that assms(2) by simp
    then have "(sh + n) div 8 < 8"
      by (simp add: div_less_iff_less_mult)
    then show ?thesis
      using assms(3) by simp
  qed
  ultimately show "bit (uint (drop_bit sh (load_le64 s off) AND kMask51)) n = bit (take_bit 51 (drop_bit e (le_val s))) n"
    using assms(2) by (auto simp: mask51 bit_simps bit_load_le64 bit_le_val add.commute)
qed

lemma take_bit_split: "take_bit (n + 51) v = take_bit n v + 2 ^ n * take_bit 51 (drop_bit n v)" for v :: int
  by (simp add: take_bit_eq_mod drop_bit_eq_div power_add zmod_zmult2_eq)

lemma fe_frombytes_val:
  assumes "length s = 32"
  shows "fe_val (fe_frombytes s) = le_val s mod 2 ^ 255" "fe_below (2 ^ 51) (fe_frombytes s)"
proof -
  define v where "v = le_val s"
  note L = limb_of_bytes [of 0 0 0 s] limb_of_bytes [of 6 3 51 s] limb_of_bytes [of 12 6 102 s]
    limb_of_bytes [of 19 1 153 s] limb_of_bytes [of 24 12 204 s]
  have "take_bit 255 v = take_bit 51 v + 2 ^ 51 * take_bit 51 (drop_bit 51 v) + 2 ^ 102 * take_bit 51 (drop_bit 102 v) +
      2 ^ 153 * take_bit 51 (drop_bit 153 v) + 2 ^ 204 * take_bit 51 (drop_bit 204 v)"
    using take_bit_split [of 204 v] take_bit_split [of 153 v] take_bit_split [of 102 v] take_bit_split [of 51 v] by simp
  then show "fe_val (fe_frombytes s) = le_val s mod 2 ^ 255"
    using L assms unfolding take_bit_eq_mod [of 255, symmetric] by (simp add: fe_frombytes_def v_def)
  show "fe_below (2 ^ 51) (fe_frombytes s)"
    using L assms take_bit_int_less_exp [of 51] by (simp add: fe_frombytes_def)
qed

lemma fe_frombytes_spec: "length s = 32 \<Longrightarrow> reduced (fe_frombytes s) (le_val s mod 2 ^ 255)"
  using fe_frombytes_val [of s] by (simp add: reduced_def fe_below_mono [of "2 ^ 51"])

section \<open>To bytes\<close>

lemma uint_mask51: "uint (x AND kMask51) = uint x mod 2 ^ 51"
  unfolding mask51 unsigned_take_bit_eq by (rule take_bit_eq_mod)

lemma uint_drop51: "uint (drop_bit 51 x) = uint x div 2 ^ 51" for x :: u64
proof -
  have "drop_bit 51 x = x div 2251799813685248"
    by (simp add: drop_bit_eq_div)
  moreover have "uint (2251799813685248 :: u64) = 2 ^ 51"
    by simp
  ultimately show ?thesis
    by (simp only: uint_div_distrib)
qed

text \<open>One carry pass, on limbs that carry at most one.\<close>

lemma carry_pass_limbs:
  assumes "uint h0 < 2 ^ 52 - 1" "uint h1 < 2 ^ 52 - 1" "uint h2 < 2 ^ 52 - 1" "uint h3 < 2 ^ 52 - 1" "uint h4 < 2 ^ 52 - 1"
  obtains l0 l1 l2 l3 l4 c0 c1 c2 c3 c4 where
    "carry_pass (Fe h0 h1 h2 h3 h4) = Fe l0 l1 l2 l3 l4"
    "uint l1 < 2 ^ 51" "uint l2 < 2 ^ 51" "uint l3 < 2 ^ 51" "uint l4 < 2 ^ 51" "uint l0 - 19 * c4 < 2 ^ 51" "0 \<le> uint l0 - 19 * c4"
    "uint h0 = uint l0 - 19 * c4 + 2 ^ 51 * c0" "uint h1 + c0 = uint l1 + 2 ^ 51 * c1" "uint h2 + c1 = uint l2 + 2 ^ 51 * c2"
    "uint h3 + c2 = uint l3 + 2 ^ 51 * c3" "uint h4 + c3 = uint l4 + 2 ^ 51 * c4"
    "c0 \<in> {0, 1}" "c1 \<in> {0, 1}" "c2 \<in> {0, 1}" "c3 \<in> {0, 1}" "c4 \<in> {0, 1}"
proof -
  have link: "uint (h + c) = uint h + uint c" "uint (h + c) = uint ((h + c) AND kMask51) + 2 ^ 51 * uint (drop_bit 51 (h + c))"
    "uint ((h + c) AND kMask51) < 2 ^ 51" "uint (drop_bit 51 (h + c)) \<in> {0, 1}"
    if "uint h < 2 ^ 52 - 1" "uint c \<in> {0, 1}" for h c :: u64
  proof -
    show sum: "uint (h + c) = uint h + uint c"
      using that by (intro uint_add_bound) auto
    note m = uint_mask51 [of "h + c"] uint_drop51 [of "h + c"]
    show "uint (h + c) = uint ((h + c) AND kMask51) + 2 ^ 51 * uint (drop_bit 51 (h + c))"
      unfolding m by simp
    show "uint ((h + c) AND kMask51) < 2 ^ 51"
      unfolding m by simp
    have "0 \<le> uint (h + c) div 2 ^ 51" "uint (h + c) div 2 ^ 51 < 2"
      using that unfolding sum by (auto simp: pos_imp_zdiv_nonneg_iff)
    then show "uint (drop_bit 51 (h + c)) \<in> {0, 1}"
      unfolding m by auto
  qed
  have zero: "uint (0 :: u64) \<in> {0, 1}"
    by simp
  note k0 = link [OF assms(1) zero, unfolded add_0_right]
  note k1 = link [OF assms(2) k0(4)]
  note k2 = link [OF assms(3) k1(4)]
  note k3 = link [OF assms(4) k2(4)]
  note k4 = link [OF assms(5) k3(4)]
  define c0 where "c0 = drop_bit 51 h0"
  define c1 where "c1 = drop_bit 51 (h1 + c0)"
  define c2 where "c2 = drop_bit 51 (h2 + c1)"
  define c3 where "c3 = drop_bit 51 (h3 + c2)"
  define c4 where "c4 = drop_bit 51 (h4 + c3)"
  note k = k0 k1 k2 k3 k4
  note k = k [folded c0_def] 
  note k = k [folded c1_def]
  note k = k [folded c2_def]
  note k = k [folded c3_def]
  note k = k [folded c4_def]
  have mul: "uint (19 * c4) = 19 * uint c4"
    using k(20) by (auto simp: uint_word_ariths)
  have l0: "uint ((h0 AND kMask51) + 19 * c4) = uint (h0 AND kMask51) + 19 * uint c4"
    using k(3) k(20) mul by (subst uint_add_bound) auto
  show ?thesis
    by (rule that [of "(h0 AND kMask51) + 19 * c4" "(h1 + c0) AND kMask51" "(h2 + c1) AND kMask51" "(h3 + c2) AND kMask51"
          "(h4 + c3) AND kMask51" "uint c4" "uint c0" "uint c1" "uint c2" "uint c3"])
      (use k l0 in \<open>simp_all add: c0_def c1_def c2_def c3_def c4_def Let_def\<close>)
qed

lemma carry_pass_reduced:
  assumes "fe_below (2 ^ 51 + 2 ^ 14) f"
  shows "fe_below (2 ^ 51) (carry_pass (carry_pass f))" "fe_val (carry_pass (carry_pass f)) mod p25519 = fe_val f mod p25519"
proof -
  obtain h0 h1 h2 h3 h4 where f: "f = Fe h0 h1 h2 h3 h4" by (cases f)
  have "uint h0 < 2 ^ 52 - 1" "uint h1 < 2 ^ 52 - 1" "uint h2 < 2 ^ 52 - 1" "uint h3 < 2 ^ 52 - 1" "uint h4 < 2 ^ 52 - 1"
    using assms by (simp_all add: f)
  then obtain l0 l1 l2 l3 l4 c0 c1 c2 c3 c4 where
    l: "carry_pass f = Fe l0 l1 l2 l3 l4"
      "uint l1 < 2 ^ 51" "uint l2 < 2 ^ 51" "uint l3 < 2 ^ 51" "uint l4 < 2 ^ 51" "uint l0 - 19 * c4 < 2 ^ 51" "0 \<le> uint l0 - 19 * c4"
      "uint h0 = uint l0 - 19 * c4 + 2 ^ 51 * c0" "uint h1 + c0 = uint l1 + 2 ^ 51 * c1" "uint h2 + c1 = uint l2 + 2 ^ 51 * c2"
      "uint h3 + c2 = uint l3 + 2 ^ 51 * c3" "uint h4 + c3 = uint l4 + 2 ^ 51 * c4"
    and c4: "c4 \<in> {0, 1}"
    unfolding f by (rule carry_pass_limbs)
  have l0: "uint l0 < 2 ^ 51 + 19"
    using l(6) c4 by auto
  have "fe_val f = fe_val (carry_pass f) + c4 * p25519"
    unfolding l(1) unfolding f using l(8-12) by (simp add: p25519_def)
  note first = mod_shift [OF this]
  have "uint l0 < 2 ^ 52 - 1" "uint l1 < 2 ^ 52 - 1" "uint l2 < 2 ^ 52 - 1" "uint l3 < 2 ^ 52 - 1" "uint l4 < 2 ^ 52 - 1"
    using l0 l(2-5) by simp_all
  then obtain k0 k1 k2 k3 k4 d0 d1 d2 d3 d4 where
    k: "carry_pass (Fe l0 l1 l2 l3 l4) = Fe k0 k1 k2 k3 k4"
      "uint k1 < 2 ^ 51" "uint k2 < 2 ^ 51" "uint k3 < 2 ^ 51" "uint k4 < 2 ^ 51" "uint k0 - 19 * d4 < 2 ^ 51" "0 \<le> uint k0 - 19 * d4"
      "uint l0 = uint k0 - 19 * d4 + 2 ^ 51 * d0" "uint l1 + d0 = uint k1 + 2 ^ 51 * d1" "uint l2 + d1 = uint k2 + 2 ^ 51 * d2"
      "uint l3 + d2 = uint k3 + 2 ^ 51 * d3" "uint l4 + d3 = uint k4 + 2 ^ 51 * d4"
    and d: "d0 \<in> {0, 1}" "d1 \<in> {0, 1}" "d2 \<in> {0, 1}" "d3 \<in> {0, 1}" "d4 \<in> {0, 1}"
    by (rule carry_pass_limbs)
  have "uint k0 < 2 ^ 51"
  proof (cases "d0 = 0")
    case True
    then have "d1 = 0"
      using k(9) l(2) d(2) uint_ge_0 [of k1] by auto
    then have "d2 = 0"
      using k(10) l(3) d(3) uint_ge_0 [of k2] by auto
    then have "d3 = 0"
      using k(11) l(4) d(4) uint_ge_0 [of k3] by auto
    then have "d4 = 0"
      using k(12) l(5) d(5) uint_ge_0 [of k4] by auto
    with True k(6) show ?thesis
      by simp
  next
    case False
    then have "d0 = 1" "d4 \<le> 1"
      using d by auto
    then show ?thesis
      using k(8) l0 by simp
  qed
  then show "fe_below (2 ^ 51) (carry_pass (carry_pass f))"
    unfolding l(1) k(1) using k(2-5) by simp
  have "fe_val (carry_pass f) = fe_val (carry_pass (carry_pass f)) + d4 * p25519"
    unfolding l(1) k(1) using k(8-12) by (simp add: p25519_def)
  from mod_shift [OF this] first show "fe_val (carry_pass (carry_pass f)) mod p25519 = fe_val f mod p25519"
    by simp
qed

lemma carry_pass_id: "fe_below (2 ^ 51) f \<Longrightarrow> carry_pass f = f"
proof -
  assume b: "fe_below (2 ^ 51) f"
  have id: "drop_bit 51 h = 0" "h AND kMask51 = h" if "uint h < 2 ^ 51" for h :: u64
    using that uint_drop51 [of h] uint_mask51 [of h] by (simp_all add: word_uint_eq_iff)
  obtain h0 h1 h2 h3 h4 where "f = Fe h0 h1 h2 h3 h4" by (cases f)
  with b show ?thesis
    by (simp add: id)
qed

text \<open>The conditional subtraction.\<close>

lemma sub_limb_spec:
  assumes "uint h < 2 ^ 51" "uint p < 2 ^ 51" "uint b \<in> {0, 1}"
  obtains m b' where "sub_limb h p b = (m, b')" "uint m < 2 ^ 51" "uint b' \<in> {0, 1}"
    "uint h - uint p - uint b = uint m - 2 ^ 51 * uint b'"
proof -
  define k where "k = uint h - uint p - uint b"
  have k: "- (2 ^ 51) \<le> k" "k < 2 ^ 51"
  proof -
    have "uint b \<le> 1"
      using assms(3) by auto
    then show "- (2 ^ 51) \<le> k" "k < 2 ^ 51"
      using assms(1,2) uint_ge_0 [of h] uint_ge_0 [of p] uint_ge_0 [of b] unfolding k_def by linarith+
  qed
  have t: "h - p - b = word_of_int k"
    by (simp add: k_def)
  have s: "sint (h - p - b) = k"
    unfolding t using k by (simp add: signed_of_int signed_take_bit_int_eq_self)
  have m: "uint ((h - p - b) AND kMask51) = k mod 2 ^ 51"
    unfolding t mask51 unsigned_take_bit_eq by (simp add: take_bit_eq_mod uint_word_of_int mod_mod_cancel)
  have "k mod 2 ^ 51 = k + 2 ^ 51 * (if k < 0 then 1 else 0)"
  proof (cases "k < 0")
    case True
    then have "k mod 2 ^ 51 = (k + 2 ^ 51) mod 2 ^ 51" "(k + 2 ^ 51) mod 2 ^ 51 = k + 2 ^ 51"
      using k by (simp, intro mod_pos_pos_trivial) auto
    with True show ?thesis
      by simp
  next
    case False
    then show ?thesis
      using k by simp
  qed
  with m s show ?thesis
    by (intro that [of "(h - p - b) AND kMask51" "if k < 0 then 1 else 0"])
      (simp_all add: sub_limb_def Let_def k_def [symmetric])
qed

lemma select_limb: "(- 1 AND h) OR (NOT (- 1) AND m) = h" "(0 AND h) OR (NOT 0 AND m) = m" for h m :: u64
  by simp_all

lemma fe_val_range: "fe_below (2 ^ 51) g \<Longrightarrow> 0 \<le> fe_val g \<and> fe_val g < 2 ^ 255"
proof (cases g)
  fix g0 g1 g2 g3 g4
  assume "fe_below (2 ^ 51) g" "g = Fe g0 g1 g2 g3 g4"
  then show ?thesis
    using uint_ge_0 [of g0] uint_ge_0 [of g1] uint_ge_0 [of g2] uint_ge_0 [of g3] uint_ge_0 [of g4] by simp
qed

lemma reduce_once_spec:
  assumes "fe_below (2 ^ 51) f"
  shows "fe_below (2 ^ 51) (reduce_once f)" "fe_val (reduce_once f) = fe_val f mod p25519"
proof -
  obtain h0 h1 h2 h3 h4 where f: "f = Fe h0 h1 h2 h3 h4" by (cases f)
  have h: "uint h0 < 2 ^ 51" "uint h1 < 2 ^ 51" "uint h2 < 2 ^ 51" "uint h3 < 2 ^ 51" "uint h4 < 2 ^ 51"
    using assms by (simp_all add: f)
  have p: "uint (kMask51 - 18) = 2 ^ 51 - 19" "uint kMask51 = 2 ^ 51 - 1" "uint (kMask51 - 18) < 2 ^ 51" "uint kMask51 < 2 ^ 51"
    by (simp_all add: kMask51_def)
  have zero: "uint (0 :: u64) \<in> {0, 1}"
    by simp
  obtain m0 b0 where s0: "sub_limb h0 (kMask51 - 18) 0 = (m0, b0)" and m0: "uint m0 < 2 ^ 51" and b0: "uint b0 \<in> {0, 1}"
    and v0: "uint h0 - uint (kMask51 - 18) - uint (0 :: u64) = uint m0 - 2 ^ 51 * uint b0"
    by (rule sub_limb_spec [OF h(1) p(3) zero])
  obtain m1 b1 where s1: "sub_limb h1 kMask51 b0 = (m1, b1)" and m1: "uint m1 < 2 ^ 51" and b1: "uint b1 \<in> {0, 1}"
    and v1: "uint h1 - uint kMask51 - uint b0 = uint m1 - 2 ^ 51 * uint b1"
    by (rule sub_limb_spec [OF h(2) p(4) b0])
  obtain m2 b2 where s2: "sub_limb h2 kMask51 b1 = (m2, b2)" and m2: "uint m2 < 2 ^ 51" and b2: "uint b2 \<in> {0, 1}"
    and v2: "uint h2 - uint kMask51 - uint b1 = uint m2 - 2 ^ 51 * uint b2"
    by (rule sub_limb_spec [OF h(3) p(4) b1])
  obtain m3 b3 where s3: "sub_limb h3 kMask51 b2 = (m3, b3)" and m3: "uint m3 < 2 ^ 51" and b3: "uint b3 \<in> {0, 1}"
    and v3: "uint h3 - uint kMask51 - uint b2 = uint m3 - 2 ^ 51 * uint b3"
    by (rule sub_limb_spec [OF h(4) p(4) b2])
  obtain m4 b4 where s4: "sub_limb h4 kMask51 b3 = (m4, b4)" and m4: "uint m4 < 2 ^ 51" and b4: "uint b4 \<in> {0, 1}"
    and v4: "uint h4 - uint kMask51 - uint b3 = uint m4 - 2 ^ 51 * uint b4"
    by (rule sub_limb_spec [OF h(5) p(4) b3])
  define m where "m = Fe m0 m1 m2 m3 m4"
  have diff: "fe_val f - p25519 = fe_val m - 2 ^ 255 * uint b4"
    using v0 v1 v2 v3 v4 by (simp add: f m_def p p25519_def)
  have range: "0 \<le> fe_val g" "fe_val g < 2 ^ 255" if "fe_below (2 ^ 51) g" for g
    using fe_val_range [OF that] by simp_all
  have below: "fe_below (2 ^ 51) m"
    using m0 m1 m2 m3 m4 by (simp add: m_def)
  consider "b4 = 0" | "b4 = 1"
    using b4 by (auto simp: word_uint_eq_iff)
  then have "fe_below (2 ^ 51) (reduce_once f) \<and> fe_val (reduce_once f) = fe_val f mod p25519"
  proof (cases)
    case 1
    then have out: "reduce_once f = m"
      by (simp add: f s0 s1 s2 s3 s4 m_def)
    have val: "fe_val f = fe_val m + 1 * p25519"
      using diff 1 by simp
    then have "fe_val m < p25519"
      using range(2) [OF assms] by (simp add: p25519_def)
    then have "fe_val m mod p25519 = fe_val m"
      using range(1) [OF below] by (rule mod_pos_pos_trivial [rotated])
    with mod_shift [OF val] below show ?thesis
      unfolding out by simp
  next
    case 2
    then have out: "reduce_once f = f"
      by (simp add: f s0 s1 s2 s3 s4 m_def)
    have "fe_val f < p25519"
      using diff 2 range(2) [OF below] by simp
    then have "fe_val f mod p25519 = fe_val f"
      using range(1) [OF assms] by (rule mod_pos_pos_trivial [rotated])
    with assms show ?thesis
      unfolding out by simp
  qed
  then show "fe_below (2 ^ 51) (reduce_once f)" "fe_val (reduce_once f) = fe_val f mod p25519"
    by simp_all
qed

text \<open>Packing: runs of whole bytes of a limb, and bytes shared by two limbs.\<close>

lemma le_val_append: "le_val (xs @ ys) = le_val xs + 256 ^ length xs * le_val ys"
  by (induction xs) (simp_all add: algebra_simps)

definition limb_bytes :: "u64 \<Rightarrow> nat \<Rightarrow> nat \<Rightarrow> bytes" where
  "limb_bytes l k m = map (\<lambda>j. ucast (drop_bit (k + 8 * j) l)) [0..<m]"

lemma limb_bytes_val: "le_val (limb_bytes l k m) = take_bit (8 * m) (drop_bit k (uint l))"
proof (rule bit_eqI)
  fix n :: nat
  have "8 * (n div 8) + n mod 8 = n"
    by simp
  then have "n mod 8 + (k + 8 * (n div 8)) = k + n"
    by linarith
  then show "bit (le_val (limb_bytes l k m)) n = bit (take_bit (8 * m) (drop_bit k (uint l))) n"
    by (auto simp: bit_le_val limb_bytes_def bit_simps div_less_iff_less_mult mult.commute add.commute)
qed

lemma bit_limb: "uint l < 2 ^ 51 \<Longrightarrow> bit l n \<Longrightarrow> n < 51" for l :: u64
proof -
  assume "uint l < 2 ^ 51" and b: "bit l n"
  then have "take_bit 51 (uint l) = uint l"
    by (simp add: take_bit_int_eq_self)
  moreover have "bit (uint l) n"
    using b bit_imp_le_length [OF b] by (simp add: bit_uint_iff)
  ultimately show ?thesis
    by (metis bit_take_bit_iff)
qed

lemma shared_byte_val:
  fixes l l' :: u64
  assumes "uint l < 2 ^ 51" "a + b = 51" "b < 8"
  shows "uint (ucast (drop_bit a l OR push_bit b l') :: u8) = drop_bit a (uint l) + 2 ^ b * take_bit (8 - b) (uint l')"
proof -
  have "uint (ucast (drop_bit a l OR push_bit b l') :: u8) = drop_bit a (uint l) OR push_bit b (take_bit (8 - b) (uint l'))"
  proof (rule bit_eqI)
    fix n
    have "a + n < 51" if "bit l (a + n)"
      using assms(1) that by (rule bit_limb)
    then show "bit (uint (ucast (drop_bit a l OR push_bit b l') :: u8)) n =
        bit (drop_bit a (uint l) OR push_bit b (take_bit (8 - b) (uint l'))) n"
      using assms(2,3) by (auto simp: bit_simps)
  qed
  also have "\<dots> = drop_bit a (uint l) + push_bit b (take_bit (8 - b) (uint l'))"
  proof (rule disjunctive_add [symmetric])
    fix n
    have "a + n < 51" if "bit l (a + n)"
      using assms(1) that by (rule bit_limb)
    then show "\<not> bit (drop_bit a (uint l)) n \<or> \<not> bit (push_bit b (take_bit (8 - b) (uint l'))) n"
      using assms(2) by (auto simp: bit_simps)
  qed
  finally show ?thesis
    by (simp add: push_bit_eq_mult mult.commute)
qed

lemma pack_limbs_eq:
  "pack_limbs (Fe o0 o1 o2 o3 o4) =
    limb_bytes o0 0 6 @ [ucast (drop_bit 48 o0 OR push_bit 3 o1)] @ limb_bytes o1 5 5 @ [ucast (drop_bit 45 o1 OR push_bit 6 o2)] @
    limb_bytes o2 2 6 @ [ucast (drop_bit 50 o2 OR push_bit 1 o3)] @ limb_bytes o3 7 5 @ [ucast (drop_bit 47 o3 OR push_bit 4 o4)] @
    limb_bytes o4 4 6"
  by (simp add: limb_bytes_def upt_rec numeral_2_eq_2)

lemma split_bits: "v = take_bit n v + 2 ^ n * drop_bit n v" for v :: int
  by (simp add: take_bit_eq_mod drop_bit_eq_div)

lemma pack_limbs_val:
  assumes "fe_below (2 ^ 51) f"
  shows "le_val (pack_limbs f) = fe_val f" "length (pack_limbs f) = 32"
proof -
  obtain o0 o1 o2 o3 o4 where f: "f = Fe o0 o1 o2 o3 o4" by (cases f)
  have b: "uint o0 < 2 ^ 51" "uint o1 < 2 ^ 51" "uint o2 < 2 ^ 51" "uint o3 < 2 ^ 51" "uint o4 < 2 ^ 51"
    using assms by (simp_all add: f)
  note sh = shared_byte_val [OF b(1), of 48 3 o1] shared_byte_val [OF b(2), of 45 6 o2]
    shared_byte_val [OF b(3), of 50 1 o3] shared_byte_val [OF b(4), of 47 4 o4]
  have top: "take_bit 48 (drop_bit 4 (uint o4)) = drop_bit 4 (uint o4)"
    using b(5) by (simp add: take_bit_int_eq_self_iff drop_bit_eq_div pos_imp_zdiv_nonneg_iff)
  have dd: "drop_bit 40 (drop_bit 5 v) = drop_bit 45 v" "drop_bit 48 (drop_bit 2 v) = drop_bit 50 v"
    "drop_bit 40 (drop_bit 7 v) = drop_bit 47 v" for v :: int
    by (simp_all add: drop_bit_drop_bit)
  have "fe_val f = take_bit 48 (uint o0) + 2 ^ 48 * (drop_bit 48 (uint o0) + 2 ^ 3 * take_bit 5 (uint o1)) +
      2 ^ 56 * take_bit 40 (drop_bit 5 (uint o1)) + 2 ^ 96 * (drop_bit 45 (uint o1) + 2 ^ 6 * take_bit 2 (uint o2)) +
      2 ^ 104 * take_bit 48 (drop_bit 2 (uint o2)) + 2 ^ 152 * (drop_bit 50 (uint o2) + 2 ^ 1 * take_bit 7 (uint o3)) +
      2 ^ 160 * take_bit 40 (drop_bit 7 (uint o3)) + 2 ^ 200 * (drop_bit 47 (uint o3) + 2 ^ 4 * take_bit 4 (uint o4)) +
      2 ^ 208 * drop_bit 4 (uint o4)"
    using split_bits [of "uint o0" 48] split_bits [of "uint o1" 5] split_bits [of "drop_bit 5 (uint o1)" 40]
      split_bits [of "uint o2" 2] split_bits [of "drop_bit 2 (uint o2)" 48]
      split_bits [of "uint o3" 7] split_bits [of "drop_bit 7 (uint o3)" 40] split_bits [of "uint o4" 4]
    unfolding dd by (simp add: f)
  then show "le_val (pack_limbs f) = fe_val f"
    unfolding f pack_limbs_eq le_val_append using sh top by (simp add: limb_bytes_val) (simp add: limb_bytes_def)
  show "length (pack_limbs f) = 32"
    by (simp add: f)
qed

lemma fe_tobytes_spec:
  assumes "reduced f x"
  shows "le_val (fe_tobytes f) = x mod p25519" "length (fe_tobytes f) = 32"
proof -
  note c = carry_pass_reduced [OF reduced_below [OF assms]]
  have t: "fe_tobytes f = pack_limbs (reduce_once (carry_pass (carry_pass f)))"
    by (simp add: fe_tobytes_def carry_pass_id [OF c(1)])
  note r = reduce_once_spec [OF c(1)]
  show "length (fe_tobytes f) = 32" "le_val (fe_tobytes f) = x mod p25519"
    unfolding t pack_limbs_val [OF r(1)] using r(2) c(2) reduced_val [OF assms] by simp_all
qed

end
