(* ===== verification/X25519.thy ===== *)
theory X25519
  imports Field25519
begin

text \<open>
  X25519, \<open>crypto.cpp\<close>: scalar multiplication on Curve25519 by the Montgomery ladder with
  conditional swaps. It is shown to compute the branching ladder over the integers modulo
  \<open>2 ^ 255 - 19\<close> with the curve's doubling and differential addition formulas.
\<close>

section \<open>The code\<close>

definition clamp :: "bytes \<Rightarrow> bytes" where
  "clamp private_key =
    (let e = private_key; e = e[0 := e ! 0 AND 248]; e = e[31 := e ! 31 AND 127]; e = e[31 := e ! 31 OR 64] in e)"

definition scalar_bit :: "bytes \<Rightarrow> nat \<Rightarrow> u64" where
  "scalar_bit e t = ucast (drop_bit (t mod 8) (e ! (t div 8)) AND 1)"

type_synonym ladder_state = "fe \<times> fe \<times> fe \<times> fe \<times> u64"

definition ladder_step :: "fe \<Rightarrow> bytes \<Rightarrow> ladder_state \<Rightarrow> nat \<Rightarrow> ladder_state" where
  "ladder_step x1 e st t =
    (case st of (x2, z2, x3, z3, swap) \<Rightarrow>
     let kt = scalar_bit e t;
         swap = swap XOR kt;
         (x2, x3) = fe_cswap x2 x3 swap;
         (z2, z3) = fe_cswap z2 z3 swap;
         swap = kt;
         a = fe_add x2 z2; aa = fe_sq a; b = fe_sub x2 z2; bb = fe_sq b; e2 = fe_sub aa bb;
         c = fe_add x3 z3; d = fe_sub x3 z3; da = fe_mul d a; cb = fe_mul c b;
         da_cb = fe_add da cb; da_cb2 = fe_sub da cb;
         x3 = fe_sq da_cb; z3 = fe_mul x1 (fe_sq da_cb2); x2 = fe_mul aa bb;
         z2 = fe_mul e2 (fe_add aa (fe_mul_scalar e2 121665))
     in (x2, z2, x3, z3, swap))"

text \<open>Result: the shared secret and whether it is not all zeros.\<close>

definition x25519 :: "bytes \<Rightarrow> bytes \<Rightarrow> bytes \<times> bool" where
  "x25519 private_key peer_public_key =
    (let e = clamp private_key;
         x1 = fe_frombytes peer_public_key;
         (x2, z2, x3, z3, swap) =
           foldl (ladder_step x1 e) (Fe 1 0 0 0 0, Fe 0 0 0 0 0, x1, Fe 1 0 0 0 0, 0) (rev [0..<255]);
         (x2, x3) = fe_cswap x2 x3 swap;
         (z2, z3) = fe_cswap z2 z3 swap;
         result = fe_mul x2 (fe_inv z2);
         out = fe_tobytes result;
         acc = foldl (OR) 0 out
     in (out, acc \<noteq> 0))"

text \<open>\<open>x25519_generate\<close>: the random bytes are an argument; the base point is 9.\<close>

definition x25519_generate :: "bytes \<Rightarrow> bytes \<times> bytes" where
  "x25519_generate rd = (rd, fst (x25519 rd ((replicate 32 0)[0 := 9])))"

section \<open>The ladder over the integers\<close>

text \<open>
  Projective coordinates (X, Z) of Curve25519, \<open>y\<^sup>2 = x\<^sup>3 + 486662 x\<^sup>2 + x\<close>: doubling, and the sum of two
  points whose difference has the coordinate u.
\<close>

definition double :: "int \<times> int \<Rightarrow> int \<times> int" where
  "double r = (case r of (X, Z) \<Rightarrow> ((X\<^sup>2 - Z\<^sup>2)\<^sup>2, 4 * X * Z * (X\<^sup>2 + 486662 * X * Z + Z\<^sup>2)))"

definition diff_add :: "int \<Rightarrow> int \<times> int \<Rightarrow> int \<times> int \<Rightarrow> int \<times> int" where
  "diff_add u r s = (case r of (X2, Z2) \<Rightarrow> case s of (X3, Z3) \<Rightarrow>
     (4 * (X2 * X3 - Z2 * Z3)\<^sup>2, 4 * u * (X2 * Z3 - Z2 * X3)\<^sup>2))"

lemma diff_add_commute: "diff_add u r s = diff_add u s r"
  by (cases r; cases s) (simp add: diff_add_def power2_eq_square algebra_simps)

primrec ladder :: "int \<Rightarrow> bool list \<Rightarrow> (int \<times> int) \<times> (int \<times> int) \<Rightarrow> (int \<times> int) \<times> (int \<times> int)" where
  "ladder u [] rs = rs"
| "ladder u (b # bs) rs = (case rs of (r0, r1) \<Rightarrow>
     ladder u bs (if b then (diff_add u r0 r1, double r1) else (double r0, diff_add u r0 r1)))"

text \<open>The scalar a private key denotes: its low three bits are cleared, bit 254 is the highest and set.\<close>

definition scalar_of :: "bytes \<Rightarrow> int" where
  "scalar_of key = 2 ^ 254 + 8 * (le_val key mod 2 ^ 254 div 8)"

definition shared_secret :: "bytes \<Rightarrow> bytes \<Rightarrow> int" where
  "shared_secret key peer =
    (let u = le_val peer mod 2 ^ 255;
         (X, Z) = fst (ladder u (map (bit (scalar_of key)) (rev [0..<255])) ((1, 0), (u, 1)))
     in X * Z ^ (2 ^ 255 - 21) mod p25519)"

section \<open>The code runs the ladder\<close>

definition point :: "fe \<Rightarrow> fe \<Rightarrow> int \<times> int \<Rightarrow> bool" where
  "point x z r \<longleftrightarrow> reduced x (fst r) \<and> reduced z (snd r)"

definition ladder_rel :: "ladder_state \<Rightarrow> (int \<times> int) \<times> (int \<times> int) \<Rightarrow> bool" where
  "ladder_rel st rs \<longleftrightarrow> (case st of (x2, z2, x3, z3, swap) \<Rightarrow> case rs of (r0, r1) \<Rightarrow>
     swap = 0 \<and> point x2 z2 r0 \<and> point x3 z3 r1 \<or> swap = 1 \<and> point x2 z2 r1 \<and> point x3 z3 r0)"

lemma double_spec:
  assumes "point x2 z2 r" "aa = fe_sq (fe_add x2 z2)" "bb = fe_sq (fe_sub x2 z2)" "e2 = fe_sub aa bb"
  shows "point (fe_mul aa bb) (fe_mul e2 (fe_add aa (fe_mul_scalar e2 121665))) (double r)"
proof -
  obtain X Z where r: "r = (X, Z)" by (cases r)
  have x: "reduced x2 X" "reduced z2 Z"
    using assms(1) by (simp_all add: point_def r)
  have aa: "reduced aa ((X + Z) * (X + Z))" and bb: "reduced bb ((X - Z) * (X - Z))"
    unfolding assms(2,3) by (intro fe_sq_spec fe_add_spec fe_sub_spec x)+
  have e2: "loose e2 ((X + Z) * (X + Z) - (X - Z) * (X - Z))"
    unfolding assms(4) by (intro fe_sub_spec aa bb)
  have "reduced (fe_mul aa bb) ((X + Z) * (X + Z) * ((X - Z) * (X - Z)))"
    by (intro reduced_mul aa bb)
  moreover have "reduced (fe_mul_scalar e2 121665) (((X + Z) * (X + Z) - (X - Z) * (X - Z)) * 121665)"
    using fe_mul_scalar_spec [OF e2, of 121665] by simp
  then have "reduced (fe_mul e2 (fe_add aa (fe_mul_scalar e2 121665)))
      (((X + Z) * (X + Z) - (X - Z) * (X - Z)) * ((X + Z) * (X + Z) + ((X + Z) * (X + Z) - (X - Z) * (X - Z)) * 121665))"
    by (intro fe_mul_spec e2 fe_add_spec aa)
  moreover have "(X + Z) * (X + Z) * ((X - Z) * (X - Z)) = (X\<^sup>2 - Z\<^sup>2)\<^sup>2"
    "((X + Z) * (X + Z) - (X - Z) * (X - Z)) * ((X + Z) * (X + Z) + ((X + Z) * (X + Z) - (X - Z) * (X - Z)) * 121665) =
     4 * X * Z * (X\<^sup>2 + 486662 * X * Z + Z\<^sup>2)"
    by (simp_all add: power2_eq_square algebra_simps)
  ultimately show ?thesis
    by (simp add: point_def double_def r)
qed

lemma diff_add_spec:
  assumes "point x2 z2 r" "point x3 z3 s" "reduced x1 u"
    and "da = fe_mul (fe_sub x3 z3) (fe_add x2 z2)" "cb = fe_mul (fe_add x3 z3) (fe_sub x2 z2)"
  shows "point (fe_sq (fe_add da cb)) (fe_mul x1 (fe_sq (fe_sub da cb))) (diff_add u r s)"
proof -
  obtain X2 Z2 X3 Z3 where rs: "r = (X2, Z2)" "s = (X3, Z3)" by (cases r; cases s)
  have x: "reduced x2 X2" "reduced z2 Z2" "reduced x3 X3" "reduced z3 Z3"
    using assms(1,2) by (simp_all add: point_def rs)
  have da: "reduced da ((X3 - Z3) * (X2 + Z2))" and cb: "reduced cb ((X3 + Z3) * (X2 - Z2))"
    unfolding assms(4,5) by (intro fe_mul_spec fe_add_spec fe_sub_spec x)+
  have "reduced (fe_sq (fe_add da cb)) (((X3 - Z3) * (X2 + Z2) + (X3 + Z3) * (X2 - Z2)) * ((X3 - Z3) * (X2 + Z2) + (X3 + Z3) * (X2 - Z2)))"
    by (intro fe_sq_spec fe_add_spec da cb)
  moreover have "reduced (fe_mul x1 (fe_sq (fe_sub da cb)))
      (u * (((X3 - Z3) * (X2 + Z2) - (X3 + Z3) * (X2 - Z2)) * ((X3 - Z3) * (X2 + Z2) - (X3 + Z3) * (X2 - Z2))))"
    by (intro reduced_mul fe_sq_spec fe_sub_spec da cb assms(3))
  moreover have "((X3 - Z3) * (X2 + Z2) + (X3 + Z3) * (X2 - Z2)) * ((X3 - Z3) * (X2 + Z2) + (X3 + Z3) * (X2 - Z2)) =
      4 * (X2 * X3 - Z2 * Z3)\<^sup>2"
    "u * (((X3 - Z3) * (X2 + Z2) - (X3 + Z3) * (X2 - Z2)) * ((X3 - Z3) * (X2 + Z2) - (X3 + Z3) * (X2 - Z2))) =
      4 * u * (X2 * Z3 - Z2 * X3)\<^sup>2"
    by (simp_all add: power2_eq_square algebra_simps)
  ultimately show ?thesis
    by (simp add: point_def diff_add_def rs)
qed

lemma scalar_bit_cases: "scalar_bit e t = (if bit (e ! (t div 8)) (t mod 8) then 1 else 0)"
  by (simp add: scalar_bit_def bit_iff_odd_drop_bit and_one_eq odd_iff_mod_2_eq_one)

text \<open>One turn of the loop is one step of the ladder.\<close>

lemma ladder_step_spec:
  assumes "ladder_rel st (r0, r1)" "reduced x1 u"
  shows "ladder_rel (ladder_step x1 e st t)
    (if bit (e ! (t div 8)) (t mod 8) then (diff_add u r0 r1, double r1) else (double r0, diff_add u r0 r1))"
proof -
  obtain x2 z2 x3 z3 swap where st: "st = (x2, z2, x3, z3, swap)" by (rule prod_cases5)
  define kt where "kt = scalar_bit e t"
  obtain a2 a3 where cx: "fe_cswap x2 x3 (swap XOR kt) = (a2, a3)" by fastforce
  obtain b2 b3 where cz: "fe_cswap z2 z3 (swap XOR kt) = (b2, b3)" by fastforce
  define r where "r = (if kt = 0 then r0 else r1)"
  define s where "s = (if kt = 0 then r1 else r0)"
  have kt: "kt = 0 \<or> kt = 1"
    by (simp add: kt_def scalar_bit_cases)
  then have "point a2 b2 r" "point a3 b3 s"
    using assms(1) cx cz by (auto simp: ladder_rel_def st fe_cswap_spec r_def s_def)
  note new = double_spec [OF this(1) refl refl refl] diff_add_spec [OF this assms(2) refl refl]
  have step: "ladder_step x1 e st t =
    (fe_mul (fe_sq (fe_add a2 b2)) (fe_sq (fe_sub a2 b2)),
     fe_mul (fe_sub (fe_sq (fe_add a2 b2)) (fe_sq (fe_sub a2 b2)))
       (fe_add (fe_sq (fe_add a2 b2)) (fe_mul_scalar (fe_sub (fe_sq (fe_add a2 b2)) (fe_sq (fe_sub a2 b2))) 121665)),
     fe_sq (fe_add (fe_mul (fe_sub a3 b3) (fe_add a2 b2)) (fe_mul (fe_add a3 b3) (fe_sub a2 b2))),
     fe_mul x1 (fe_sq (fe_sub (fe_mul (fe_sub a3 b3) (fe_add a2 b2)) (fe_mul (fe_add a3 b3) (fe_sub a2 b2)))), kt)"
    unfolding ladder_step_def st prod.case Let_def kt_def [symmetric] cx cz ..
  have "kt = 1 \<longleftrightarrow> bit (e ! (t div 8)) (t mod 8)" "kt = 0 \<longleftrightarrow> \<not> bit (e ! (t div 8)) (t mod 8)"
    by (simp_all add: kt_def scalar_bit_cases)
  then show ?thesis
    using new unfolding step ladder_rel_def prod.case
    by (cases "kt = 0") (simp_all add: r_def s_def diff_add_commute [of u r1 r0])
qed

lemma ladder_fold:
  assumes "ladder_rel st rs" "reduced x1 u"
  shows "ladder_rel (foldl (ladder_step x1 e) st ts) (ladder u (map (\<lambda>t. bit (e ! (t div 8)) (t mod 8)) ts) rs)"
  using assms(1)
proof (induction ts arbitrary: st rs)
  case (Cons t ts)
  obtain r0 r1 where rs: "rs = (r0, r1)" by (cases rs)
  show ?case
    using Cons.IH [OF ladder_step_spec [OF Cons.prems [unfolded rs] assms(2), of e t]] by (simp add: rs)
qed simp

text \<open>Clamping sets and clears the bits of the scalar.\<close>

lemma bit_248: "bit (248 :: u8) m \<longleftrightarrow> 3 \<le> m \<and> m < 8" and bit_127: "bit (127 :: u8) m \<longleftrightarrow> m < 7"
  and bit_64: "bit (64 :: u8) m \<longleftrightarrow> m = 6"
proof -
  have "(248 :: u8) = push_bit 3 (mask 5)" "(127 :: u8) = mask 7" "(64 :: u8) = push_bit 6 (mask 1)"
    by (simp_all add: mask_eq_exp_minus_1)
  then show "bit (248 :: u8) m \<longleftrightarrow> 3 \<le> m \<and> m < 8" "bit (127 :: u8) m \<longleftrightarrow> m < 7" "bit (64 :: u8) m \<longleftrightarrow> m = 6"
    by (simp_all only: bit_push_bit_iff bit_mask_iff) auto
qed

lemma bit_exp: "bit (push_bit k 1 :: int) n \<longleftrightarrow> n = k"
  by (auto simp: bit_simps)

lemma bit_scalar: "bit (scalar_of key) t \<longleftrightarrow> t = 254 \<or> 3 \<le> t \<and> t < 254 \<and> bit (le_val key) t"
proof -
  have "scalar_of key = push_bit 254 1 + push_bit 3 (drop_bit 3 (take_bit 254 (le_val key)))"
    by (simp add: scalar_of_def push_bit_eq_mult drop_bit_eq_div take_bit_eq_mod mult.commute)
  also have "\<dots> = push_bit 254 1 OR push_bit 3 (drop_bit 3 (take_bit 254 (le_val key)))"
    by (rule disjunctive_add) (simp only: bit_exp, auto simp: bit_simps)
  finally show ?thesis
    by (simp only: bit_or_iff bit_exp) (auto simp: bit_simps)
qed

lemma clamp_bit:
  assumes "length key = 32" "t < 255"
  shows "bit (clamp key ! (t div 8)) (t mod 8) = bit (scalar_of key) t"
proof -
  have t: "t div 8 < 32"
    using assms(2) by (simp add: div_less_iff_less_mult)
  have b: "bit (le_val key) t = bit (key ! (t div 8)) (t mod 8)"
    using t assms(1) by (simp add: bit_le_val)
  have dm: "8 * (t div 8) + t mod 8 = t" "t mod 8 < 8"
    by simp_all
  consider "t div 8 = 0" | "t div 8 = 31" | "0 < t div 8" "t div 8 < 31"
    using t by linarith
  then show ?thesis
  proof (cases)
    case 1
    then have "t mod 8 = t" "t < 8"
      using dm by simp_all
    then show ?thesis
      using assms(1) b 1 bit_248 [of t] by (simp add: clamp_def Let_def bit_and_iff bit_scalar)
        (auto simp: bit_scalar)
  next
    case 2
    then have "t = 248 + t mod 8"
      using dm(1) by simp
    then have "t = 254 \<longleftrightarrow> t mod 8 = 6" "t < 254 \<longleftrightarrow> t mod 8 < 6" "3 \<le> t" "t mod 8 < 7"
      using assms(2) by linarith+
    then show ?thesis
      using assms(1) b 2 bit_127 [of "t mod 8"] bit_64 [of "t mod 8"]
      by (simp add: clamp_def Let_def bit_and_iff bit_or_iff) (auto simp: bit_scalar)
  next
    case 3
    then have "3 \<le> t" "t < 254"
      using dm by linarith+
    then show ?thesis
      using assms(1) b 3 by (simp add: clamp_def Let_def bit_scalar)
  qed
qed

lemma all_zero: "foldl (OR) a out = 0 \<longleftrightarrow> a = 0 \<and> le_val out = 0" for a :: u8
proof (induction out arbitrary: a)
  case (Cons b out)
  have "0 \<le> le_val out"
    by (induction out) simp_all
  then have "uint b + 256 * le_val out = 0 \<longleftrightarrow> b = 0 \<and> le_val out = 0"
    using uint_ge_0 [of b] by (auto simp: word_uint_eq_iff add_nonneg_eq_0_iff)
  moreover have "a OR b = 0 \<longleftrightarrow> a = 0 \<and> b = 0"
    by (auto simp: bit_eq_iff bit_or_iff)
  ultimately show ?case
    using Cons by simp
qed simp

lemma x25519_computes_ladder':
  assumes "length key = 32" "length peer = 32" "x25519 key peer = (out, ok)"
  shows "le_val out = shared_secret key peer \<and> length out = 32 \<and> (ok \<longleftrightarrow> shared_secret key peer \<noteq> 0)"
proof -
  define e where "e = clamp key"
  define x1 where "x1 = fe_frombytes peer"
  define u where "u = le_val peer mod 2 ^ 255"
  have x1: "reduced x1 u"
    unfolding x1_def u_def using assms(2) by (rule fe_frombytes_spec)
  have "ladder_rel (Fe 1 0 0 0 0, Fe 0 0 0 0 0, x1, Fe 1 0 0 0 0, 0) ((1, 0), (u, 1))"
    using x1 by (simp add: ladder_rel_def point_def reduced_def)
  note run = ladder_fold [OF this x1, of e "rev [0..<255]"]
  have "map (\<lambda>t. bit (e ! (t div 8)) (t mod 8)) (rev [0..<255]) = map (bit (scalar_of key)) (rev [0..<255])"
    using assms(1) by (intro map_cong) (simp_all add: e_def clamp_bit)
  note run = run [unfolded this]
  obtain x2 z2 x3 z3 swap where st: "foldl (ladder_step x1 e) (Fe 1 0 0 0 0, Fe 0 0 0 0 0, x1, Fe 1 0 0 0 0, 0) (rev [0..<255]) =
      (x2, z2, x3, z3, swap)" by (rule prod_cases5)
  obtain X Z r1 where rs: "ladder u (map (bit (scalar_of key)) (rev [0..<255])) ((1, 0), (u, 1)) = ((X, Z), r1)"
    by (metis surj_pair)
  obtain a2 a3 where cx: "fe_cswap x2 x3 swap = (a2, a3)" by fastforce
  obtain b2 b3 where cz: "fe_cswap z2 z3 swap = (b2, b3)" by fastforce
  have "reduced a2 X" "reduced b2 Z"
    using run cx cz unfolding st rs by (auto simp: ladder_rel_def fe_cswap_spec point_def)
  then have "reduced (fe_mul a2 (fe_inv b2)) (X * Z ^ (2 ^ 255 - 21))"
    by (intro reduced_mul fe_inv_spec reduced_loose)
  note out = fe_tobytes_spec [OF this]
  have secret: "shared_secret key peer = X * Z ^ (2 ^ 255 - 21) mod p25519"
    unfolding shared_secret_def Let_def u_def [symmetric] rs by simp
  have "x25519 key peer = (fe_tobytes (fe_mul a2 (fe_inv b2)), foldl (OR) 0 (fe_tobytes (fe_mul a2 (fe_inv b2))) \<noteq> 0)"
    unfolding x25519_def Let_def e_def [symmetric] x1_def [symmetric] st prod.case cx cz ..
  with assms(3) out show ?thesis
    unfolding secret by (auto simp: all_zero)
qed

text \<open>
  C25: X25519 is scalar multiplication on Curve25519. For every private key and every public key of
  32 bytes, the constant-time ladder over 51-bit limbs computes, without an overflow, the
  branching Montgomery ladder over the integers modulo 2^255 - 19, with the curve's doubling and
  differential addition, divides by Fermat's exponent, and writes the least residue in
  little-endian order; it reports failure exactly when that residue is zero.
\<close>

theorem x25519_computes_ladder:
  assumes "length key = 32" "length peer = 32" "x25519 key peer = (out, ok)"
  shows "le_val out = shared_secret key peer \<and> length out = 32 \<and> (ok \<longleftrightarrow> shared_secret key peer \<noteq> 0)"
  by (rule x25519_computes_ladder' [OF assms])

lemma x25519_computes_ladder_witness:
  "le_val (fst (x25519 (replicate 32 1) (replicate 32 9))) = shared_secret (replicate 32 1) (replicate 32 9)"
  using x25519_computes_ladder [of "replicate 32 1" "replicate 32 9"] by (cases "x25519 (replicate 32 1) (replicate 32 9)") simp

lemma ladder_at_infinity:
  "snd (fst rs) = 0 \<Longrightarrow> snd (snd rs) = 0 \<Longrightarrow> snd (fst (ladder 0 bs rs)) = 0"
proof (induction bs arbitrary: rs)
  case (Cons b bs)
  obtain X Y where rs: "rs = ((X, 0), (Y, 0))"
    using Cons.prems by (metis prod.collapse)
  show ?case
    unfolding rs by (simp, intro conjI impI Cons.IH) (simp_all add: double_def diff_add_def)
qed simp

lemma ladder_zero: "snd (fst (ladder 0 (b # bs) ((1, 0), (0, 1)))) = 0"
  by (simp, intro conjI impI ladder_at_infinity) (simp_all add: double_def diff_add_def)

text \<open>
  Degenerate public keys are refused. A peer that sends the point with coordinate zero (all
  zero bytes, or only the ignored top bit set) gets a failure for every private key; and of a
  private key only bits 3 to 253 matter.
\<close>

theorem x25519_rejects_zero_point:
  assumes "length key = 32" "length peer = 32" "le_val peer mod 2 ^ 255 = 0"
    and "length key' = 32" "le_val key mod 2 ^ 254 div 8 = le_val key' mod 2 ^ 254 div 8"
  shows "\<not> snd (x25519 key peer) \<and> x25519 key' other = x25519 key other"
proof -
  obtain out ok where x: "x25519 key peer = (out, ok)" by fastforce
  have "rev [0..<255] = (254 :: nat) # rev [0..<254]"
    using upt_Suc_append [of 0 254] by simp
  then have "shared_secret key peer = 0"
    unfolding shared_secret_def Let_def assms(3)
    using ladder_zero [of "bit (scalar_of key) 254" "map (bit (scalar_of key)) (rev [0..<254])"]
    by (simp add: case_prod_beta)
  then have "\<not> ok"
    using x25519_computes_ladder' [OF assms(1,2) x] by simp
  have "scalar_bit (clamp key) t = scalar_bit (clamp key') t" if "t < 255" for t
    using clamp_bit [OF assms(1) that] clamp_bit [OF assms(4) that]
    by (simp only: scalar_bit_cases scalar_of_def assms(5))
  then have "foldl (ladder_step x1 (clamp key)) st (rev [0..<255]) = foldl (ladder_step x1 (clamp key')) st (rev [0..<255])" for x1 st
    by (intro foldl_cong) (simp_all add: ladder_step_def)
  then have "x25519 key' other = x25519 key other"
    by (simp only: x25519_def Let_def)
  with \<open>\<not> ok\<close> x show ?thesis
    by simp
qed

lemma x25519_rejects_zero_point_witness:
  "\<not> snd (x25519 (replicate 32 0) (replicate 32 0)) \<and> x25519 (7 # replicate 31 0) [5] = x25519 (replicate 32 0) [5]"
proof -
  have "le_val (replicate n 0) = 0" for n
    by (induction n) simp_all
  then show ?thesis
    using x25519_rejects_zero_point [of "replicate 32 0" "replicate 32 0" "7 # replicate 31 0" "[5]"] by simp
qed

end
