(* ===== verification/Sha256.thy ===== *)
theory Sha256
  imports Tight_Prelude
begin

text \<open>
  SHA-256, HMAC and HKDF of \<open>crypto.cpp\<close>. A \<open>Sha256Ctx\<close> is a record; of its buffer only the
  first \<open>buf_len\<close> bytes are kept, which are the only ones ever read before being written, so
  that \<open>buf_len\<close> is the length of the buffer. The streaming interface is shown equal to hashing
  the padded message block by block, whatever the pieces it is fed in.
\<close>

section \<open>Compression\<close>

text \<open>Row by row as the source has it.\<close>

definition kSha256K :: "u32 list" where
  "kSha256K = concat [
    [0x428a2f98, 0x71374491, 0xb5c0fbcf, 0xe9b5dba5, 0x3956c25b, 0x59f111f1],
    [0x923f82a4, 0xab1c5ed5, 0xd807aa98, 0x12835b01, 0x243185be, 0x550c7dc3],
    [0x72be5d74, 0x80deb1fe, 0x9bdc06a7, 0xc19bf174, 0xe49b69c1, 0xefbe4786],
    [0x0fc19dc6, 0x240ca1cc, 0x2de92c6f, 0x4a7484aa, 0x5cb0a9dc, 0x76f988da],
    [0x983e5152, 0xa831c66d, 0xb00327c8, 0xbf597fc7, 0xc6e00bf3, 0xd5a79147],
    [0x06ca6351, 0x14292967, 0x27b70a85, 0x2e1b2138, 0x4d2c6dfc, 0x53380d13],
    [0x650a7354, 0x766a0abb, 0x81c2c92e, 0x92722c85, 0xa2bfe8a1, 0xa81a664b],
    [0xc24b8b70, 0xc76c51a3, 0xd192e819, 0xd6990624, 0xf40e3585, 0x106aa070],
    [0x19a4c116, 0x1e376c08, 0x2748774c, 0x34b0bcb5, 0x391c0cb3, 0x4ed8aa4a],
    [0x5b9cca4f, 0x682e6ff3, 0x748f82ee, 0x78a5636f, 0x84c87814, 0x8cc70208],
    [0x90befffa, 0xa4506ceb, 0xbef9a3f7, 0xc67178f2]]"

definition rotr32 :: "u32 \<Rightarrow> nat \<Rightarrow> u32" where
  "rotr32 x n = drop_bit n x OR push_bit (32 - n) x"

definition be32_at :: "bytes \<Rightarrow> nat \<Rightarrow> u32" where
  "be32_at b i = push_bit 24 (ucast (b ! i)) OR push_bit 16 (ucast (b ! (i + 1))) OR
     push_bit 8 (ucast (b ! (i + 2))) OR ucast (b ! (i + 3))"

definition schedule_word :: "u32 list \<Rightarrow> nat \<Rightarrow> u32 list" where
  "schedule_word w i =
    (let s0 = rotr32 (w ! (i - 15)) 7 XOR rotr32 (w ! (i - 15)) 18 XOR drop_bit 3 (w ! (i - 15));
         s1 = rotr32 (w ! (i - 2)) 17 XOR rotr32 (w ! (i - 2)) 19 XOR drop_bit 10 (w ! (i - 2))
     in w @ [w ! (i - 16) + s0 + w ! (i - 7) + s1])"

definition schedule :: "bytes \<Rightarrow> u32 list" where
  "schedule block = foldl schedule_word (map (\<lambda>i. be32_at block (i * 4)) [0..<16]) [16..<64]"

text \<open>One round, on the registers a to h.\<close>

fun sha_round :: "u32 list \<Rightarrow> u32 \<times> u32 \<Rightarrow> u32 list" where
  "sha_round [a, b, c, d, e, f, g, hh] (k, w) =
    (let s1 = rotr32 e 6 XOR rotr32 e 11 XOR rotr32 e 25;
         ch = (e AND f) XOR (NOT e AND g);
         t1 = hh + s1 + ch + k + w;
         s0 = rotr32 a 2 XOR rotr32 a 13 XOR rotr32 a 22;
         maj = (a AND b) XOR (a AND c) XOR (b AND c);
         t2 = s0 + maj
     in [t1 + t2, a, b, c, d + t1, e, f, g])"
| "sha_round rs kw = rs"

definition compress :: "u32 list \<Rightarrow> bytes \<Rightarrow> u32 list" where
  "compress h block = map2 (+) h (foldl sha_round h (zip kSha256K (schedule block)))"

section \<open>Streaming\<close>

record sha256_ctx =
  sha_h :: "u32 list"
  sha_buf :: bytes
  sha_total :: u64

definition sha_init :: sha256_ctx where
  "sha_init = \<lparr> sha_h = [0x6a09e667, 0xbb67ae85, 0x3c6ef372, 0xa54ff53a, 0x510e527f, 0x9b05688c, 0x1f83d9ab, 0x5be0cd19],
     sha_buf = [], sha_total = 0 \<rparr>"

text \<open>
  The loop of \<open>update\<close>. With a full buffer it would not advance; the last test keeps the function
  total there, a state that no context reaches (\<open>sha_ok\<close>).
\<close>

function absorb :: "sha256_ctx \<Rightarrow> bytes \<Rightarrow> sha256_ctx" where
  "absorb c data =
    (if data = [] \<or> 64 \<le> length (sha_buf c) then c
     else
       let n = min (64 - length (sha_buf c)) (length data);
           c = c\<lparr> sha_buf := sha_buf c @ take n data \<rparr>;
           c = (if length (sha_buf c) = 64 then c\<lparr> sha_h := compress (sha_h c) (sha_buf c), sha_buf := [] \<rparr> else c)
       in absorb c (drop n data))"
  by auto
termination
  by (relation "measure (\<lambda>(c, data). length data)") auto

declare absorb.simps [simp del]

definition sha_update :: "sha256_ctx \<Rightarrow> bytes \<Rightarrow> sha256_ctx" where
  "sha_update c data = absorb (c\<lparr> sha_total := sha_total c + word_of_nat (length data) \<rparr>) data"

definition be64 :: "u64 \<Rightarrow> bytes" where
  "be64 v = map (\<lambda>i. ucast (drop_bit (56 - i * 8) v AND 0xFF)) [0..<8]"

definition be32 :: "u32 \<Rightarrow> bytes" where
  "be32 v = [ucast (drop_bit 24 v AND 0xFF), ucast (drop_bit 16 v AND 0xFF), ucast (drop_bit 8 v AND 0xFF), ucast (v AND 0xFF)]"

text \<open>\<open>while (buf_len != 56) update(&zero, 1)\<close>, with the same proviso.\<close>

lemma absorb_single:
  "length (sha_buf c) < 64 \<Longrightarrow> sha_buf (absorb c [b]) = (if length (sha_buf c) = 63 then [] else sha_buf c @ [b])"
  by (subst absorb.simps, subst absorb.simps) (auto simp: Let_def)

function pad_zeros :: "sha256_ctx \<Rightarrow> sha256_ctx" where
  "pad_zeros c =
    (if length (sha_buf c) = 56 \<or> 64 \<le> length (sha_buf c) then c else pad_zeros (sha_update c [0]))"
  by auto
termination
  by (relation "measure (\<lambda>c. if length (sha_buf c) \<le> 56 then 56 - length (sha_buf c) else 120 - length (sha_buf c))")
    (auto simp: sha_update_def absorb_single)

declare pad_zeros.simps [simp del]

definition sha_finish :: "sha256_ctx \<Rightarrow> bytes" where
  "sha_finish c =
    (let bit_len = sha_total c * 8;
         c = sha_update c [0x80];
         c = pad_zeros c;
         c = sha_update c (be64 bit_len)
     in concat (map be32 (sha_h c)))"

definition sha256 :: "bytes \<Rightarrow> bytes" where
  "sha256 data = sha_finish (sha_update sha_init data)"

section \<open>Message authentication and key derivation\<close>

definition hmac_sha256 :: "bytes \<Rightarrow> bytes \<Rightarrow> bytes" where
  "hmac_sha256 key msg =
    (let k0 = (if length key > 64 then blit 0 (sha256 key) (replicate 64 0) else blit 0 key (replicate 64 0));
         ipad = map (\<lambda>k. k XOR 0x36) k0;
         opad = map (\<lambda>k. k XOR 0x5C) k0;
         inner = sha_update sha_init ipad;
         inner = sha_update inner msg;
         inner_out = sha_finish inner;
         outer = sha_update sha_init opad;
         outer = sha_update outer inner_out
     in sha_finish outer)"

text \<open>A null salt is an empty one.\<close>

definition hkdf_sha256 :: "bytes \<Rightarrow> bytes \<Rightarrow> bytes \<Rightarrow> bytes" where
  "hkdf_sha256 ikm salt info =
    (let salt = (if salt = [] then replicate 32 0 else salt);
         prk = hmac_sha256 salt ikm
     in hmac_sha256 prk (info @ [1]))"

section \<open>Block by block\<close>

definition sha_ok :: "sha256_ctx \<Rightarrow> bool" where
  "sha_ok c \<longleftrightarrow> length (sha_buf c) < 64"

text \<open>Reference: hash the whole blocks of a byte string, keep the rest.\<close>

function blocks :: "u32 list \<Rightarrow> bytes \<Rightarrow> u32 list \<times> bytes" where
  "blocks h s = (if length s < 64 then (h, s) else blocks (compress h (take 64 s)) (drop 64 s))"
  by auto
termination
  by (relation "measure (\<lambda>(h, s). length s)") auto

declare blocks.simps [simp del]

lemma blocks_short: "length s < 64 \<Longrightarrow> blocks h s = (h, s)"
  by (simp add: blocks.simps)

lemma blocks_step: "length s = 64 \<Longrightarrow> blocks h (s @ t) = blocks (compress h s) t"
  by (simp add: blocks.simps [of h "s @ t"])

lemma blocks_rest: "length (snd (blocks h s)) = length s mod 64"
proof (induction h s rule: blocks.induct)
  case (1 h s)
  then show ?case
    by (cases "length s < 64") (simp_all add: blocks.simps [of h s] le_mod_geq)
qed

lemma blocks_append: "blocks h (s @ t) = (case blocks h s of (h', s') \<Rightarrow> blocks h' (s' @ t))"
proof (induction h s rule: blocks.induct)
  case (1 h s)
  show ?case
  proof (cases "length s < 64")
    case True
    then show ?thesis
      by (simp add: blocks_short)
  next
    case False
    then have "blocks h (s @ t) = blocks (compress h (take 64 s)) (drop 64 s @ t)"
      by (simp add: blocks.simps [of h "s @ t"])
    with 1 False show ?thesis
      by (simp add: blocks.simps [of h s])
  qed
qed

text \<open>The state reached by absorbing bytes.\<close>

definition sha_state :: "sha256_ctx \<Rightarrow> u32 list \<times> bytes" where
  "sha_state c = (sha_h c, sha_buf c)"

lemma absorb_blocks:
  "sha_ok c \<Longrightarrow> sha_ok (absorb c data) \<and> sha_state (absorb c data) = blocks (sha_h c) (sha_buf c @ data) \<and>
     sha_total (absorb c data) = sha_total c"
proof (induction c data rule: absorb.induct)
  case (1 c data)
  note ok = "1.prems" [unfolded sha_ok_def]
  show ?case
  proof (cases "data = []")
    case True
    with ok show ?thesis
      by (simp add: absorb.simps sha_ok_def sha_state_def blocks_short)
  next
    case False
    define n where "n = min (64 - length (sha_buf c)) (length data)"
    define c1 where "c1 = c\<lparr> sha_buf := sha_buf c @ take n data \<rparr>"
    define c2 where "c2 = (if length (sha_buf c1) = 64
      then c1\<lparr> sha_h := compress (sha_h c1) (sha_buf c1), sha_buf := [] \<rparr> else c1)"
    have step: "absorb c data = absorb c2 (drop n data)"
      using False ok by (subst absorb.simps) (simp add: Let_def n_def c1_def c2_def)
    have "sha_ok c2"
      using ok by (auto simp: c2_def c1_def n_def sha_ok_def)
    with "1.IH" [of n c1 c2] False ok have IH: "sha_ok (absorb c2 (drop n data))"
      "sha_state (absorb c2 (drop n data)) = blocks (sha_h c2) (sha_buf c2 @ drop n data)"
      "sha_total (absorb c2 (drop n data)) = sha_total c2"
      by (simp_all add: n_def c1_def c2_def)
    have "blocks (sha_h c2) (sha_buf c2 @ drop n data) = blocks (sha_h c) (sha_buf c @ data)"
      using blocks_step [of "sha_buf c @ take n data" "sha_h c" "drop n data"] by (simp add: c2_def c1_def)
    then show ?thesis
      using IH unfolding step by (simp add: c2_def c1_def)
  qed
qed

lemma sha_update_blocks:
  assumes "sha_ok c"
  shows "sha_ok (sha_update c data)" "sha_state (sha_update c data) = blocks (sha_h c) (sha_buf c @ data)"
    "sha_total (sha_update c data) = sha_total c + word_of_nat (length data)"
  using absorb_blocks [of "c\<lparr> sha_total := sha_total c + word_of_nat (length data) \<rparr>" data] assms
  by (simp_all add: sha_update_def sha_ok_def)

text \<open>A context that has been fed a message.\<close>

definition sha_fed :: "sha256_ctx \<Rightarrow> bytes \<Rightarrow> bool" where
  "sha_fed c m \<longleftrightarrow> sha_ok c \<and> sha_state c = blocks (sha_h sha_init) m \<and> sha_total c = word_of_nat (length m)"

lemma sha_fed_init: "sha_fed sha_init []"
  by (simp add: sha_fed_def sha_ok_def sha_init_def sha_state_def blocks_short)

lemma sha_fed_state: "sha_fed c m \<Longrightarrow> blocks (sha_h sha_init) m = (sha_h c, sha_buf c)"
  by (simp add: sha_fed_def sha_state_def)

lemma sha_fed_update: "sha_fed c m \<Longrightarrow> sha_fed (sha_update c data) (m @ data)"
proof -
  assume fed: "sha_fed c m"
  then have ok: "sha_ok c" "sha_total c = word_of_nat (length m)"
    by (simp_all only: sha_fed_def)
  have "blocks (sha_h sha_init) (m @ data) = blocks (sha_h c) (sha_buf c @ data)"
    by (simp only: blocks_append [of _ m data] sha_fed_state [OF fed] prod.case)
  then show ?thesis
    unfolding sha_fed_def by (simp only: sha_update_blocks [OF ok(1)] ok(2) length_append of_nat_add)
qed

lemma sha_fed_updates: "sha_fed c m \<Longrightarrow> sha_fed (foldl sha_update c parts) (m @ concat parts)"
proof (induction parts arbitrary: c m)
  case (Cons a parts)
  show ?case
    using Cons.IH [OF sha_fed_update [OF Cons.prems]] by simp
qed simp

lemma sha_fed_length: "sha_fed c m \<Longrightarrow> length (sha_buf c) = length m mod 64"
  using blocks_rest [of "sha_h sha_init" m] by (simp add: sha_fed_state)

text \<open>Zeros are added up to the length field.\<close>

definition zeros_needed :: "nat \<Rightarrow> nat" where
  "zeros_needed n = (if n mod 64 \<le> 56 then 56 - n mod 64 else 120 - n mod 64)"

lemma zeros_needed_Suc: "n mod 64 \<noteq> 56 \<Longrightarrow> zeros_needed n = Suc (zeros_needed (Suc n))"
  using mod_less_divisor [of 64 n] by (auto simp: zeros_needed_def mod_Suc)

lemma pad_zeros_fed: "sha_fed c m \<Longrightarrow> sha_fed (pad_zeros c) (m @ replicate (zeros_needed (length m)) 0)"
proof (induction c arbitrary: m rule: pad_zeros.induct)
  case (1 c)
  have len: "length (sha_buf c) = length m mod 64"
    using "1.prems" by (rule sha_fed_length)
  show ?case
  proof (cases "length m mod 64 = 56")
    case True
    then show ?thesis
      using "1.prems" by (simp add: pad_zeros.simps [of c] len zeros_needed_def)
  next
    case False
    then have "\<not> (length (sha_buf c) = 56 \<or> 64 \<le> length (sha_buf c))"
      using mod_less_divisor [of 64 "length m"] by (simp add: len)
    from "1.IH" [OF this sha_fed_update [OF "1.prems"]] this False show ?thesis
      by (simp add: pad_zeros.simps [of c] zeros_needed_Suc [OF False])
  qed
qed

text \<open>The standard: the message, a one bit, zeros, and its length in bits, block by block.\<close>

definition padded :: "bytes \<Rightarrow> bytes" where
  "padded m = m @ [0x80] @ replicate (zeros_needed (length m + 1)) 0 @ be64 (word_of_nat (8 * length m))"

definition sha256_blocks :: "bytes \<Rightarrow> bytes" where
  "sha256_blocks m = concat (map be32 (fst (blocks (sha_h sha_init) (padded m))))"

lemma sha_finish_fed: "sha_fed c m \<Longrightarrow> sha_finish c = sha256_blocks m"
proof -
  assume fed: "sha_fed c m"
  then have total: "sha_total c * 8 = word_of_nat (8 * length m)"
    by (simp add: sha_fed_def)
  have "sha_fed (sha_update (pad_zeros (sha_update c [0x80])) (be64 (sha_total c * 8))) (padded m)"
    using sha_fed_update [OF pad_zeros_fed [OF sha_fed_update [OF fed, of "[0x80]"]], of "be64 (sha_total c * 8)"]
    by (simp add: padded_def total)
  from sha_fed_state [OF this] show ?thesis
    by (simp add: sha_finish_def sha256_blocks_def Let_def)
qed

lemma sha256_fed: "sha_finish (foldl sha_update sha_init parts) = sha256_blocks (concat parts)"
  using sha_finish_fed [OF sha_fed_updates [OF sha_fed_init]] by simp

text \<open>
  C26: SHA-256 can be fed a message in any pieces. The digest is the standard's: the message padded
  to whole blocks, the compression function applied block after block, the eight words written
  out; and the padded message is a whole number of blocks.
\<close>

theorem sha256_streaming:
  "sha_finish (foldl sha_update sha_init parts) = sha256_blocks (concat parts) \<and>
   sha256 m = sha256_blocks m \<and> length (padded m) mod 64 = 0"
proof -
  have "\<exists>k. n + zeros_needed n + 8 = 64 * k" for n
  proof -
    have split: "64 * q + r + (56 - r) + 8 = 64 * (q + 1)" "64 * q + s + (120 - s) + 8 = 64 * (q + 2)"
      if "r \<le> 56" "s < 64" for q r s :: nat
      using that by simp_all
    have "n mod 64 < 64"
      by simp
    then show ?thesis
      using split [of "n mod 64" "n mod 64" "n div 64"] split [of 0 "n mod 64" "n div 64"]
      unfolding mult_div_mod_eq zeros_needed_def by (cases "n mod 64 \<le> 56") (simp_all only: if_True if_False, blast+)
  qed
  then obtain k where "length m + 1 + zeros_needed (length m + 1) + 8 = 64 * k"
    by blast
  then have "length (padded m) = 64 * k"
    by (simp add: padded_def be64_def)
  then have "length (padded m) mod 64 = 0"
    by simp
  then show ?thesis
    using sha256_fed [of parts] sha256_fed [of "[m]"] by (simp add: sha256_def)
qed

section \<open>The hash as an interface\<close>

text \<open>What HMAC relies on: a hash that can be fed in pieces.\<close>

locale stream_hash =
  fixes start :: 'c and feed :: "'c \<Rightarrow> bytes \<Rightarrow> 'c" and digest :: "'c \<Rightarrow> bytes" and hash :: "bytes \<Rightarrow> bytes"
  assumes digest_feed: "digest (foldl feed start parts) = hash (concat parts)"
begin

lemma one_piece: "digest (feed start a) = hash a"
  using digest_feed [of "[a]"] by simp

lemma two_pieces: "digest (feed (feed start a) b) = hash (a @ b)"
  using digest_feed [of "[a, b]"] by simp

lemma nested: "digest (feed (feed start b) (digest (feed (feed start a) m))) = hash (b @ hash (a @ m))"
  by (simp add: two_pieces)

end

interpretation sha: stream_hash sha_init sha_update sha_finish sha256_blocks
  by unfold_locales (rule sha256_fed)

lemma sha256_hash: "sha256 m = sha256_blocks m"
  by (simp add: sha256_def sha.one_piece)

lemma length_sha_round: "length rs = 8 \<Longrightarrow> length (sha_round rs kw) = 8"
  by (cases "(rs, kw)" rule: sha_round.cases) (simp_all add: Let_def)

lemma length_compress: "length h = 8 \<Longrightarrow> length (compress h b) = 8"
proof -
  have "length (foldl sha_round h kws) = 8" if "length h = 8" for h and kws
    using that by (induction kws arbitrary: h) (simp_all add: length_sha_round)
  then show "length h = 8 \<Longrightarrow> length (compress h b) = 8"
    by (simp add: compress_def)
qed

lemma length_sha256_blocks: "length (sha256_blocks m) = 32"
proof -
  have "length (fst (blocks h s)) = 8" if "length h = 8" for h s
    using that
  proof (induction h s rule: blocks.induct)
    case (1 h s)
    then show ?case
      by (cases "length s < 64") (simp_all add: blocks.simps [of h s] length_compress)
  qed
  moreover have "length (concat (map be32 ws)) = 4 * length ws" for ws
    by (induction ws) (simp_all add: be32_def)
  ultimately show ?thesis
    by (simp add: sha256_blocks_def sha_init_def)
qed

text \<open>The key block of the standard: a long key is hashed, a short one filled with zeros.\<close>

definition key_block :: "bytes \<Rightarrow> bytes" where
  "key_block key = (let k = (if length key > 64 then sha256_blocks key else key) in k @ replicate (64 - length k) 0)"

text \<open>
  C27: the message authentication code is HMAC as RFC 2104 defines it, for keys and messages of
  every length: the hash of the outer key block followed by the hash of the inner key block and
  the message. The key block always fills one block of the hash, the code is 32 bytes long, and
  without a salt key derivation is the same as with the standard's salt of 32 zero bytes, or any
  shorter run of zeros.
\<close>

theorem hmac_rfc2104:
  "hmac_sha256 key msg =
     sha256_blocks (map (\<lambda>k. k XOR 0x5C) (key_block key) @ sha256_blocks (map (\<lambda>k. k XOR 0x36) (key_block key) @ msg)) \<and>
   length (key_block key) = 64 \<and> length (hmac_sha256 key msg) = 32 \<and>
   hkdf_sha256 ikm [] info = hkdf_sha256 ikm (replicate (min n 32) 0) info"
proof -
  have k0: "(if length k > 64 then blit 0 (sha256 k) (replicate 64 0) else blit 0 k (replicate 64 0)) = key_block k" for k
    by (simp add: key_block_def sha256_hash blit_def length_sha256_blocks)
  have hmac: "hmac_sha256 k m = sha256_blocks (map (\<lambda>k. k XOR 0x5C) (key_block k) @
      sha256_blocks (map (\<lambda>k. k XOR 0x36) (key_block k) @ m))" for k m
    unfolding hmac_sha256_def Let_def k0 by (rule sha.nested)
  have "key_block (replicate j 0) = replicate 64 0" if "j \<le> 32" for j
    using that by (simp add: key_block_def replicate_add [symmetric])
  then have "hmac_sha256 (replicate (min n 32) 0) ikm = hmac_sha256 (replicate 32 0) ikm"
    unfolding hmac by simp
  then have "hkdf_sha256 ikm [] info = hkdf_sha256 ikm (replicate (min n 32) 0) info"
    by (simp add: hkdf_sha256_def)
  with hmac show ?thesis
    by (simp add: length_sha256_blocks key_block_def)
qed

end
