(* ===== verification/Aes_Gcm.thy ===== *)
theory Aes_Gcm
  imports Sha256
begin

text \<open>
  AES-256 in Galois counter mode, \<open>crypto.cpp\<close>. A cipher object is its fifteen round keys; output
  buffers are results. Decryption accepts exactly what encryption produces, and the counter
  blocks under one nonce never repeat.
\<close>

section \<open>The substitution box\<close>

function aes_mul_loop :: "u8 \<Rightarrow> u8 \<Rightarrow> u8 \<Rightarrow> u8" where
  "aes_mul_loop r a b =
    (if b = 0 then r
     else aes_mul_loop (if b AND 1 \<noteq> 0 then r XOR a else r)
       (push_bit 1 a XOR (if a AND 0x80 \<noteq> 0 then 0x1B else 0)) (drop_bit 1 b))"
  by auto
termination
proof (relation "measure (\<lambda>(r, a, b). unat b)")
  fix r a b :: u8
  assume "b \<noteq> 0"
  moreover have "unat (drop_bit 1 b) = unat b div 2"
    by (simp add: drop_bit_eq_div unat_div)
  ultimately show "((if b AND 1 \<noteq> 0 then r XOR a else r, push_bit 1 a XOR (if a AND 0x80 \<noteq> 0 then 0x1B else 0), drop_bit 1 b),
      r, a, b) \<in> measure (\<lambda>(r, a, b). unat b)"
    by (simp add: unat_gt_0)
qed simp

declare aes_mul_loop.simps [simp del]

definition aes_mul :: "u8 \<Rightarrow> u8 \<Rightarrow> u8" where "aes_mul a b = aes_mul_loop 0 a b"

function aes_pow_loop :: "u8 \<Rightarrow> u8 \<Rightarrow> nat \<Rightarrow> u8" where
  "aes_pow_loop result base e =
    (if e = 0 then result
     else aes_pow_loop (if odd e then aes_mul result base else result) (aes_mul base base) (e div 2))"
  by auto
termination
  by (relation "measure (\<lambda>(result, base, e). e)") auto

declare aes_pow_loop.simps [simp del]

definition aes_inv :: "u8 \<Rightarrow> u8" where
  "aes_inv a = (if a = 0 then 0 else aes_pow_loop 1 a 254)"

definition sbox_entry :: "u8 \<Rightarrow> u8" where
  "sbox_entry x =
    (let y = aes_inv x; rotl = (\<lambda>n. push_bit n y OR drop_bit (8 - n) y)
     in 0x63 XOR y XOR rotl 1 XOR rotl 2 XOR rotl 3 XOR rotl 4)"

definition sbox :: bytes where "sbox = map (\<lambda>x. sbox_entry (word_of_nat x)) [0..<256]"

section \<open>Key schedule\<close>

text \<open>The substituted word; the other occurrence in the code takes the bytes rotated by one.\<close>

definition sub_word :: "u32 \<Rightarrow> u32" where
  "sub_word t = push_bit 24 (ucast (sbox ! unat (drop_bit 24 t AND 0xFF))) OR
     push_bit 16 (ucast (sbox ! unat (drop_bit 16 t AND 0xFF))) OR
     push_bit 8 (ucast (sbox ! unat (drop_bit 8 t AND 0xFF))) OR ucast (sbox ! unat (t AND 0xFF))"

definition sub_rot_word :: "u32 \<Rightarrow> u32" where
  "sub_rot_word t = push_bit 24 (ucast (sbox ! unat (drop_bit 16 t AND 0xFF))) OR
     push_bit 16 (ucast (sbox ! unat (drop_bit 8 t AND 0xFF))) OR
     push_bit 8 (ucast (sbox ! unat (t AND 0xFF))) OR ucast (sbox ! unat (drop_bit 24 t AND 0xFF))"

definition expand_word :: "u32 list \<times> u32 \<Rightarrow> nat \<Rightarrow> u32 list \<times> u32" where
  "expand_word st i =
    (case st of (w, rcon) \<Rightarrow>
     let t = w ! (i - 1);
         (t, rcon) = (if i mod 8 = 0 then (sub_rot_word t XOR rcon, push_bit 24 (ucast (aes_mul (ucast (drop_bit 24 rcon)) 2)))
           else if i mod 8 = 4 then (sub_word t, rcon) else (t, rcon))
     in (w @ [w ! (i - 8) XOR t], rcon))"

definition aes_schedule :: "bytes \<Rightarrow> u32 list" where
  "aes_schedule key = fst (foldl expand_word (map (\<lambda>i. be32_at key (i * 4)) [0..<8], 0x01000000) [8..<60])"

definition round_keys :: "bytes \<Rightarrow> bytes list" where
  "round_keys key = (let w = aes_schedule key in map (\<lambda>r. concat (map (\<lambda>c. be32 (w ! (r * 4 + c))) [0..<4])) [0..<15])"

section \<open>One block\<close>

definition sub_shift :: "bytes \<Rightarrow> bytes" where
  "sub_shift s = map (\<lambda>i. sbox ! unat (s ! i)) [0, 5, 10, 15, 4, 9, 14, 3, 8, 13, 2, 7, 12, 1, 6, 11]"

definition mix_column :: "u8 \<Rightarrow> u8 \<Rightarrow> u8 \<Rightarrow> u8 \<Rightarrow> bytes" where
  "mix_column a0 a1 a2 a3 =
    [aes_mul a0 2 XOR aes_mul a1 3 XOR a2 XOR a3, a0 XOR aes_mul a1 2 XOR aes_mul a2 3 XOR a3,
     a0 XOR a1 XOR aes_mul a2 2 XOR aes_mul a3 3, aes_mul a0 3 XOR a1 XOR a2 XOR aes_mul a3 2]"

definition mix_columns :: "bytes \<Rightarrow> bytes" where
  "mix_columns s = concat (map (\<lambda>c. mix_column (s ! (c * 4)) (s ! (c * 4 + 1)) (s ! (c * 4 + 2)) (s ! (c * 4 + 3))) [0..<4])"

definition encrypt_block :: "bytes list \<Rightarrow> bytes \<Rightarrow> bytes" where
  "encrypt_block rk inp =
    (let s = map2 (XOR) inp (rk ! 0);
         s = foldl (\<lambda>s round. map2 (XOR) (mix_columns (sub_shift s)) (rk ! round)) s [1..<14]
     in map2 (XOR) (sub_shift s) (rk ! 14))"

section \<open>Authentication\<close>

text \<open>\<open>ghash_mul\<close>: the shift of v by one bit (the loop runs downwards, so it reads old bytes).\<close>

definition shift_right :: "bytes \<Rightarrow> bytes" where
  "shift_right v =
    (let lsb = (v ! 15 AND 1 \<noteq> 0);
         v = foldl (\<lambda>v j. v[j := drop_bit 1 (v ! j) OR push_bit 7 (v ! (j - 1))]) v (rev [1..<16]);
         v = v[0 := drop_bit 1 (v ! 0)]
     in if lsb then v[0 := v ! 0 XOR 0xE1] else v)"

definition ghash_step :: "bytes \<Rightarrow> bytes \<times> bytes \<Rightarrow> nat \<Rightarrow> bytes \<times> bytes" where
  "ghash_step x st i =
    (case st of (z, v) \<Rightarrow>
     (if drop_bit (7 - i mod 8) (x ! (i div 8)) AND 1 \<noteq> 0 then map2 (XOR) z v else z, shift_right v))"

definition ghash_mul :: "bytes \<Rightarrow> bytes \<Rightarrow> bytes" where
  "ghash_mul x y = fst (foldl (ghash_step x) (replicate 16 0, y) [0..<128])"

function ghash_update :: "bytes \<Rightarrow> bytes \<Rightarrow> bytes \<Rightarrow> bytes" where
  "ghash_update x h data =
    (if data = [] then x
     else
       let n = (if length data < 16 then length data else 16);
           block = blit 0 (take n data) (replicate 16 0);
           x = map2 (XOR) x block
       in ghash_update (ghash_mul x h) h (drop n data))"
  by auto
termination
  by (relation "measure (\<lambda>(x, h, data). length data)") auto

declare ghash_update.simps [simp del]

definition gcm_compute_tag :: "bytes list \<Rightarrow> bytes \<Rightarrow> bytes \<Rightarrow> bytes \<Rightarrow> bytes" where
  "gcm_compute_tag aes j0 aad ct =
    (let h = encrypt_block aes (replicate 16 0);
         x = replicate 16 0;
         x = ghash_update x h aad;
         x = ghash_update x h ct;
         aad_bits = word_of_nat (length aad) * 8;
         ct_bits = word_of_nat (length ct) * 8;
         x = ghash_update x h (be64 aad_bits @ be64 ct_bits);
         ej0 = encrypt_block aes j0
     in map2 (XOR) x ej0)"

section \<open>Counter mode\<close>

text \<open>The big-endian increment of bytes 12 to 15, stopping at the first that does not wrap.\<close>

fun inc_at :: "nat list \<Rightarrow> bytes \<Rightarrow> bytes" where
  "inc_at [] ctr = ctr"
| "inc_at (i # is) ctr = (let ctr = ctr[i := ctr ! i + 1] in if ctr ! i \<noteq> 0 then ctr else inc_at is ctr)"

definition inc32 :: "bytes \<Rightarrow> bytes" where "inc32 ctr = inc_at [15, 14, 13, 12] ctr"

function gcm_loop :: "bytes list \<Rightarrow> bytes \<Rightarrow> bytes \<Rightarrow> bytes" where
  "gcm_loop aes ctr inp =
    (if inp = [] then []
     else
       let ctr = inc32 ctr;
           ks = encrypt_block aes ctr;
           n = (if length inp < 16 then length inp else 16)
       in map2 (XOR) (take n inp) ks @ gcm_loop aes ctr (drop n inp))"
  by auto
termination
  by (relation "measure (\<lambda>(aes, ctr, inp). length inp)") auto

declare gcm_loop.simps [simp del]

definition aes256_gcm_crypt :: "bytes list \<Rightarrow> bytes \<Rightarrow> bytes \<Rightarrow> bytes" where
  "aes256_gcm_crypt aes j0 inp = gcm_loop aes j0 inp"

definition j0_of :: "bytes \<Rightarrow> bytes" where
  "j0_of nonce = (blit 0 nonce (replicate 16 0))[15 := 1]"

text \<open>Encryption returns the ciphertext and the tag; decryption returns nothing on a bad tag.\<close>

definition aes256_gcm_encrypt :: "bytes \<Rightarrow> bytes \<Rightarrow> bytes \<Rightarrow> bytes \<Rightarrow> bytes \<times> bytes" where
  "aes256_gcm_encrypt key nonce aad plaintext =
    (let aes = round_keys key;
         j0 = j0_of nonce;
         ciphertext = aes256_gcm_crypt aes j0 plaintext
     in (ciphertext, gcm_compute_tag aes j0 aad ciphertext))"

definition aes256_gcm_decrypt :: "bytes \<Rightarrow> bytes \<Rightarrow> bytes \<Rightarrow> bytes \<Rightarrow> bytes \<Rightarrow> bytes option" where
  "aes256_gcm_decrypt key nonce aad ciphertext tag =
    (let aes = round_keys key;
         j0 = j0_of nonce;
         expect = gcm_compute_tag aes j0 aad ciphertext;
         diff = foldl (\<lambda>diff i. diff OR (expect ! i XOR tag ! i)) 0 [0..<16]
     in if diff \<noteq> 0 then None else Some (aes256_gcm_crypt aes j0 ciphertext))"

section \<open>Lengths\<close>

lemma length_be32 [simp]: "length (be32 w) = 4"
  by (simp add: be32_def)

lemma length_round_key: "r < 15 \<Longrightarrow> length (round_keys key ! r) = 16"
  by (simp add: round_keys_def Let_def length_concat comp_def sum_list_triv)

lemma length_sub_shift [simp]: "length (sub_shift s) = 16"
  by (simp add: sub_shift_def)

lemma length_mix_columns [simp]: "length (mix_columns s) = 16"
  by (simp add: mix_columns_def mix_column_def length_concat comp_def sum_list_triv)

lemma length_encrypt_block [simp]: "length (encrypt_block (round_keys key) inp) = 16"
  by (simp add: encrypt_block_def Let_def length_round_key)

lemma length_shift_right [simp]: "length (shift_right v) = length v"
proof -
  have "length (foldl (\<lambda>v j. v[j := f v j]) v js) = length v" for js and v :: bytes and f
    by (induction js arbitrary: v) simp_all
  then show ?thesis
    by (simp add: shift_right_def Let_def)
qed

lemma ghash_fold_length:
  "length z = 16 \<Longrightarrow> length v = 16 \<Longrightarrow>
   length (fst (foldl (ghash_step x) (z, v) is)) = 16 \<and> length (snd (foldl (ghash_step x) (z, v) is)) = 16"
  by (induction "is" arbitrary: z v) (simp_all add: ghash_step_def)

lemma length_ghash_mul: "length y = 16 \<Longrightarrow> length (ghash_mul x y) = 16"
  by (simp add: ghash_mul_def ghash_fold_length)

lemma length_ghash_update: "length x = 16 \<Longrightarrow> length h = 16 \<Longrightarrow> length (ghash_update x h data) = 16"
proof (induction x h data rule: ghash_update.induct)
  case (1 x h data)
  then show ?case
    by (cases "data = []") (simp_all add: ghash_update.simps [of x h] Let_def length_ghash_mul)
qed

lemma length_tag: "length (gcm_compute_tag (round_keys key) j0 aad ct) = 16"
  by (simp add: gcm_compute_tag_def Let_def length_ghash_update)

section \<open>Decryption undoes encryption\<close>

lemma xor_twice: "length k \<ge> length x \<Longrightarrow> map2 (XOR) (map2 (XOR) x k) k = (x :: bytes)"
  by (induction x k rule: list_induct2') (simp_all add: xor.assoc)

lemma length_gcm_loop: "length (gcm_loop (round_keys key) ctr p) = length p"
proof (induction "round_keys key" ctr p rule: gcm_loop.induct)
  case (1 ctr p)
  then show ?case
    by (cases "p = []") (auto simp: gcm_loop.simps [of "round_keys key" ctr] Let_def)
qed

lemma gcm_loop_twice: "gcm_loop (round_keys key) ctr (gcm_loop (round_keys key) ctr p) = p"
proof (induction "round_keys key" ctr p rule: gcm_loop.induct)
  case (1 ctr p)
  show ?case
  proof (cases "p = []")
    case True
    then show ?thesis
      by (simp add: gcm_loop.simps)
  next
    case False
    define ks where "ks = encrypt_block (round_keys key) (inc32 ctr)"
    define n where "n = (if length p < 16 then length p else 16)"
    define c where "c = map2 (XOR) (take n p) ks"
    define rest where "rest = gcm_loop (round_keys key) (inc32 ctr) (drop n p)"
    have ks: "length ks = 16" and n: "n \<le> 16" "n \<le> length p" "0 < n"
      using False by (simp_all add: ks_def n_def)
    have out: "gcm_loop (round_keys key) ctr p = c @ rest"
      using False by (simp add: gcm_loop.simps [of _ ctr p] Let_def ks_def n_def c_def rest_def)
    have c: "length c = n"
      using ks n by (simp add: c_def)
    have len: "length (c @ rest) = length p"
      using length_gcm_loop [of key ctr p] by (simp add: out)
    then have n': "(if length (c @ rest) < 16 then length (c @ rest) else 16) = n"
      by (simp add: n_def)
    have "c @ rest \<noteq> []"
      using len False by auto
    then have "gcm_loop (round_keys key) ctr (c @ rest) =
        map2 (XOR) (take n (c @ rest)) ks @ gcm_loop (round_keys key) (inc32 ctr) (drop n (c @ rest))"
      by (subst gcm_loop.simps) (simp only: if_False Let_def n' ks_def)
    also have "\<dots> = take n p @ drop n p"
      using "1.hyps" [OF False refl refl n_def] ks n by (simp add: c rest_def c_def xor_twice)
    finally show ?thesis
      by (simp add: out)
  qed
qed

lemma diff_zero_iff:
  "foldl (\<lambda>diff i. diff OR (f i :: u8)) d is = 0 \<longleftrightarrow> d = 0 \<and> (\<forall>i\<in>set is. f i = 0)"
  by (induction "is" arbitrary: d) (auto simp: or_eq_0_iff)

lemma xor_zero_iff: "a XOR b = 0 \<longleftrightarrow> a = b" for a b :: "'a::len word"
  using xor_cancel_right [of a b b] by simp

lemma tag_compare:
  "length e = 16 \<Longrightarrow> length t = 16 \<Longrightarrow> foldl (\<lambda>diff i. diff OR (e ! i XOR t ! i)) 0 [0..<16] = (0 :: u8) \<longleftrightarrow> e = t"
  unfolding diff_zero_iff by (auto simp: list_eq_iff_nth_eq xor_zero_iff)

text \<open>
  C28: authenticated decryption accepts exactly what encryption produces. For every key, nonce and
  associated data, a ciphertext with a 16-byte tag decrypts to a plaintext if and only if
  encrypting that plaintext gives this ciphertext and this tag; in every other case nothing is
  released.
\<close>

theorem gcm_decrypt_iff_encrypt:
  assumes "length tag = 16"
  shows "aes256_gcm_decrypt key nonce aad ct tag = Some p \<longleftrightarrow> aes256_gcm_encrypt key nonce aad p = (ct, tag)"
proof -
  have "aes256_gcm_crypt (round_keys key) j0 (aes256_gcm_crypt (round_keys key) j0 x) = x" for j0 x
    by (simp add: aes256_gcm_crypt_def gcm_loop_twice)
  then have "aes256_gcm_crypt (round_keys key) j0 ct = p \<longleftrightarrow> aes256_gcm_crypt (round_keys key) j0 p = ct" for j0
    by auto
  then show ?thesis
    using tag_compare [OF length_tag assms] by (auto simp: aes256_gcm_decrypt_def aes256_gcm_encrypt_def Let_def)
qed

lemma gcm_decrypt_iff_encrypt_witness:
  "aes256_gcm_decrypt (replicate 32 7) (replicate 12 5) [3] (fst (aes256_gcm_encrypt (replicate 32 7) (replicate 12 5) [3] [1, 2]))
     (snd (aes256_gcm_encrypt (replicate 32 7) (replicate 12 5) [3] [1, 2])) = Some [1, 2]"
proof -
  have "length (snd (aes256_gcm_encrypt k n a p)) = 16" for k n a p
    by (simp add: aes256_gcm_encrypt_def Let_def length_tag)
  then show ?thesis
    by (simp only: gcm_decrypt_iff_encrypt prod.collapse)
qed

section \<open>Counter blocks\<close>

text \<open>The number in the last four bytes.\<close>

definition ctr_val :: "bytes \<Rightarrow> nat" where
  "ctr_val c = ((unat (c ! 12) * 256 + unat (c ! 13)) * 256 + unat (c ! 14)) * 256 + unat (c ! 15)"

lemma unat_inc: "unat (b + 1) = (if b + 1 = 0 then 0 else unat b + 1)" "b + 1 = 0 \<Longrightarrow> unat b = 255" for b :: u8
proof -
  have b: "unat (b + 1) = (unat b + 1) mod 256" "b + 1 = 0 \<longleftrightarrow> (unat b + 1) mod 256 = 0"
    by (simp_all add: unat_word_ariths word_unat_eq_iff)
  have "unat b < 256"
    by simp
  then consider "unat b = 255" | "unat b + 1 < 256"
    by linarith
  then show "unat (b + 1) = (if b + 1 = 0 then 0 else unat b + 1)" "b + 1 = 0 \<Longrightarrow> unat b = 255"
    unfolding b by (cases; simp)+
qed

lemma ctr_val_less: "ctr_val c < 2 ^ 32"
proof -
  have bound: "((x * 256 + y) * 256 + z) * 256 + w < 2 ^ 32" if "x < 256" "y < 256" "z < 256" "w < 256" for x y z w :: nat
    using that by simp
  show ?thesis
    unfolding ctr_val_def by (rule bound) simp_all
qed

lemma inc32_spec:
  assumes "length c = 16"
  shows "length (inc32 c) = 16" "take 12 (inc32 c) = take 12 c" "ctr_val (inc32 c) = (ctr_val c + 1) mod 2 ^ 32"
proof -
  have "length (inc32 c) = 16 \<and> take 12 (inc32 c) = take 12 c \<and>
    (ctr_val (inc32 c) = ctr_val c + 1 \<or> ctr_val (inc32 c) = 0 \<and> ctr_val c + 1 = 2 ^ 32)"
  proof -
    consider "c ! 15 + 1 \<noteq> 0" | "c ! 15 + 1 = 0" "c ! 14 + 1 \<noteq> 0" | "c ! 15 + 1 = 0" "c ! 14 + 1 = 0" "c ! 13 + 1 \<noteq> 0"
      | "c ! 15 + 1 = 0" "c ! 14 + 1 = 0" "c ! 13 + 1 = 0" "c ! 12 + 1 \<noteq> 0"
      | "c ! 15 + 1 = 0" "c ! 14 + 1 = 0" "c ! 13 + 1 = 0" "c ! 12 + 1 = 0"
      by blast
    then show ?thesis
      by cases (use assms in \<open>simp_all add: inc32_def Let_def ctr_val_def unat_inc(1) unat_inc(2)\<close>)
  qed
  then show "length (inc32 c) = 16" "take 12 (inc32 c) = take 12 c" "ctr_val (inc32 c) = (ctr_val c + 1) mod 2 ^ 32"
    using ctr_val_less [of "inc32 c"] by auto
qed

lemma inc32_pow:
  "length c = 16 \<Longrightarrow> length ((inc32 ^^ i) c) = 16 \<and> take 12 ((inc32 ^^ i) c) = take 12 c \<and>
     ctr_val ((inc32 ^^ i) c) mod 2 ^ 32 = (ctr_val c + i) mod 2 ^ 32"
proof (induction i)
  case (Suc i)
  then show ?case
    using inc32_spec [of "(inc32 ^^ i) c"] by (simp add: mod_Suc_eq) (metis mod_Suc_eq)
qed simp

lemma j0_of_spec:
  "length nonce = 12 \<Longrightarrow> length (j0_of nonce) = 16" "length nonce = 12 \<Longrightarrow> take 12 (j0_of nonce) = nonce"
  "length nonce = 12 \<Longrightarrow> ctr_val (j0_of nonce) = 1"
  by (simp_all add: j0_of_def blit_def ctr_val_def nth_append nth_list_update)

lemma gcm_loop_block:
  "16 * k < length p \<Longrightarrow> take 16 (drop (16 * k) (gcm_loop (round_keys key) ctr p)) =
     map2 (XOR) (take 16 (drop (16 * k) p)) (encrypt_block (round_keys key) ((inc32 ^^ Suc k) ctr))"
proof (induction k arbitrary: ctr p)
  case 0
  then show ?case
    by (cases "length p < 16") (simp_all add: gcm_loop.simps [of "round_keys key" ctr p] gcm_loop.simps [of _ _ "[]"] Let_def)
next
  case (Suc k)
  have "gcm_loop (round_keys key) ctr p =
      map2 (XOR) (take 16 p) (encrypt_block (round_keys key) (inc32 ctr)) @ gcm_loop (round_keys key) (inc32 ctr) (drop 16 p)"
    using Suc.prems by (subst gcm_loop.simps) (auto simp: Let_def)
  moreover have "take 16 (drop (16 * k) (gcm_loop (round_keys key) (inc32 ctr) (drop 16 p))) =
      map2 (XOR) (take 16 (drop (16 * k) (drop 16 p))) (encrypt_block (round_keys key) ((inc32 ^^ Suc k) (inc32 ctr)))"
    using Suc.prems by (intro Suc.IH) simp
  ultimately show ?case
    using Suc.prems by (simp add: funpow_swap1 add.commute)
qed

text \<open>
  C29: counter mode never encrypts a counter block twice. Block k of a message is combined with
  the encryption of the nonce's start block incremented k + 1 times, and up to 2^32 increments
  of the start blocks of all nonces are pairwise different, so that two blocks share their key
  stream only if they share nonce and position, and none shares it with the tag's mask.
\<close>

theorem gcm_counter_blocks:
  assumes "length nonce = 12" "length nonce' = 12" "i < 2 ^ 32" "j < 2 ^ 32"
  shows "((inc32 ^^ i) (j0_of nonce) = (inc32 ^^ j) (j0_of nonce') \<longleftrightarrow> nonce = nonce' \<and> i = j) \<and>
    (16 * k < length p \<longrightarrow> take 16 (drop (16 * k) (fst (aes256_gcm_encrypt key nonce aad p))) =
       map2 (XOR) (take 16 (drop (16 * k) p)) (encrypt_block (round_keys key) ((inc32 ^^ (k + 1)) (j0_of nonce))))"
proof -
  note n = inc32_pow [OF j0_of_spec(1) [OF assms(1)], of i] inc32_pow [OF j0_of_spec(1) [OF assms(2)], of j]
  have "nonce = nonce' \<and> i = j" if "(inc32 ^^ i) (j0_of nonce) = (inc32 ^^ j) (j0_of nonce')"
  proof -
    have "nonce = nonce'"
      using n that assms by (metis j0_of_spec(2))
    have "(1 + i) mod 2 ^ 32 = (1 + j) mod 2 ^ 32"
      using n that assms(1,2) by (metis j0_of_spec(3))
    then have "i = j"
      using assms(3,4) by (simp add: mod_Suc split: if_splits)
    with \<open>nonce = nonce'\<close> show ?thesis
      by simp
  qed
  then show ?thesis
    using gcm_loop_block [of k p key "j0_of nonce"]
    by (auto simp: aes256_gcm_encrypt_def aes256_gcm_crypt_def Let_def)
qed

lemma gcm_counter_blocks_witness:
  "(inc32 ^^ 1) (j0_of (replicate 12 3)) \<noteq> (inc32 ^^ 2) (j0_of (replicate 12 3))"
  using gcm_counter_blocks [of "replicate 12 3" "replicate 12 3" 1 2] by simp

section \<open>The hash on 128-bit strings\<close>

text \<open>
  Reference: the block product as the standard gives it, on strings of 128 bits, the first bit
  of the string being the highest of the word.
\<close>

definition be_word :: "bytes \<Rightarrow> 128 word" where
  "be_word bs = foldl (\<lambda>w b. push_bit 8 w OR ucast b) 0 bs"

definition nist_shift :: "128 word \<Rightarrow> 128 word" where
  "nist_shift v = (if bit v 0 then drop_bit 1 v XOR push_bit 120 0xE1 else drop_bit 1 v)"

definition nist_step :: "128 word \<Rightarrow> 128 word \<times> 128 word \<Rightarrow> nat \<Rightarrow> 128 word \<times> 128 word" where
  "nist_step x st i = (case st of (z, v) \<Rightarrow> (if bit x (127 - i) then z XOR v else z, nist_shift v))"

definition nist_mul :: "128 word \<Rightarrow> 128 word \<Rightarrow> 128 word" where
  "nist_mul x y = fst (foldl (nist_step x) (0, y) [0..<128])"

fun nist_ghash :: "128 word \<Rightarrow> 128 word \<Rightarrow> bytes list \<Rightarrow> 128 word" where
  "nist_ghash x h [] = x"
| "nist_ghash x h (b # bs) = nist_ghash (nist_mul (x XOR be_word b) h) h bs"

text \<open>Cutting into blocks of 16 bytes, the last one filled with zeros.\<close>

function blocks16 :: "bytes \<Rightarrow> bytes list" where
  "blocks16 d = (if d = [] then [] else (take 16 d @ replicate (16 - length d) 0) # blocks16 (drop 16 d))"
  by auto
termination
  by (relation "measure length") auto

declare blocks16.simps [simp del]

lemma bit_be_fold:
  "n < 128 \<Longrightarrow> bit (foldl (\<lambda>w b. push_bit 8 w OR ucast b) w bs :: 128 word) n \<longleftrightarrow>
   (if n < 8 * length bs then bit (bs ! (length bs - 1 - n div 8)) (n mod 8) else bit w (n - 8 * length bs))"
  for bs :: bytes
proof (induction bs arbitrary: n rule: rev_induct)
  case (snoc b bs)
  show ?case
  proof (cases "n < 8")
    case True
    then show ?thesis
      using snoc.prems by (simp add: bit_simps nth_append)
  next
    case False
    then have "n div 8 = Suc ((n - 8) div 8)" "n mod 8 = (n - 8) mod 8"
      by (simp_all add: le_div_geq le_mod_geq)
    moreover have "length bs - Suc ((n - 8) div 8) < length bs" if "n - 8 < 8 * length bs"
      using that by (cases bs) simp_all
    ultimately show ?thesis
      using False snoc.prems snoc.IH [of "n - 8"]
      by (auto simp: bit_simps nth_append not_less)
  qed
qed simp

lemma bit_be_word: "length bs = 16 \<Longrightarrow> n < 128 \<Longrightarrow> bit (be_word bs) n \<longleftrightarrow> bit (bs ! (15 - n div 8)) (n mod 8)"
  by (simp add: be_word_def bit_be_fold)

lemma be_word_eqI:
  assumes "length bs = 16" "\<And>q r. q < 16 \<Longrightarrow> r < 8 \<Longrightarrow> bit (bs ! (15 - q)) r \<longleftrightarrow> bit w (8 * q + r)"
  shows "be_word bs = w"
proof (rule bit_word_eqI)
  fix n :: nat
  assume "n < LENGTH(128)"
  then show "bit (be_word bs) n \<longleftrightarrow> bit w n"
    using assms(2) [of "n div 8" "n mod 8"] by (simp add: bit_be_word assms(1) div_less_iff_less_mult)
qed

lemma be_word_bit: "length bs = 16 \<Longrightarrow> q < 16 \<Longrightarrow> r < 8 \<Longrightarrow> bit (be_word bs) (8 * q + r) \<longleftrightarrow> bit (bs ! (15 - q)) r"
  by (simp add: bit_be_word)

lemma be_word_xor: "length a = 16 \<Longrightarrow> length b = 16 \<Longrightarrow> be_word (map2 (XOR) a b) = be_word a XOR be_word b"
  by (rule be_word_eqI) (simp_all add: bit_xor_iff be_word_bit)

lemma be_word_zero: "be_word (replicate 16 0) = 0"
  by (rule be_word_eqI) simp_all

lemma nth_shift_right:
  assumes "length v = 16" "j < 16"
  shows "shift_right v ! j = (if j = 0 then drop_bit 1 (v ! 0) XOR (if v ! 15 AND 1 \<noteq> 0 then 0xE1 else 0)
    else drop_bit 1 (v ! j) OR push_bit 7 (v ! (j - 1)))"
proof -
  have down: "length (foldl (\<lambda>v j. v[j := f (v ! j) (v ! (j - 1))]) v (rev [1..<Suc k])) = length v \<and>
      foldl (\<lambda>v j. v[j := f (v ! j) (v ! (j - 1))]) v (rev [1..<Suc k]) ! i =
      (if 1 \<le> i \<and> i \<le> k then f (v ! i) (v ! (i - 1)) else v ! i)"
    if "k < length v" "i < length v" for f and v :: bytes and k i
    using that
  proof (induction k arbitrary: v)
    case (Suc k)
    define v' where "v' = v[Suc k := f (v ! Suc k) (v ! k)]"
    have "foldl (\<lambda>v j. v[j := f (v ! j) (v ! (j - 1))]) v (rev [1..<Suc (Suc k)]) =
        foldl (\<lambda>v j. v[j := f (v ! j) (v ! (j - 1))]) v' (rev [1..<Suc k])"
      by (simp add: v'_def)
    moreover have "k < length v'" "i < length v'"
      using Suc.prems by (simp_all add: v'_def)
    ultimately show ?case
      using Suc.IH [of v'] Suc.prems by (auto simp: v'_def nth_list_update le_Suc_eq)
  qed auto
  define w where "w = foldl (\<lambda>v j. v[j := drop_bit 1 (v ! j) OR push_bit 7 (v ! (j - 1))]) v (rev [1..<16])"
  have w: "length w = 16" "i < 16 \<Longrightarrow> w ! i = (if 1 \<le> i then drop_bit 1 (v ! i) OR push_bit 7 (v ! (i - 1)) else v ! i)" for i
    using down [of 15 v 0 "\<lambda>a b. drop_bit 1 a OR push_bit 7 b"] down [of 15 v i "\<lambda>a b. drop_bit 1 a OR push_bit 7 b"] assms(1)
    by (auto simp: w_def)
  show ?thesis
    unfolding shift_right_def Let_def w_def [symmetric]
    using assms(2) w by (auto simp: nth_list_update)
qed

lemma bit_E1: "r < 8 \<Longrightarrow> bit (0xE1 :: u8) r \<longleftrightarrow> r \<in> {0, 5, 6, 7}"
proof -
  assume "r < 8"
  then have "r \<in> {0, 1, 2, 3, 4, 5, 6, 7}"
    by auto
  then show ?thesis
    by auto
qed

lemma shift_right_word: "length v = 16 \<Longrightarrow> be_word (shift_right v) = nist_shift (be_word v)"
proof (rule be_word_eqI)
  fix q r :: nat
  assume v: "length v = 16" and q: "q < 16" and r: "r < 8"
  have beyond: "\<not> bit (be_word v) (8 * q + 8)" if "\<not> q < 15"
    using that bit_imp_le_length [of "be_word v" "8 * q + 8"] by auto
  have next_bit: "bit (drop_bit 1 (be_word v)) (8 * q + r) \<longleftrightarrow>
      (if r < 7 then bit (v ! (15 - q)) (r + 1) else q < 15 \<and> bit (v ! (14 - q)) 0)"
  proof (cases "r < 7")
    case True
    then show ?thesis
      using be_word_bit [OF v q, of "r + 1"] by (simp add: bit_drop_bit_eq)
  next
    case False
    then have "r = 7" using r by simp
    then have "8 * q + r + 1 = 8 * (q + 1) + 0"
      by simp
    then show ?thesis
      using False \<open>r = 7\<close> be_word_bit [OF v, of "q + 1" 0] beyond q
      by (cases "q < 15") (auto simp: bit_drop_bit_eq add.commute)
  qed
  have lsb: "bit (be_word v) 0 \<longleftrightarrow> v ! 15 AND 1 \<noteq> 0"
    using be_word_bit [OF v, of 0 0] by (simp add: and_one_eq bit_0 odd_iff_mod_2_eq_one)
  have top: "bit (push_bit 120 0xE1 :: 128 word) (8 * q + r) \<longleftrightarrow> q = 15 \<and> r \<in> {0, 5, 6, 7}"
  proof -
    have E1: "(0xE1 :: 128 word) = ucast (0xE1 :: u8)"
      by simp
    have "bit (push_bit 120 0xE1 :: 128 word) (8 * q + r) \<longleftrightarrow>
        120 \<le> 8 * q + r \<and> 8 * q + r < 128 \<and> bit (0xE1 :: u8) (8 * q + r - 120)"
      unfolding E1 bit_push_bit_iff bit_ucast_iff using u8_high [of "8 * q + r - 120" "0xE1"] by auto
    also have "\<dots> \<longleftrightarrow> q = 15 \<and> bit (0xE1 :: u8) r"
      using q r by (cases "q = 15") auto
    finally show ?thesis
      using r by (simp only: bit_E1)
  qed
  define E :: "128 word" where "E = push_bit 120 0xE1"
  show "bit (shift_right v ! (15 - q)) r \<longleftrightarrow> bit (nist_shift (be_word v)) (8 * q + r)"
    unfolding nist_shift_def lsb E_def [symmetric]
    using next_bit top [folded E_def] bit_E1 [OF r] q r v by (auto simp: nth_shift_right bit_simps)
qed simp_all

lemma ghash_fold_word:
  assumes "length x = 16" "length z = 16" "length v = 16" "\<forall>i\<in>set is. i < 128"
  shows "be_word (fst (foldl (ghash_step x) (z, v) is)) = fst (foldl (nist_step (be_word x)) (be_word z, be_word v) is)"
  using assms(2-4)
proof (induction "is" arbitrary: z v)
  case (Cons i js)
  have "127 - (8 * a + b) = 8 * (15 - a) + (7 - b)" if "a < 16" "b < 8" for a b :: nat
    using that by simp
  moreover have "i div 8 < 16" "i mod 8 < 8"
    using Cons.prems(3) by (simp_all add: div_less_iff_less_mult)
  ultimately have "127 - (8 * (i div 8) + i mod 8) = 8 * (15 - i div 8) + (7 - i mod 8)"
    by blast
  then have pos: "127 - i = 8 * (15 - i div 8) + (7 - i mod 8)"
    by simp
  have "bit (be_word x) (127 - i) \<longleftrightarrow> bit (x ! (15 - (15 - i div 8))) (7 - i mod 8)"
    unfolding pos by (rule be_word_bit [OF assms(1)]) simp_all
  with \<open>i div 8 < 16\<close> have "bit (be_word x) (127 - i) \<longleftrightarrow> drop_bit (7 - i mod 8) (x ! (i div 8)) AND 1 \<noteq> 0"
    by (simp add: bit_iff_odd_drop_bit [of "x ! (i div 8)"] and_one_eq odd_iff_mod_2_eq_one)
  with Cons show ?case
    by (simp add: ghash_step_def nist_step_def shift_right_word be_word_xor)
qed simp

lemma ghash_mul_word: "length x = 16 \<Longrightarrow> length y = 16 \<Longrightarrow> be_word (ghash_mul x y) = nist_mul (be_word x) (be_word y)"
  unfolding ghash_mul_def nist_mul_def using ghash_fold_word [of x "replicate 16 0" y "[0..<128]"]
  by (simp add: be_word_zero)

text \<open>
  C30: the hash of Galois counter mode is the standard's. The byte-wise shifts, conditional sums
  and block copies of the code compute, on 128-bit strings, the standard's block product and its
  running hash over the zero-filled blocks of the data, for data of every length.
\<close>

theorem ghash_is_standard:
  assumes "length x = 16" "length h = 16"
  shows "be_word (ghash_update x h d) = nist_ghash (be_word x) (be_word h) (blocks16 d)"
  using assms
proof (induction x h d rule: ghash_update.induct)
  case (1 x h d)
  show ?case
  proof (cases "d = []")
    case True
    then show ?thesis
      by (simp add: ghash_update.simps [of x h] blocks16.simps [of "[]"])
  next
    case False
    define n where "n = (if length d < 16 then length d else 16)"
    define b where "b = take 16 d @ replicate (16 - length d) 0"
    have n: "take n d = take 16 d" "drop n d = drop 16 d"
      by (simp_all add: n_def)
    have blit: "blit 0 (take n d) (replicate 16 0) = b"
      by (simp add: b_def n blit_def)
    have b: "length b = 16"
      by (simp add: b_def)
    have step: "ghash_update x h d = ghash_update (ghash_mul (map2 (XOR) x b) h) h (drop 16 d)"
      using False by (subst ghash_update.simps) (simp only: if_False Let_def n_def [symmetric] blit n(2))
    have "be_word (ghash_update (ghash_mul (map2 (XOR) x b) h) h (drop n d)) =
        nist_ghash (be_word (ghash_mul (map2 (XOR) x b) h)) (be_word h) (blocks16 (drop n d))"
      by (rule "1.IH" [OF False n_def blit [symmetric] refl]) (simp_all add: length_ghash_mul "1.prems")
    then show ?thesis
      using "1.prems" b False unfolding step n
      by (simp add: ghash_mul_word be_word_xor blocks16.simps [of d] b_def [symmetric])
  qed
qed

lemma ghash_is_standard_witness:
  "be_word (ghash_update (replicate 16 0) (replicate 16 9) [1, 2, 3]) =
     nist_ghash 0 (be_word (replicate 16 9)) (blocks16 [1, 2, 3])"
  using ghash_is_standard [of "replicate 16 0" "replicate 16 9" "[1, 2, 3]"] by (simp add: be_word_zero)

end
