(* ===== verification/Bandwidth.thy ===== *)
theory Bandwidth
  imports Peer
begin

text \<open>
  The congestion estimator, \<open>bandwidth.cpp\<close>: an additive-increase, multiplicative-decrease rate
  driven by the peer's reports. The clock is an argument, \<open>double\<close> is \<open>Binary64\<close>, and the time
  point that was never set is 0. The rate stays between its bounds, changes by bounded factors,
  and recovers to its seed.
\<close>

section \<open>State\<close>

definition kMinBtlBps :: u64 where "kMinBtlBps = 12500"
definition kCongestFactor :: double where "kCongestFactor = rnd64 (1 / 2)"
definition kCongestTier1Factor :: double where "kCongestTier1Factor = rnd64 (90 / 100)"
definition kCongestTier2Factor :: double where "kCongestTier2Factor = rnd64 (75 / 100)"
definition kCongestTier3Factor :: double where "kCongestTier3Factor = rnd64 (65 / 100)"
definition kCongestTier4Factor :: double where "kCongestTier4Factor = rnd64 (50 / 100)"
definition kEvacTriggerMaxFactor :: double where "kEvacTriggerMaxFactor = rnd64 (80 / 100)"
definition kCongestTier2Threshold :: double where "kCongestTier2Threshold = rnd64 (5 / 100)"
definition kCongestTier3Threshold :: double where "kCongestTier3Threshold = rnd64 (20 / 100)"
definition kCongestTier4Threshold :: double where "kCongestTier4Threshold = rnd64 (50 / 100)"
definition kRecoverFactor :: double where "kRecoverFactor = rnd64 (15 / 10)"
definition kDelayThresholdMs :: double where "kDelayThresholdMs = 20"
definition kLateThreshold :: double where "kLateThreshold = rnd64 (2 / 100)"
definition kCeThreshold :: double where "kCeThreshold = rnd64 (1 / 100)"
definition kRecoverDelayMs :: double where "kRecoverDelayMs = 10"
definition kRecoverLateThreshold :: double where "kRecoverLateThreshold = rnd64 (5 / 1000)"
definition kProbeExtraParity :: u32 where "kProbeExtraParity = 2"

text \<open>\<open>std::numeric_limits<double>::max()\<close>.\<close>

definition double_max :: double where "double_max = (2 ^ 53 - 1) * 2 ^ 971"

record bandwidth_estimator =
  bw_btl :: u64
  bw_seed :: u64
  bw_floor :: u64
  bw_rt_prop_us :: u64
  bw_delay_ewma :: double
  bw_recover_step :: nat
  bw_fec_probe_extra :: u32
  bw_congested :: bool
  bw_rtt :: int
  bw_rt_prop :: int
  bw_app_limited :: bool
  bw_last_congest_at :: time
  bw_last_congest_factor :: double
  bw_seed_calibrated :: bool
  bw_report_stall :: bool

definition new_estimator :: "u64 \<Rightarrow> bandwidth_estimator" where
  "new_estimator initial =
    (let btl = max (if initial = 0 then 1 else initial) kMinBtlBps
     in \<lparr> bw_btl = btl, bw_seed = btl, bw_floor = 1024, bw_rt_prop_us = 0, bw_delay_ewma = 0, bw_recover_step = 0,
       bw_fec_probe_extra = 0, bw_congested = False, bw_rtt = 0, bw_rt_prop = 0, bw_app_limited = False,
       bw_last_congest_at = 0, bw_last_congest_factor = 1, bw_seed_calibrated = False, bw_report_stall = False \<rparr>)"

text \<open>\<open>on_ack\<close>; the number of bytes is not used. Times are in microseconds.\<close>

definition bw_on_ack :: "int \<Rightarrow> bandwidth_estimator \<Rightarrow> bandwidth_estimator" where
  "bw_on_ack rtt e =
    (if rtt \<le> 0 then e
     else
       let e = (if bw_rt_prop e = 0 \<or> rtt < bw_rt_prop e then e\<lparr> bw_rt_prop := rtt \<rparr> else e)
       in if bw_rtt e = 0 then e\<lparr> bw_rtt := rtt \<rparr> else e\<lparr> bw_rtt := (bw_rtt e * 7 + rtt) div 8 \<rparr>)"

section \<open>Reports\<close>

text \<open>The arguments of \<open>on_report\<close>; the round-trip time is not used.\<close>

record report_signals =
  sg_p50_ms :: u32
  sg_late :: double
  sg_loss :: double
  sg_ce :: double
  sg_pacer_limited :: bool
  sg_sustained_overload :: bool
  sg_in_evac_window :: bool
  sg_recv_rate :: double

definition track_delay :: "u32 \<Rightarrow> bandwidth_estimator \<Rightarrow> bandwidth_estimator" where
  "track_delay p50_ms e =
    (let p50_us = ucast p50_ms * 1000 :: u64;
         e = (if bw_rt_prop_us e = 0 \<or> p50_us < bw_rt_prop_us e then e\<lparr> bw_rt_prop_us := p50_us \<rparr> else e);
         q_ms = (if p50_us > bw_rt_prop_us e then fdiv (fof (uint (p50_us - bw_rt_prop_us e))) 1000 else 0)
     in e\<lparr> bw_delay_ewma := fadd (fmul (rnd64 (7 / 10)) (bw_delay_ewma e)) (fmul (rnd64 (3 / 10)) q_ms) \<rparr>)"

definition is_congested :: "report_signals \<Rightarrow> bandwidth_estimator \<Rightarrow> bool" where
  "is_congested s e \<longleftrightarrow> bw_delay_ewma e > kDelayThresholdMs \<and> \<not> sg_pacer_limited s \<or>
     \<not> sg_pacer_limited s \<and> (sg_late s > kLateThreshold \<or> sg_loss s > kLateThreshold) \<or> sg_ce s > kCeThreshold"

definition is_recovered :: "report_signals \<Rightarrow> bandwidth_estimator \<Rightarrow> bool" where
  "is_recovered s e \<longleftrightarrow> bw_delay_ewma e < kRecoverDelayMs \<and>
     (if sg_pacer_limited s then sg_ce s < kCeThreshold
      else sg_late s < kRecoverLateThreshold \<and> sg_loss s < kRecoverLateThreshold) \<and> \<not> sg_pacer_limited s"

definition congest_factor :: "double \<Rightarrow> double" where
  "congest_factor strength =
    (if strength \<ge> kCongestTier4Threshold then kCongestTier4Factor
     else if strength \<ge> kCongestTier3Threshold then kCongestTier3Factor
     else if strength \<ge> kCongestTier2Threshold then kCongestTier2Factor
     else if strength \<ge> kCeThreshold then kCongestTier1Factor
     else kCongestTier1Factor)"

definition scaled_down :: "u64 \<Rightarrow> double \<Rightarrow> u64" where
  "scaled_down btl factor = max (word_of_int (ftrunc (fmul (fof (uint btl)) factor))) kMinBtlBps"

definition slow_down :: "report_signals \<Rightarrow> time \<Rightarrow> bandwidth_estimator \<Rightarrow> bandwidth_estimator" where
  "slow_down s now e =
    (let strength = (if sg_pacer_limited s then sg_ce s else max (max (sg_late s) (sg_loss s)) (sg_ce s));
         factor = congest_factor strength;
         e = e\<lparr> bw_btl := scaled_down (bw_btl e) factor \<rparr>;
         e = (if factor \<le> kEvacTriggerMaxFactor then e\<lparr> bw_last_congest_at := now, bw_last_congest_factor := factor \<rparr> else e)
     in e\<lparr> bw_recover_step := 0, bw_fec_probe_extra := 0 \<rparr>)"

definition raised :: "u64 \<Rightarrow> u64 \<Rightarrow> double \<Rightarrow> u64" where
  "raised btl seed recv_cap =
    (let btl = word_of_int (ftrunc (min (fmul (fof (uint btl)) kRecoverFactor) (min (fof (uint seed)) recv_cap)))
     in if btl < kMinBtlBps then kMinBtlBps else btl)"

definition recv_cap_of :: "report_signals \<Rightarrow> bandwidth_estimator \<Rightarrow> double" where
  "recv_cap_of s e =
    (if sg_recv_rate s > 0 \<and> \<not> sg_pacer_limited s
     then max (fof (uint (bw_btl e))) (fmul (sg_recv_rate s) (rnd64 (12 / 10))) else double_max)"

definition recover :: "report_signals \<Rightarrow> bandwidth_estimator \<Rightarrow> bandwidth_estimator" where
  "recover s e =
    (let recv_cap = recv_cap_of s e
     in if bw_recover_step e = 0 then
          e\<lparr> bw_btl := raised (bw_btl e) (bw_seed e) recv_cap,
             bw_fec_probe_extra := (if sg_ce s < kCeThreshold then kProbeExtraParity else 0), bw_recover_step := 1 \<rparr>
        else if bw_recover_step e = 1 then
          e\<lparr> bw_btl := raised (bw_btl e) (bw_seed e) recv_cap, bw_fec_probe_extra := 0, bw_recover_step := 2 \<rparr>
        else e\<lparr> bw_recover_step := 0 \<rparr>)"

definition bw_on_report :: "report_signals \<Rightarrow> time \<Rightarrow> bandwidth_estimator \<Rightarrow> bandwidth_estimator" where
  "bw_on_report s now e =
    (let e = track_delay (sg_p50_ms s) (e\<lparr> bw_report_stall := False \<rparr>);
         congested = is_congested s e;
         recovered = is_recovered s e;
         e = e\<lparr> bw_congested := congested \<rparr>
     in if congested then
          (if sg_in_evac_window s then e else if sg_sustained_overload s then slow_down s now e else e)
        else if \<not> sg_in_evac_window s \<and> (sg_pacer_limited s \<or> recovered) then recover s e
        else e)"

section \<open>Other operations\<close>

definition bw_on_report_timeout :: "bandwidth_estimator \<Rightarrow> bandwidth_estimator" where
  "bw_on_report_timeout e =
    (if bw_report_stall e then e
     else e\<lparr> bw_report_stall := True, bw_btl := scaled_down (bw_btl e) kCongestFactor,
       bw_recover_step := 0, bw_fec_probe_extra := 0 \<rparr>)"

definition bw_set_seed_and_clamp :: "u64 \<Rightarrow> bandwidth_estimator \<Rightarrow> bandwidth_estimator" where
  "bw_set_seed_and_clamp probe_bps e =
    (if bw_seed_calibrated e \<or> probe_bps = 0 then e
     else
       let e = e\<lparr> bw_seed_calibrated := True \<rparr>;
           cap_b = probe_bps div 8;
           cap_b = (if cap_b = 0 then 1 else cap_b)
       in if bw_btl e > cap_b then e\<lparr> bw_btl := cap_b \<rparr> else e)"

definition bw_bytes_per_second :: "bandwidth_estimator \<Rightarrow> u64" where
  "bw_bytes_per_second e = max (bw_floor e) (bw_btl e)"

definition bw_delay_congested :: "bandwidth_estimator \<Rightarrow> bool" where
  "bw_delay_congested e \<longleftrightarrow> bw_delay_ewma e > kDelayThresholdMs"

section \<open>Scaling a rate\<close>

lemma constant_values:
  "kRecoverFactor = 3 / 2" "kCongestFactor = 1 / 2" "kCongestTier2Factor = 3 / 4" "kCongestTier4Factor = 1 / 2"
  "1 / 2 \<le> kCongestTier1Factor" "kCongestTier1Factor \<le> 1" "1 / 2 \<le> kCongestTier3Factor" "kCongestTier3Factor \<le> 1"
  by code_simp+

lemma congest_factor_bounds: "1 / 2 \<le> congest_factor x" "congest_factor x \<le> 1"
  using constant_values by (auto simp: congest_factor_def)

text \<open>The rates the code meets are far below the limit of exact doubles.\<close>

definition rate_ok :: "u64 \<Rightarrow> bool" where
  "rate_ok r \<longleftrightarrow> uint r \<le> 2 ^ 52"

lemma rate_exact: "rate_ok r \<Longrightarrow> fof (uint r) = of_int (uint r)"
  by (simp add: rate_ok_def fof_exact)

lemma uint_word_of_range: "0 \<le> k \<Longrightarrow> k \<le> 2 ^ 53 \<Longrightarrow> uint (word_of_int k :: u64) = k"
  by (simp add: uint_word_of_int_eq take_bit_int_eq_self)

lemma kMin: "uint kMinBtlBps = 12500"
  by (simp add: kMinBtlBps_def)

lemma uint_max: "uint (max a b) = max (uint a) (uint b)"
  by (simp add: max_def word_le_def)

lemma half_bounds: "2 * (x div 2) \<le> x" "x \<le> 2 * (x div 2) + 1" "0 \<le> x \<Longrightarrow> 0 \<le> x div 2"
  "2 * (x + x div 2) \<le> 3 * x" for x :: int
  by presburger+

lemma scaled_down_bounds:
  assumes "rate_ok r" "1 / 2 \<le> f" "f \<le> 1"
  shows "12500 \<le> uint (scaled_down r f)" "uint (scaled_down r f) \<le> max (uint r) 12500" "uint r \<le> 2 * uint (scaled_down r f) + 1"
proof -
  define k where "k = ftrunc (fmul (fof (uint r)) f)"
  have r: "fof (uint r) = of_int (uint r)" "uint r \<le> 2 ^ 53" "0 \<le> uint r"
    using assms(1) unfolding rate_ok_def by (simp_all add: fof_exact)
  have up: "k \<le> uint r"
    unfolding k_def fmul_def r(1) using r(2,3) assms(3) by (intro ftrunc_le r64.rnd_scale_le)
  have half: "of_int (uint r div 2) \<le> of_int (uint r) * f"
  proof -
    have "of_int (2 * (uint r div 2)) \<le> (of_int (uint r) :: rat)"
      by (simp only: of_int_le_iff)
    then have "of_int (uint r div 2) \<le> of_int (uint r) * (1 / 2 :: rat)"
      by simp
    also have "\<dots> \<le> of_int (uint r) * f"
      by (rule mult_left_mono [OF assms(2)]) (simp only: of_int_0_le_iff uint_ge_0)
    finally show ?thesis .
  qed
  have "uint r div 2 \<le> k"
    unfolding k_def fmul_def r(1) using half r(2,3) by (intro ftrunc_ge r64.rnd_ge_int) (auto simp: abs_if pos_imp_zdiv_nonneg_iff)
  moreover have "uint (word_of_int k :: u64) = k"
    using up r(2) calculation half_bounds(3) [OF r(3)] by (intro uint_word_of_range) linarith+
  ultimately show "12500 \<le> uint (scaled_down r f)" "uint (scaled_down r f) \<le> max (uint r) 12500" "uint r \<le> 2 * uint (scaled_down r f) + 1"
    using up unfolding scaled_down_def k_def [symmetric] uint_max kMin by auto
qed

lemma raised_bounds:
  assumes "rate_ok r" "rate_ok seed" "uint r \<le> uint seed" "12500 \<le> uint seed" "of_int (uint r) \<le> c"
  shows "12500 \<le> uint (raised r seed c)" "uint r \<le> uint (raised r seed c)" "uint (raised r seed c) \<le> uint seed"
    "uint (raised r seed c) = 12500 \<or> 2 * uint (raised r seed c) \<le> 3 * uint r + 1"
    "t \<le> uint seed \<Longrightarrow> of_int t \<le> c \<Longrightarrow> min t (uint r + uint r div 2) \<le> uint (raised r seed c)"
    "uint (raised r seed c) \<le> max 12500 (ftrunc (min (of_int (uint seed)) c))"
proof -
  define x where "x = rnd64 (of_int (uint r) * (3 / 2))"
  define k where "k = ftrunc (min x (min (of_int (uint seed)) c))"
  have r: "uint r \<le> 2 ^ 52" "0 \<le> uint r" "uint seed \<le> 2 ^ 52"
    using assms(1,2) by (simp_all add: rate_ok_def)
  have div_nonneg: "0 \<le> uint r div 2" "0 \<le> uint r + uint r div 2" "0 \<le> (3 * uint r + 1) div 2"
    using r(2) by (simp_all add: pos_imp_zdiv_nonneg_iff)
  have "of_int (uint r + uint r div 2) \<le> (of_int (uint r) * (3 / 2) :: rat)"
  proof -
    have "of_int (2 * (uint r + uint r div 2)) \<le> (of_int (3 * uint r) :: rat)"
      unfolding of_int_le_iff by (rule half_bounds)
    then show ?thesis by simp
  qed
  then have lower: "of_int (uint r + uint r div 2) \<le> x"
    unfolding x_def using r div_nonneg by (intro r64.rnd_ge_int) simp_all
  have "(of_int (uint r) * (3 / 2) :: rat) \<le> of_int ((3 * uint r + 1) div 2)"
  proof -
    have "of_int (3 * uint r) \<le> (of_int (2 * ((3 * uint r + 1) div 2)) :: rat)"
      by (simp only: of_int_le_iff)
    then show ?thesis by simp
  qed
  then have upper: "x \<le> of_int ((3 * uint r + 1) div 2)"
    unfolding x_def using r div_nonneg by (intro r64.rnd_le_int) simp_all
  have k: "uint r \<le> k" "k \<le> uint seed" "k \<le> (3 * uint r + 1) div 2"
  proof -
    have "of_int (uint r) \<le> (of_int (uint r + uint r div 2) :: rat)"
      using div_nonneg by (simp only: of_int_le_iff)
    then have "of_int (uint r) \<le> x"
      using lower by (rule order_trans)
    moreover have "of_int (uint r) \<le> (of_int (uint seed) :: rat)"
      using assms(3) by (simp only: of_int_le_iff)
    ultimately show "uint r \<le> k"
      unfolding k_def using assms(5) by (intro ftrunc_ge) (simp only: min.bounded_iff simp_thms)
    show "k \<le> uint seed" "k \<le> (3 * uint r + 1) div 2"
      unfolding k_def using upper by (intro ftrunc_le; simp only: min_le_iff_disj order_refl simp_thms)+
  qed
  have word: "uint (word_of_int k :: u64) = k"
  proof (rule uint_word_of_range)
    show "0 \<le> k"
      using k(1) r(2) by (rule order_trans [rotated])
    show "k \<le> 2 ^ 53"
      using k(2) r(3) by simp
  qed
  have eq: "uint (raised r seed c) = max k 12500"
    unfolding raised_def Let_def fmul_def rate_exact [OF assms(1)] rate_exact [OF assms(2)] constant_values
      x_def [symmetric] k_def [symmetric] by (simp add: word_less_def word kMin max_def)
  show "12500 \<le> uint (raised r seed c)" "uint r \<le> uint (raised r seed c)" "uint (raised r seed c) \<le> uint seed"
    "uint (raised r seed c) = 12500 \<or> 2 * uint (raised r seed c) \<le> 3 * uint r + 1"
    using k assms(4) unfolding eq by auto
  show "min t (uint r + uint r div 2) \<le> uint (raised r seed c)" if "t \<le> uint seed" "of_int t \<le> c"
  proof -
    have "min t (uint r + uint r div 2) \<le> k"
      unfolding k_def
    proof (rule ftrunc_ge)
      have "of_int (min t (uint r + uint r div 2)) \<le> (of_int (uint r + uint r div 2) :: rat)"
        "of_int (min t (uint r + uint r div 2)) \<le> (of_int t :: rat)" "(of_int t :: rat) \<le> of_int (uint seed)"
        unfolding of_int_le_iff by (rule min.cobounded2, rule min.cobounded1, rule that)
      then show "of_int (min t (uint r + uint r div 2)) \<le> min x (min (of_int (uint seed)) c)"
        using lower that by (auto simp only: min.bounded_iff intro: order_trans)
    qed
    then show ?thesis
      unfolding eq by simp
  qed
  have "k \<le> ftrunc (min (of_int (uint seed)) c)"
    unfolding k_def by (rule ftrunc_mono [OF min.cobounded2])
  then show "uint (raised r seed c) \<le> max 12500 (ftrunc (min (of_int (uint seed)) c))"
    unfolding eq by simp
qed

section \<open>The rate stays in bounds\<close>

datatype bw_event = Ack_Sample int | Peer_Report report_signals time | Report_Timeout | Calibrate u64

fun bw_step :: "bandwidth_estimator \<Rightarrow> bw_event \<Rightarrow> bandwidth_estimator" where
  "bw_step e (Ack_Sample rtt) = bw_on_ack rtt e"
| "bw_step e (Peer_Report s now) = bw_on_report s now e"
| "bw_step e Report_Timeout = bw_on_report_timeout e"
| "bw_step e (Calibrate probe) = bw_set_seed_and_clamp probe e"

definition bw_ok :: "u64 \<Rightarrow> bandwidth_estimator \<Rightarrow> bool" where
  "bw_ok seed e \<longleftrightarrow> bw_seed e = seed \<and> rate_ok seed \<and> 12500 \<le> uint seed \<and> uint (bw_btl e) \<le> uint seed \<and>
     bw_recover_step e \<le> 2 \<and> bw_fec_probe_extra e \<in> {0, 2}"

lemma bw_ok_rate: "bw_ok seed e \<Longrightarrow> rate_ok (bw_btl e)"
  by (auto simp: bw_ok_def rate_ok_def)

lemma track_delay_fields [simp]:
  "bw_btl (track_delay p e) = bw_btl e" "bw_seed (track_delay p e) = bw_seed e"
  "bw_recover_step (track_delay p e) = bw_recover_step e" "bw_fec_probe_extra (track_delay p e) = bw_fec_probe_extra e"
  by (simp_all add: track_delay_def Let_def)

lemma rate_below_max: "rate_ok r \<Longrightarrow> of_int (uint r) \<le> double_max"
proof -
  assume "rate_ok r"
  then have "(of_int (uint r) :: rat) \<le> of_int (2 ^ 52)"
    unfolding rate_ok_def of_int_le_iff .
  also have "\<dots> \<le> double_max"
    by (simp add: double_max_def)
  finally show ?thesis .
qed

lemma recv_cap_ge: "rate_ok (bw_btl e) \<Longrightarrow> of_int (uint (bw_btl e)) \<le> recv_cap_of s e"
  using rate_below_max [of "bw_btl e"] rate_exact [of "bw_btl e"] by (auto simp: recv_cap_of_def)

text \<open>What each operation does to the rate.\<close>

lemma slow_down_fields:
  "\<exists>f. bw_btl (slow_down s now e) = scaled_down (bw_btl e) f \<and> 1 / 2 \<le> f \<and> f \<le> 1"
  "bw_seed (slow_down s now e) = bw_seed e" "bw_recover_step (slow_down s now e) = 0" "bw_fec_probe_extra (slow_down s now e) = 0"
  using congest_factor_bounds by (auto simp: slow_down_def Let_def)

lemma recover_fields:
  "bw_btl (recover s e) = (if bw_recover_step e \<le> 1 then raised (bw_btl e) (bw_seed e) (recv_cap_of s e) else bw_btl e)"
  "bw_seed (recover s e) = bw_seed e" "bw_recover_step (recover s e) \<le> 2"
  "bw_fec_probe_extra e \<in> {0, 2} \<Longrightarrow> bw_fec_probe_extra (recover s e) \<in> {0, 2}"
  by (auto simp: recover_def Let_def kProbeExtraParity_def)

lemma on_report_cases:
  obtains c where "bw_on_report s now e = (track_delay (sg_p50_ms s) (e\<lparr> bw_report_stall := False \<rparr>))\<lparr> bw_congested := c \<rparr>"
  | c where "bw_on_report s now e = slow_down s now ((track_delay (sg_p50_ms s) (e\<lparr> bw_report_stall := False \<rparr>))\<lparr> bw_congested := c \<rparr>)"
    "\<not> sg_in_evac_window s"
  | c where "bw_on_report s now e = recover s ((track_delay (sg_p50_ms s) (e\<lparr> bw_report_stall := False \<rparr>))\<lparr> bw_congested := c \<rparr>)"
    "\<not> sg_in_evac_window s"
proof -
  define e0 where "e0 = track_delay (sg_p50_ms s) (e\<lparr> bw_report_stall := False \<rparr>)"
  note * = bw_on_report_def [of s now e, unfolded Let_def, folded e0_def]
  consider "is_congested s e0" "\<not> sg_in_evac_window s" "sg_sustained_overload s"
    | "\<not> is_congested s e0" "\<not> sg_in_evac_window s" "sg_pacer_limited s \<or> is_recovered s e0"
    | "bw_on_report s now e = e0\<lparr> bw_congested := is_congested s e0 \<rparr>"
    unfolding * by (cases "is_congested s e0"; cases "sg_in_evac_window s"; cases "sg_sustained_overload s";
      cases "sg_pacer_limited s \<or> is_recovered s e0") auto
  then show ?thesis
  proof (cases)
    case 1
    then show ?thesis
      by (intro that(2) [folded e0_def]) (simp_all only: * simp_thms if_True if_False)
  next
    case 2
    then show ?thesis
      by (intro that(3) [folded e0_def]) (simp_all only: * simp_thms if_True if_False)
  next
    case 3
    then show ?thesis
      by (rule that(1) [folded e0_def])
  qed
qed

text \<open>
  One report at most halves the rate (rounding down) and raises it by at most a half (rounding
  up), except that a rate below the floor may be lifted to the floor.
\<close>

definition rate_step_ok :: "u64 \<Rightarrow> u64 \<Rightarrow> bool" where
  "rate_step_ok r r' \<longleftrightarrow> uint r \<le> 2 * uint r' + 1 \<and> (uint r' \<le> 12500 \<or> 2 * uint r' \<le> 3 * uint r + 1)"

lemma rate_step_refl: "rate_step_ok r r"
  unfolding rate_step_ok_def using uint_ge_0 [of r] by linarith

lemma bw_on_report_ok:
  assumes "bw_ok seed e"
  shows "bw_ok seed (bw_on_report s now e)" "rate_step_ok (bw_btl e) (bw_btl (bw_on_report s now e))"
    "sg_in_evac_window s \<Longrightarrow> bw_btl (bw_on_report s now e) = bw_btl e"
    "12500 \<le> uint (bw_btl e) \<Longrightarrow> 12500 \<le> uint (bw_btl (bw_on_report s now e))"
proof -
  note rate = bw_ok_rate [OF assms]
  have ok: "bw_seed e = seed" "rate_ok seed" "12500 \<le> uint seed" "uint (bw_btl e) \<le> uint seed"
    "bw_recover_step e \<le> 2" "bw_fec_probe_extra e \<in> {0, 2}"
    using assms by (simp_all add: bw_ok_def)
  have "bw_ok seed (bw_on_report s now e) \<and> rate_step_ok (bw_btl e) (bw_btl (bw_on_report s now e)) \<and>
      (sg_in_evac_window s \<longrightarrow> bw_btl (bw_on_report s now e) = bw_btl e) \<and>
      (12500 \<le> uint (bw_btl e) \<longrightarrow> 12500 \<le> uint (bw_btl (bw_on_report s now e)))"
  proof (cases rule: on_report_cases [of s now e])
    case (1 c)
    then show ?thesis
      using assms by (simp add: bw_ok_def rate_step_refl)
  next
    case (2 c)
    define e1 where "e1 = (track_delay (sg_p50_ms s) (e\<lparr> bw_report_stall := False \<rparr>))\<lparr> bw_congested := c \<rparr>"
    have e1: "bw_btl e1 = bw_btl e" "bw_seed e1 = seed"
      by (simp_all add: e1_def ok)
    obtain f where f: "bw_btl (slow_down s now e1) = scaled_down (bw_btl e) f" "1 / 2 \<le> f" "f \<le> 1"
      using slow_down_fields(1) [of s now e1] by (auto simp: e1)
    note b = scaled_down_bounds [OF rate f(2,3)]
    have "bw_ok seed (slow_down s now e1)"
      using b ok by (simp add: bw_ok_def slow_down_fields e1 f(1))
    moreover have "rate_step_ok (bw_btl e) (scaled_down (bw_btl e) f)"
      using b uint_ge_0 [of "bw_btl e"] unfolding rate_step_ok_def by linarith
    ultimately show ?thesis
      using 2 b(1) by (simp add: e1_def [symmetric] f(1))
  next
    case (3 c)
    define e1 where "e1 = (track_delay (sg_p50_ms s) (e\<lparr> bw_report_stall := False \<rparr>))\<lparr> bw_congested := c \<rparr>"
    have e1: "bw_btl e1 = bw_btl e" "bw_seed e1 = seed" "bw_fec_probe_extra e1 \<in> {0, 2}"
      using ok by (simp_all add: e1_def)
    have cap: "of_int (uint (bw_btl e)) \<le> recv_cap_of s e1"
      using recv_cap_ge [of e1 s] rate by (simp add: e1)
    note b = raised_bounds(1-4) [OF rate ok(2,4,3) cap]
    have r: "bw_btl (recover s e1) = raised (bw_btl e) seed (recv_cap_of s e1) \<or> bw_btl (recover s e1) = bw_btl e"
      by (simp add: recover_fields(1) e1)
    then have "bw_ok seed (recover s e1)"
      using b ok recover_fields(3) [of s e1] recover_fields(4) [OF e1(3)] by (auto simp: bw_ok_def recover_fields(2) e1)
    moreover have "rate_step_ok (bw_btl e) (raised (bw_btl e) seed (recv_cap_of s e1))"
      using b uint_ge_0 [of "bw_btl e"] unfolding rate_step_ok_def by linarith
    ultimately show ?thesis
      using 3 r b(1) by (auto simp: e1_def [symmetric] rate_step_refl)
  qed
  then show "bw_ok seed (bw_on_report s now e)" "rate_step_ok (bw_btl e) (bw_btl (bw_on_report s now e))"
    "sg_in_evac_window s \<Longrightarrow> bw_btl (bw_on_report s now e) = bw_btl e"
    "12500 \<le> uint (bw_btl e) \<Longrightarrow> 12500 \<le> uint (bw_btl (bw_on_report s now e))"
    by simp_all
qed

lemma bw_step_ok: "bw_ok seed e \<Longrightarrow> bw_ok seed (bw_step e ev)"
proof (cases ev)
  case (Ack_Sample rtt)
  then show "bw_ok seed e \<Longrightarrow> ?thesis"
    by (simp add: bw_ok_def bw_on_ack_def Let_def)
next
  case (Peer_Report s now)
  then show "bw_ok seed e \<Longrightarrow> ?thesis"
    by (simp add: bw_on_report_ok)
next
  case Report_Timeout
  assume ok: "bw_ok seed e"
  note b = scaled_down_bounds [OF bw_ok_rate [OF ok], of kCongestFactor]
  have "max (uint (bw_btl e)) 12500 \<le> uint seed"
    using ok by (simp add: bw_ok_def)
  with b(2) [unfolded constant_values] have "uint (scaled_down (bw_btl e) (1 / 2)) \<le> uint seed"
    by (rule order_trans) simp_all
  then show ?thesis
    using ok Report_Timeout by (simp add: bw_ok_def bw_on_report_timeout_def constant_values)
next
  case (Calibrate probe)
  then show "bw_ok seed e \<Longrightarrow> ?thesis"
    by (auto simp: bw_ok_def bw_set_seed_and_clamp_def Let_def word_less_def)
qed

lemma bw_run_ok: "bw_ok seed e \<Longrightarrow> bw_ok seed (foldl bw_step e evs)"
  by (induction evs arbitrary: e) (simp_all add: bw_step_ok)

lemma new_estimator_ok: "rate_ok (max initial kMinBtlBps) \<Longrightarrow> bw_ok (max initial kMinBtlBps) (new_estimator initial)"
  by (auto simp: bw_ok_def new_estimator_def Let_def uint_max kMin max_def kMinBtlBps_def word_le_def)

text \<open>Only calibration takes the rate below the floor.\<close>

definition floor_ok :: "bandwidth_estimator \<Rightarrow> bool" where
  "floor_ok e \<longleftrightarrow> bw_seed_calibrated e \<or> 12500 \<le> uint (bw_btl e)"

lemma on_report_calibrated: "bw_seed_calibrated (bw_on_report s now e) = bw_seed_calibrated e"
  by (cases rule: on_report_cases [of s now e]) (simp_all add: track_delay_def slow_down_def recover_def Let_def)

lemma bw_step_floor_ok:
  assumes "bw_ok seed e" "floor_ok e"
  shows "floor_ok (bw_step e ev)"
proof (cases ev)
  case (Ack_Sample rtt)
  with assms(2) show ?thesis
    by (simp add: floor_ok_def bw_on_ack_def Let_def)
next
  case (Peer_Report s now)
  with assms bw_on_report_ok(4) [OF assms(1)] show ?thesis
    by (auto simp: floor_ok_def on_report_calibrated)
next
  case Report_Timeout
  with assms scaled_down_bounds(1) [OF bw_ok_rate [OF assms(1)], of kCongestFactor] show ?thesis
    by (auto simp: floor_ok_def bw_on_report_timeout_def constant_values)
next
  case (Calibrate probe)
  with assms(2) show ?thesis
    by (auto simp: floor_ok_def bw_set_seed_and_clamp_def Let_def)
qed

lemma bw_run_floor_ok: "bw_ok seed e \<Longrightarrow> floor_ok e \<Longrightarrow> floor_ok (foldl bw_step e evs)"
  by (induction evs arbitrary: e) (simp_all add: bw_step_ok bw_step_floor_ok)

lemma new_estimator_floor_ok: "floor_ok (new_estimator initial)"
  by (simp add: floor_ok_def new_estimator_def Let_def uint_max kMin)

text \<open>
  C31: the rate is controlled in bounded steps. Whatever the peer reports and whatever else
  happens, the rate never exceeds the configured one and is below the floor of 12500 bytes per
  second at most after a calibration; the two-step recovery stays in its three states with no or
  two probe parities; a report at most halves the rate and raises a rate at or above the floor by
  at most a half and keeps it there. The exception is a rate that calibration has put below the
  floor: a report may lift it to 12500 in one step, from as little as one byte per second. A
  report leaves the rate alone while the link drains, and of several report timeouts in a row
  only the first slows down.
\<close>

theorem rate_controlled:
  assumes "rate_ok (max initial kMinBtlBps)" "e = foldl bw_step (new_estimator initial) evs"
    and "e' = bw_on_report s now e"
  shows "uint (bw_btl e) \<le> uint (max initial kMinBtlBps) \<and> (bw_seed_calibrated e \<or> 12500 \<le> uint (bw_btl e)) \<and>
    bw_recover_step e \<le> 2 \<and> bw_fec_probe_extra e \<in> {0, 2} \<and>
    uint (bw_btl e) \<le> 2 * uint (bw_btl e') + 1 \<and>
    (12500 \<le> uint (bw_btl e) \<longrightarrow> 12500 \<le> uint (bw_btl e') \<and> 2 * uint (bw_btl e') \<le> 3 * uint (bw_btl e) + 1) \<and>
    (uint (bw_btl e) < 12500 \<longrightarrow> uint (bw_btl e') \<le> 12500 \<or> 2 * uint (bw_btl e') \<le> 3 * uint (bw_btl e) + 1) \<and>
    (sg_in_evac_window s \<longrightarrow> bw_btl e' = bw_btl e) \<and>
    bw_on_report_timeout (bw_on_report_timeout e) = bw_on_report_timeout e"
proof -
  have ok: "bw_ok (max initial kMinBtlBps) e"
    unfolding assms(2) by (intro bw_run_ok new_estimator_ok assms(1))
  have "floor_ok e"
    unfolding assms(2) by (rule bw_run_floor_ok [OF new_estimator_ok [OF assms(1)] new_estimator_floor_ok])
  moreover note report = bw_on_report_ok [OF ok, of s now, folded assms(3)]
  have "2 * uint (bw_btl e') \<le> 3 * uint (bw_btl e) + 1" if "12500 \<le> uint (bw_btl e)"
    using report(2) that unfolding rate_step_ok_def by linarith
  ultimately show ?thesis
    using ok report by (simp add: bw_ok_def floor_ok_def rate_step_ok_def bw_on_report_timeout_def)
qed

definition clean_report :: report_signals where
  "clean_report = \<lparr> sg_p50_ms = 30, sg_late = 0, sg_loss = 0, sg_ce = 0, sg_pacer_limited = False,
     sg_sustained_overload = False, sg_in_evac_window = False, sg_recv_rate = 0 \<rparr>"

lemma rate_controlled_witness:
  "uint (bw_btl (foldl bw_step (new_estimator 1000000) [Report_Timeout, Calibrate 80000, Peer_Report clean_report 5])) \<le> 1000000"
  using rate_controlled [of 1000000 _ "[Report_Timeout, Calibrate 80000, Peer_Report clean_report 5]" _ clean_report 0, OF _ refl refl]
  by (simp add: rate_ok_def uint_max kMin)

lemma calibrated_rate:
  assumes "\<not> bw_seed_calibrated e" "0 < uint probe" "uint probe < 100000" "12500 \<le> uint (bw_btl e)"
  shows "uint (bw_btl (bw_set_seed_and_clamp probe e)) = max 1 (uint probe div 8)"
proof -
  have "uint (probe div 8) = uint probe div 8"
    by (simp add: uint_div)
  moreover have "probe \<noteq> 0"
    using assms(2) by auto
  moreover have "uint probe div 8 = 0 \<longleftrightarrow> probe div 8 = 0"
    by (simp add: word_uint_eq_iff uint_div)
  ultimately show ?thesis
    using assms by (auto simp: bw_set_seed_and_clamp_def Let_def word_less_def max_def)
qed

text \<open>
  Calibration does not respect the floor. Reports and timeouts keep the rate of an estimator
  at or above its documented lower limit of 12500 bytes per second; a first probe result takes it
  to an eighth of that result, below the limit whenever the probe is under 100000, down to one
  byte per second, and no later result is looked at.
\<close>

theorem calibration_ignores_floor:
  assumes "bw_ok seed e" "12500 \<le> uint (bw_btl e)"
  shows "12500 \<le> uint (bw_btl (bw_on_report s now e)) \<and> 12500 \<le> uint (bw_btl (bw_on_report_timeout e)) \<and>
    (\<not> bw_seed_calibrated e \<longrightarrow> 0 < uint probe \<longrightarrow> uint probe < 100000 \<longrightarrow>
      uint (bw_btl (bw_set_seed_and_clamp probe e)) = max 1 (uint probe div 8) \<and>
      bw_set_seed_and_clamp probe2 (bw_set_seed_and_clamp probe e) = bw_set_seed_and_clamp probe e)"
proof -
  note rate = bw_ok_rate [OF assms(1)]
  have "12500 \<le> uint (bw_btl (bw_on_report_timeout e))"
    using scaled_down_bounds(1) [OF rate, of kCongestFactor] assms(2) by (simp add: bw_on_report_timeout_def constant_values)
  moreover have "uint (bw_btl (bw_set_seed_and_clamp probe e)) = max 1 (uint probe div 8)"
    if "\<not> bw_seed_calibrated e" "0 < uint probe" "uint probe < 100000"
    using calibrated_rate [OF that assms(2)] .
  moreover have "bw_set_seed_and_clamp probe2 (bw_set_seed_and_clamp probe e) = bw_set_seed_and_clamp probe e"
    if "0 < uint probe"
    using that by (auto simp: bw_set_seed_and_clamp_def Let_def)
  ultimately show ?thesis
    using bw_on_report_ok(4) [OF assms] by blast
qed

lemma calibration_ignores_floor_witness:
  "bw_btl (bw_set_seed_and_clamp 7 (new_estimator 1000000)) \<noteq> 0 \<and> uint (bw_btl (bw_set_seed_and_clamp 7 (new_estimator 1000000))) = 1"
  using calibration_ignores_floor [of 1000000 "new_estimator 1000000" clean_report 0 7 0]
    new_estimator_ok [of 1000000]
  by (auto simp: rate_ok_def uint_max kMin new_estimator_def Let_def max_def kMinBtlBps_def)

section \<open>The delay average\<close>

text \<open>The average of the queueing delay in milliseconds: no median is above \<open>2 ^ 32\<close> of them.\<close>

definition delay_ok :: "bandwidth_estimator \<Rightarrow> bool" where
  "delay_ok e \<longleftrightarrow> 0 \<le> bw_delay_ewma e \<and> bw_delay_ewma e \<le> of_int (2 ^ 33)"

lemma ewma_weights: "0 \<le> rnd64 (7 / 10)" "rnd64 (7 / 10) \<le> 7 / 10" "0 \<le> rnd64 (3 / 10)" "rnd64 (3 / 10) \<le> 3 / 10"
  by code_simp+

text \<open>A product with a factor of at most \<open>w\<close> is at most any whole number that bounds it exactly.\<close>

lemma fmul_le_int:
  assumes "0 \<le> x" "x \<le> of_int k" "f \<le> w" "0 \<le> w" "w * of_int k \<le> of_int m" "\<bar>m\<bar> \<le> 2 ^ 53"
  shows "fmul f x \<le> of_int m"
proof -
  have "f * x \<le> w * x"
    by (rule mult_right_mono [OF assms(3,1)])
  also have "w * x \<le> w * of_int k"
    by (rule mult_left_mono [OF assms(2,4)])
  finally have "f * x \<le> of_int m"
    using assms(5) by simp
  then show ?thesis
    unfolding fmul_def by (rule r64.rnd_le_int [OF assms(6)])
qed

lemma track_delay_ok:
  assumes "delay_ok e"
  shows "delay_ok (track_delay p50 e)"
proof -
  define p50_us where "p50_us = (ucast p50 * 1000 :: u64)"
  define base where "base = (if bw_rt_prop_us e = 0 \<or> p50_us < bw_rt_prop_us e then p50_us else bw_rt_prop_us e)"
  define q where "q = (if p50_us > base then fdiv (fof (uint (p50_us - base))) 1000 else 0)"
  have ewma: "bw_delay_ewma (track_delay p50 e) = fadd (fmul (rnd64 (7 / 10)) (bw_delay_ewma e)) (fmul (rnd64 (3 / 10)) q)"
    by (simp add: track_delay_def Let_def q_def base_def p50_us_def)
  have "uint (ucast p50 :: u64) = uint p50"
    by (simp add: unsigned_ucast_eq take_bit_int_eq_self_iff order.strict_trans [OF uint_bounded])
  moreover have "uint p50 < 2 ^ 32"
    using uint_bounded [of p50] by simp
  ultimately have "uint p50_us \<le> 2 ^ 32 * 1000"
    by (simp add: p50_us_def uint_word_ariths mod_pos_pos_trivial)
  have "0 \<le> q \<and> q \<le> of_int (2 ^ 32)"
  proof (cases "p50_us > base")
    case True
    have sub: "uint (p50_us - base) = uint p50_us - uint base"
      using True uint_sub_lem [of base p50_us] by (simp add: word_less_def)
    have d: "0 \<le> uint (p50_us - base)" "uint (p50_us - base) \<le> 2 ^ 32 * 1000"
      unfolding sub using True \<open>uint p50_us \<le> 2 ^ 32 * 1000\<close> uint_ge_0 [of base] unfolding word_less_def by linarith+
    then have "fof (uint (p50_us - base)) = of_int (uint (p50_us - base))"
      by (intro fof_exact) simp
    moreover have "(of_int (uint (p50_us - base)) :: rat) \<le> of_int (2 ^ 32 * 1000)"
      unfolding of_int_le_iff by (rule d(2))
    ultimately have "fof (uint (p50_us - base)) / 1000 \<le> of_int (2 ^ 32)" "0 \<le> fof (uint (p50_us - base)) / 1000"
      using fof_nonneg [OF d(1)] by simp_all
    then show ?thesis
      using True unfolding q_def fdiv_def by (simp only: if_True rnd64_nonneg) (intro conjI TrueI r64.rnd_le_int, simp_all)
  qed (simp add: q_def)
  then have q: "0 \<le> q" "q \<le> of_int (2 ^ 32)"
    by simp_all
  have a: "fmul (rnd64 (7 / 10)) (bw_delay_ewma e) \<le> of_int 6012954215"
    using assms by (intro fmul_le_int [where w = "7 / 10" and k = "2 ^ 33"] ewma_weights) (simp_all add: delay_ok_def)
  have b: "fmul (rnd64 (3 / 10)) q \<le> of_int 1288490189"
    using q by (intro fmul_le_int [where w = "3 / 10" and k = "2 ^ 32"] ewma_weights) simp_all
  have "fadd (fmul (rnd64 (7 / 10)) (bw_delay_ewma e)) (fmul (rnd64 (3 / 10)) q) \<le> of_int (2 ^ 33)"
    unfolding fadd_def using add_mono [OF a b] by (intro r64.rnd_le_int) simp_all
  moreover have "0 \<le> fadd (fmul (rnd64 (7 / 10)) (bw_delay_ewma e)) (fmul (rnd64 (3 / 10)) q)"
    using assms q by (intro fadd_nonneg fmul_nonneg ewma_weights) (simp_all add: delay_ok_def)
  ultimately show ?thesis
    by (simp add: delay_ok_def ewma)
qed

lemma on_report_delay:
  "bw_delay_ewma (bw_on_report s now e) = bw_delay_ewma (track_delay (sg_p50_ms s) (e\<lparr> bw_report_stall := False \<rparr>))"
  "bw_rt_prop_us (bw_on_report s now e) = bw_rt_prop_us (track_delay (sg_p50_ms s) (e\<lparr> bw_report_stall := False \<rparr>))"
  by (cases rule: on_report_cases [of s now e]; simp add: slow_down_def recover_def Let_def)+

lemma bw_step_delay_ok:
  assumes "delay_ok e"
  shows "delay_ok (bw_step e ev)"
proof (cases ev)
  case (Peer_Report s now)
  have "delay_ok (e\<lparr> bw_report_stall := False \<rparr>)"
    using assms by (simp add: delay_ok_def)
  from track_delay_ok [OF this, of "sg_p50_ms s"] show ?thesis
    by (simp add: Peer_Report delay_ok_def on_report_delay)
qed (use assms in \<open>simp_all add: delay_ok_def bw_on_ack_def bw_on_report_timeout_def bw_set_seed_and_clamp_def Let_def\<close>)

lemma bw_run_delay_ok: "delay_ok e \<Longrightarrow> delay_ok (foldl bw_step e evs)"
  by (induction evs arbitrary: e) (simp_all add: bw_step_delay_ok)

section \<open>Recovery\<close>

text \<open>
  A quiet report: no loss, no late packets, no marks, a median delay of \<open>p50\<close>, the pacer not
  limited, no drain under way, and a receive rate of \<open>rate\<close>. Whether the sender overloads is left open.
\<close>

definition quiet :: "u32 \<Rightarrow> double \<Rightarrow> report_signals \<Rightarrow> bool" where
  "quiet p50 rate s \<longleftrightarrow> sg_p50_ms s = p50 \<and> sg_late s < kRecoverLateThreshold \<and> sg_loss s < kRecoverLateThreshold \<and>
     sg_ce s < kCeThreshold \<and> \<not> sg_pacer_limited s \<and> \<not> sg_in_evac_window s \<and> sg_recv_rate s = rate"

text \<open>The median is no larger than the smallest one seen, and the average has come down to \<open>k\<close>.\<close>

definition settling :: "u32 \<Rightarrow> u64 \<Rightarrow> int \<Rightarrow> bandwidth_estimator \<Rightarrow> bool" where
  "settling p50 seed k e \<longleftrightarrow> bw_ok seed e \<and> 0 \<le> bw_delay_ewma e \<and> bw_delay_ewma e \<le> of_int k \<and>
     (bw_rt_prop_us e = 0 \<or> ucast p50 * 1000 \<le> bw_rt_prop_us e)"

text \<open>
  How far quiet reports raise the rate: to the seed, and when the peer reports a receive rate no
  further than to 1.2 times that rate (but at least to the floor).
\<close>

definition recover_target :: "u64 \<Rightarrow> double \<Rightarrow> int" where
  "recover_target seed rate =
    (if rate > 0 then max 12500 (ftrunc (min (of_int (uint seed)) (fmul rate (rnd64 (12 / 10))))) else uint seed)"

lemma recover_target_bounds:
  assumes "12500 \<le> uint seed"
  shows "12500 \<le> recover_target seed rate" "recover_target seed rate \<le> uint seed"
proof -
  have "ftrunc (min (of_int (uint seed)) x) \<le> uint seed" for x
    by (rule ftrunc_le) simp
  then show "12500 \<le> recover_target seed rate" "recover_target seed rate \<le> uint seed"
    using assms by (simp_all add: recover_target_def)
qed

lemma thresholds: "kRecoverLateThreshold \<le> kLateThreshold" "kRecoverDelayMs = 10" "kDelayThresholdMs = 20"
  by code_simp+

lemma settling_fields:
  assumes "bw_ok seed e" "bw_seed e1 = bw_seed e" "bw_btl e1 = bw_btl e"
  shows "bw_seed e1 = seed" "rate_ok seed" "12500 \<le> uint seed" "uint (bw_btl e1) \<le> uint seed" "rate_ok (bw_btl e1)"
  using assms bw_ok_rate [OF assms(1)] by (simp_all add: bw_ok_def)

lemma ftrunc_below: "0 < ftrunc x \<Longrightarrow> of_int (ftrunc x) \<le> x"
  by (cases "0 \<le> x") (simp_all add: ftrunc_def)

text \<open>One raise under the cap: never past the larger of rate and target, and by a half or to the target.\<close>

lemma raised_target:
  assumes "bw_ok seed e" "bw_seed e1 = bw_seed e" "bw_btl e1 = bw_btl e" "quiet p50 rate s"
  defines "r \<equiv> uint (raised (bw_btl e) seed (recv_cap_of s e1))" and "t \<equiv> recover_target seed rate"
  shows "12500 \<le> r" "uint (bw_btl e) \<le> r" "r \<le> max (uint (bw_btl e)) t"
    "min t (uint (bw_btl e) + uint (bw_btl e) div 2) \<le> r"
proof -
  let ?c = "recv_cap_of s e1" and ?x = "fmul rate (rnd64 (12 / 10))"
  note f = settling_fields [OF assms(1-3), unfolded assms(3)]
  have cap: "of_int (uint (bw_btl e)) \<le> ?c"
    using recv_cap_ge [of e1 s] f(5) by (simp add: assms(3))
  have c: "?c = (if rate > 0 then max (of_int (uint (bw_btl e))) ?x else double_max)"
    using assms(4) rate_exact [OF f(5)] by (simp add: recv_cap_of_def quiet_def assms(3))
  note b = raised_bounds [OF f(5,2,4,3) cap, folded r_def]
  show "12500 \<le> r" "uint (bw_btl e) \<le> r"
    by (rule b(1), rule b(2))
  show "r \<le> max (uint (bw_btl e)) t"
  proof (cases "rate > 0")
    case True
    have "ftrunc (min (of_int (uint seed)) ?c) \<le> max (uint (bw_btl e)) (ftrunc (min (of_int (uint seed)) ?x))"
    proof (cases "of_int (uint (bw_btl e)) \<le> ?x")
      case le: True
      then show ?thesis
        unfolding c if_P [OF True] max_absorb2 [OF le] by simp
    next
      case False
      then have "?c = of_int (uint (bw_btl e))"
        unfolding c if_P [OF True] by (intro max_absorb1) simp
      then show ?thesis
        by (simp only: le_max_iff_disj ftrunc_le min.cobounded2 simp_thms)
    qed
    with b(6) True show ?thesis
      unfolding t_def recover_target_def by auto
  next
    case False
    with b(3) show ?thesis
      by (simp add: t_def recover_target_def)
  qed
  show "min t (uint (bw_btl e) + uint (bw_btl e) div 2) \<le> r"
  proof (cases "t = 12500")
    case True
    with b(1) show ?thesis
      by simp
  next
    case False
    have "t \<le> uint seed"
      unfolding t_def by (rule recover_target_bounds [OF f(3)])
    moreover have "of_int t \<le> ?c"
    proof (cases "rate > 0")
      case True
      let ?m = "min (of_int (uint seed)) ?x"
      have t: "t = ftrunc ?m" "12500 < ftrunc ?m"
        using False True by (auto simp: t_def recover_target_def max_def split: if_splits)
      then have "of_int t \<le> ?m"
        using ftrunc_below [of ?m] by linarith
      then show ?thesis
        unfolding c using True by (simp add: le_max_iff_disj)
    next
      case False
      then show ?thesis
        unfolding c using rate_below_max [OF f(2)] by (simp add: t_def recover_target_def)
    qed
    ultimately show ?thesis
      by (rule b(5))
  qed
qed

text \<open>A quiet report, whatever state the delay average is in: the average falls by three tenths.\<close>

lemma quiet_report_settles:
  assumes "settling p50 seed k e" "quiet p50 rate s" "0 \<le> k" "k \<le> 2 ^ 33"
  shows "settling p50 seed ((7 * k + 9) div 10) (bw_on_report s now e)"
    "uint (bw_btl (bw_on_report s now e)) \<le> max (uint (bw_btl e)) (recover_target seed rate)"
proof -
  let ?e = "e\<lparr> bw_report_stall := False \<rparr>"
  have ok: "bw_ok seed e" and ewma: "0 \<le> bw_delay_ewma e" "bw_delay_ewma e \<le> of_int k"
    and base: "bw_rt_prop_us e = 0 \<or> ucast p50 * 1000 \<le> bw_rt_prop_us e"
    using assms(1) by (simp_all add: settling_def)
  have p50: "sg_p50_ms s = p50"
    using assms(2) by (simp add: quiet_def)
  let ?m = "(7 * k + 9) div 10"
  have "0 \<le> ?m" "?m \<le> 2 ^ 33" and m1: "7 * k \<le> 10 * ?m"
    using assms(3,4) by linarith+
  then have m: "7 * k \<le> 10 * ?m" "\<bar>?m\<bar> \<le> 2 ^ 53"
    by simp_all
  have avg: "bw_delay_ewma (bw_on_report s now e) = fadd (fmul (rnd64 (7 / 10)) (bw_delay_ewma e)) 0"
    using base by (auto simp: on_report_delay p50 track_delay_def Let_def fmul_def)
  have "(of_int (7 * k) :: rat) \<le> of_int (10 * ?m)"
    using m(1) by (simp only: of_int_le_iff)
  then have "fmul (rnd64 (7 / 10)) (bw_delay_ewma e) \<le> of_int ?m"
    using ewma by (intro fmul_le_int [where w = "7 / 10" and k = k] ewma_weights m(2)) simp_all
  then have "bw_delay_ewma (bw_on_report s now e) \<le> of_int ?m"
    unfolding avg fadd_def by (intro r64.rnd_le_int [OF m(2)]) simp
  moreover have "0 \<le> bw_delay_ewma (bw_on_report s now e)"
    unfolding avg using ewma by (intro fadd_nonneg fmul_nonneg ewma_weights) simp_all
  moreover have "bw_rt_prop_us (bw_on_report s now e) = 0 \<or> ucast p50 * 1000 \<le> bw_rt_prop_us (bw_on_report s now e)"
    using base by (auto simp: on_report_delay p50 track_delay_def Let_def)
  ultimately show "settling p50 seed ?m (bw_on_report s now e)"
    using bw_on_report_ok(1) [OF ok] by (simp add: settling_def)
  have t: "12500 \<le> recover_target seed rate"
    using ok by (intro recover_target_bounds) (simp add: bw_ok_def)
  show "uint (bw_btl (bw_on_report s now e)) \<le> max (uint (bw_btl e)) (recover_target seed rate)"
  proof (cases rule: on_report_cases [of s now e])
    case (2 c)
    let ?e1 = "(track_delay (sg_p50_ms s) ?e)\<lparr> bw_congested := c \<rparr>"
    obtain f where f: "bw_btl (slow_down s now ?e1) = scaled_down (bw_btl ?e1) f" "1 / 2 \<le> f" "f \<le> 1"
      using slow_down_fields(1) by blast
    have "bw_btl ?e1 = bw_btl e"
      by simp
    then show ?thesis
      unfolding 2(1) f(1) using scaled_down_bounds(2) [OF bw_ok_rate [OF ok] f(2,3)] t by simp
  next
    case (3 c)
    let ?e1 = "(track_delay (sg_p50_ms s) ?e)\<lparr> bw_congested := c \<rparr>"
    have "bw_seed ?e1 = bw_seed e" "bw_btl ?e1 = bw_btl e"
      by simp_all
    note raise = raised_target(3) [OF ok this assms(2)]
    show ?thesis
      unfolding 3(1) recover_fields(1) using raise ok by (simp add: bw_ok_def)
  qed simp
qed

definition bw_reports :: "bandwidth_estimator \<Rightarrow> (report_signals \<times> time) list \<Rightarrow> bandwidth_estimator" where
  "bw_reports = foldl (\<lambda>e (s, now). bw_on_report s now e)"

lemma bw_reports_simps [simp]:
  "bw_reports e [] = e" "bw_reports e ((s, now) # rs) = bw_reports (bw_on_report s now e) rs"
  "bw_reports e (rs @ rs') = bw_reports (bw_reports e rs) rs'"
  by (simp_all add: bw_reports_def)

lemma quiet_reports_settle:
  "settling p50 seed k e \<Longrightarrow> \<forall>(s, t) \<in> set rs. quiet p50 rate s \<Longrightarrow> 0 \<le> k \<Longrightarrow> k \<le> 2 ^ 33 \<Longrightarrow>
    settling p50 seed (((\<lambda>k. (7 * k + 9) div 10) ^^ length rs) k) (bw_reports e rs) \<and>
    uint (bw_btl (bw_reports e rs)) \<le> max (uint (bw_btl e)) (recover_target seed rate)"
proof (induction rs arbitrary: e k)
  case (Cons r rs)
  obtain s t where r: "r = (s, t)" by force
  have q: "quiet p50 rate s" "\<forall>(s, t) \<in> set rs. quiet p50 rate s"
    using Cons.prems(2) by (auto simp: r)
  note step = quiet_report_settles [OF Cons.prems(1) q(1) Cons.prems(3,4), of t]
  have "0 \<le> (7 * k + 9) div 10" "(7 * k + 9) div 10 \<le> 2 ^ 33"
    using Cons.prems(3,4) by linarith+
  from Cons.IH [OF step(1) q(2) this] step(2) show ?case
    by (auto simp: r funpow_Suc_right simp del: funpow.simps)
qed simp

text \<open>Sixty quiet reports bring any delay average below the recovery threshold; it then stays there.\<close>

lemma settled_after_60: "((\<lambda>k :: int. (7 * k + 9) div 10) ^^ 60) (2 ^ 33) \<le> 9"
  by code_simp

lemma settling_9: "settling p50 seed k e \<Longrightarrow> k \<le> 9 \<Longrightarrow> settling p50 seed 9 e"
  by (auto simp: settling_def intro: order_trans)

lemma quiet_report_recovers:
  assumes "settling p50 seed 9 e" "quiet p50 rate s"
  obtains e1 where "bw_on_report s now e = recover s e1" "bw_seed e1 = bw_seed e" "bw_btl e1 = bw_btl e"
    "bw_recover_step e1 = bw_recover_step e"
proof
  let ?t = "track_delay (sg_p50_ms s) (e\<lparr> bw_report_stall := False \<rparr>)"
  let ?e1 = "?t\<lparr> bw_congested := False \<rparr>"
  have "settling p50 seed 7 (bw_on_report s now e)"
    using quiet_report_settles(1) [OF assms] by simp
  then have ewma: "bw_delay_ewma ?t < 10"
    by (simp add: settling_def on_report_delay)
  moreover have "sg_late s \<le> kLateThreshold" "sg_loss s \<le> kLateThreshold" "sg_ce s \<le> kCeThreshold"
    using assms(2) thresholds(1) by (auto simp: quiet_def)
  ultimately have "\<not> is_congested s ?t"
    using assms(2) unfolding is_congested_def thresholds by (auto simp: quiet_def not_less)
  moreover have "is_recovered s ?t"
    using assms(2) ewma by (simp add: is_recovered_def quiet_def thresholds)
  ultimately have "\<not> is_congested s ?t" "is_recovered s ?t"
    by blast+
  then show "bw_on_report s now e = recover s ?e1"
    using assms(2) by (simp add: bw_on_report_def Let_def quiet_def)
qed simp_all

lemma quiet_report:
  assumes "settling p50 seed 9 e" "quiet p50 rate s" "e' = bw_on_report s now e"
  shows "settling p50 seed 9 e'" "uint (bw_btl e) \<le> uint (bw_btl e')" "bw_recover_step e' = (bw_recover_step e + 1) mod 3"
    "bw_recover_step e \<noteq> 2 \<Longrightarrow> 12500 \<le> uint (bw_btl e')"
    "bw_recover_step e \<noteq> 2 \<Longrightarrow> min (recover_target seed rate) (uint (bw_btl e) + uint (bw_btl e) div 2) \<le> uint (bw_btl e')"
proof -
  obtain e1 where e1: "e' = recover s e1" "bw_seed e1 = bw_seed e" "bw_btl e1 = bw_btl e" "bw_recover_step e1 = bw_recover_step e"
    using quiet_report_recovers [OF assms(1,2), of now] assms(3) by auto
  have ok: "bw_ok seed e"
    using assms(1) by (simp add: settling_def)
  show "settling p50 seed 9 e'"
    unfolding assms(3) using quiet_report_settles(1) [OF assms(1,2)] by (intro settling_9 [where k = 7]) simp_all
  have step: "bw_recover_step e = 0 \<or> bw_recover_step e = 1 \<or> bw_recover_step e = 2"
    using ok by (simp add: bw_ok_def) linarith
  then have btl: "bw_btl e' = (if bw_recover_step e \<noteq> 2 then raised (bw_btl e) seed (recv_cap_of s e1) else bw_btl e)"
    using settling_fields(1) [OF ok e1(2,3)] by (auto simp: e1(1,3,4) recover_fields(1))
  note raise = raised_target [OF ok e1(2,3) assms(2)]
  show "uint (bw_btl e) \<le> uint (bw_btl e')"
    using raise(2) by (simp add: btl)
  show "12500 \<le> uint (bw_btl e')"
    "min (recover_target seed rate) (uint (bw_btl e) + uint (bw_btl e) div 2) \<le> uint (bw_btl e')"
    if "bw_recover_step e \<noteq> 2"
    using raise(1,4) that by (simp_all only: btl simp_thms if_True)
  from step show "bw_recover_step e' = (bw_recover_step e + 1) mod 3"
    by (auto simp: e1(1,4) recover_def Let_def)
qed

lemma two_raises:
  fixes a b c S :: int
  assumes "min S (a + a div 2) \<le> b" "min S (b + b div 2) \<le> c" "12500 \<le> a" "12500 \<le> S"
  shows "min S (2 * a) \<le> c"
proof -
  have "min S (a + a div 2) + min S (a + a div 2) div 2 \<le> b + b div 2"
    using assms(1) by (intro add_mono zdiv_mono1) simp_all
  moreover have "S \<le> S + S div 2"
    using assms(4) half_bounds(3) [of S] by linarith
  moreover have "2 * a \<le> (a + a div 2) + (a + a div 2) div 2"
    using assms(3) half_bounds(1,2) [of a] half_bounds(1,2) [of "a + a div 2"] by linarith
  ultimately have "S \<le> b + b div 2 \<or> 2 * a \<le> b + b div 2"
    by (cases "S \<le> a + a div 2") (simp_all only: min_def if_True if_False simp_thms, linarith+)
  moreover have "S \<le> c \<or> b + b div 2 \<le> c"
    using assms(2) unfolding min_le_iff_disj .
  ultimately show ?thesis
    unfolding min_le_iff_disj by linarith
qed

text \<open>Of three reports in a row one only closes a round; the other two raise the rate.\<close>

lemma three_quiet_reports:
  assumes "settling p50 seed 9 e" "quiet p50 rate s1" "quiet p50 rate s2" "quiet p50 rate s3"
    and "e' = bw_reports e [(s1, t1), (s2, t2), (s3, t3)]"
  defines "t \<equiv> recover_target seed rate"
  shows "settling p50 seed 9 e'" "12500 \<le> uint (bw_btl e')"
    "12500 \<le> uint (bw_btl e) \<Longrightarrow> min t (2 * uint (bw_btl e)) \<le> uint (bw_btl e')"
proof -
  define e1 where "e1 = bw_on_report s1 t1 e"
  define e2 where "e2 = bw_on_report s2 t2 e1"
  have e': "e' = bw_on_report s3 t3 e2"
    by (simp add: assms(5) e1_def e2_def)
  note q1 = quiet_report [OF assms(1,2) e1_def, folded t_def]
  note q2 = quiet_report [OF q1(1) assms(3) e2_def, folded t_def]
  note q3 = quiet_report [OF q2(1) assms(4) e', folded t_def]
  show "settling p50 seed 9 e'"
    by (rule q3(1))
  have "bw_recover_step e \<le> 2" and seed: "12500 \<le> t"
    using assms(1) recover_target_bounds(1) by (simp_all add: settling_def bw_ok_def t_def)
  then consider "bw_recover_step e = 0" | "bw_recover_step e = 1" | "bw_recover_step e = 2"
    by linarith
  then have "12500 \<le> uint (bw_btl e') \<and>
      (12500 \<le> uint (bw_btl e) \<longrightarrow> min t (2 * uint (bw_btl e)) \<le> uint (bw_btl e'))"
  proof cases
    case 1
    then show ?thesis
      using q1(3-) q2(2-) q3(2) two_raises [of t "uint (bw_btl e)" "uint (bw_btl e1)" "uint (bw_btl e2)"] seed by auto
  next
    case 2
    have "min t (uint (bw_btl e2) + uint (bw_btl e2) div 2) \<le> uint (bw_btl e')"
      using 2 q1(3) q2(3) q3(5) by simp
    then show ?thesis
      using 2 q1(3-) q2(2,3) q3(2-) two_raises [of t "uint (bw_btl e)" "uint (bw_btl e2)" "uint (bw_btl e')"] seed by auto
  next
    case 3
    then show ?thesis
      using q1(2,3) q2(2-) q3(2-) two_raises [of t "uint (bw_btl e1)" "uint (bw_btl e2)" "uint (bw_btl e')"] seed by auto
  qed
  then show "12500 \<le> uint (bw_btl e')" "12500 \<le> uint (bw_btl e) \<Longrightarrow> min t (2 * uint (bw_btl e)) \<le> uint (bw_btl e')"
    by blast+
qed

lemma quiet_reports_keep:
  "settling p50 seed 9 e \<Longrightarrow> \<forall>(s, t) \<in> set rs. quiet p50 rate s \<Longrightarrow> uint (bw_btl e) \<le> uint (bw_btl (bw_reports e rs))"
proof (induction rs arbitrary: e)
  case (Cons r rs)
  obtain s t where r: "r = (s, t)" by force
  note q = quiet_report [OF Cons.prems(1) _ refl, of rate s t]
  then show ?case
    using Cons.IH [OF q(1)] Cons.prems(2) by (auto simp: r intro: order_trans)
qed simp

lemma quiet_reports_raise:
  assumes "settling p50 seed 9 e" "12500 \<le> uint (bw_btl e)" "3 * k \<le> length rs" "\<forall>(s, t) \<in> set rs. quiet p50 rate s"
  shows "min (recover_target seed rate) (uint (bw_btl e) * 2 ^ k) \<le> uint (bw_btl (bw_reports e rs))"
  using assms
proof (induction k arbitrary: e rs)
  case 0
  then show ?case
    using quiet_reports_keep [OF 0(1,4)] by (simp add: min.coboundedI2)
next
  case (Suc k)
  obtain s1 t1 s2 t2 s3 t3 rest where rs: "rs = (s1, t1) # (s2, t2) # (s3, t3) # rest"
    using Suc.prems(3) by (cases rs; cases "tl rs"; cases "tl (tl rs)") auto
  define e' where "e' = bw_reports e [(s1, t1), (s2, t2), (s3, t3)]"
  have q: "quiet p50 rate s1" "quiet p50 rate s2" "quiet p50 rate s3" "\<forall>(s, t) \<in> set rest. quiet p50 rate s"
    using Suc.prems(4) by (simp_all add: rs)
  note three = three_quiet_reports [OF Suc.prems(1) q(1-3) e'_def]
  have eq: "bw_reports e' rest = bw_reports e rs"
    by (simp add: rs e'_def)
  let ?t = "recover_target seed rate"
  have "min ?t (uint (bw_btl e') * 2 ^ k) \<le> uint (bw_btl (bw_reports e' rest))"
    using Suc.prems(3) by (intro Suc.IH three(1,2) q(4)) (simp add: rs)
  moreover have "min ?t (uint (bw_btl e) * 2 ^ Suc k) \<le> min ?t (uint (bw_btl e') * 2 ^ k)"
  proof -
    consider "?t \<le> uint (bw_btl e')" | "2 * uint (bw_btl e) \<le> uint (bw_btl e')"
      using three(3) [OF Suc.prems(2)] unfolding min_le_iff_disj by blast
    then have "min ?t (uint (bw_btl e) * 2 ^ Suc k) \<le> uint (bw_btl e') * 2 ^ k"
    proof cases
      case 1
      then have "?t * 1 \<le> uint (bw_btl e') * 2 ^ k"
        by (rule mult_mono) simp_all
      then show ?thesis
        by (simp add: min.coboundedI1)
    next
      case 2
      then have "2 * uint (bw_btl e) * 2 ^ k \<le> uint (bw_btl e') * 2 ^ k"
        by (rule mult_right_mono) simp
      then show ?thesis
        by (simp add: min.coboundedI2 mult_ac)
    qed
    then show ?thesis
      by simp
  qed
  ultimately show ?case
    by (auto simp: eq intro: order_trans)
qed

text \<open>From a settled delay average on, 120 quiet reports are enough for any seed: 2 to the 39 floors exceed it.\<close>

lemma settled_reports_raise:
  assumes "settling p50 seed 9 e" "\<forall>(s, t) \<in> set rs. quiet p50 rate s" "120 \<le> length rs"
  shows "recover_target seed rate \<le> uint (bw_btl (bw_reports e rs))"
proof -
  obtain s1 t1 s2 t2 s3 t3 rest where rs: "rs = (s1, t1) # (s2, t2) # (s3, t3) # rest"
    using assms(3) by (cases rs; cases "tl rs"; cases "tl (tl rs)") (auto simp: numeral_eq_Suc)
  define e' where "e' = bw_reports e [(s1, t1), (s2, t2), (s3, t3)]"
  have e': "settling p50 seed 9 e'" "12500 \<le> uint (bw_btl e')"
    using three_quiet_reports(1,2) [OF assms(1) _ _ _ e'_def] assms(2) by (auto simp: rs)
  have "min (recover_target seed rate) (uint (bw_btl e') * 2 ^ 39) \<le> uint (bw_btl (bw_reports e' rest))"
    using assms(2,3) by (intro quiet_reports_raise [OF e']) (simp_all add: rs)
  moreover have "recover_target seed rate \<le> uint seed" "uint seed \<le> 2 ^ 52"
    using assms(1) by (simp_all add: settling_def bw_ok_def rate_ok_def recover_target_bounds)
  moreover have "12500 * 2 ^ 39 \<le> uint (bw_btl e') * 2 ^ 39"
    using e'(2) by simp
  ultimately show ?thesis
    by (simp add: rs e'_def min_def split: if_splits)
qed

text \<open>
  C32: a slowed-down flow recovers. Take any state an estimator can get into by any reports,
  timeouts, calibration and acknowledgments, whatever its rate and its delay average, with a
  link whose median delay is back at the smallest one seen. After 180 consecutive quiet reports
  (60 for the delay average to come down, 120 for the rate to climb) that carry the receive rate
  \<open>rate\<close>, the estimate has reached the documented limit of the recovery, the smaller of the seed
  and 1.2 times the receive rate (the floor of 12500, if that is less), and it never passes that
  limit unless it started above it. Without a receive rate it is exactly the seed.
\<close>

theorem recovery_reaches_seed:
  assumes "rate_ok (max initial kMinBtlBps)" "e = foldl bw_step (new_estimator initial) evs"
    and "bw_rt_prop_us e = 0 \<or> ucast p50 * 1000 \<le> bw_rt_prop_us e"
    and "\<forall>(s, t) \<in> set rs. quiet p50 rate s" "180 \<le> length rs"
  defines "seed \<equiv> max initial kMinBtlBps" and "e' \<equiv> bw_reports e rs"
  shows "recover_target seed rate \<le> uint (bw_btl e') \<and> uint (bw_btl e') \<le> max (uint (bw_btl e)) (recover_target seed rate) \<and>
    (rate \<le> 0 \<longrightarrow> bw_btl e' = seed)"
proof -
  have ok: "bw_ok seed e"
    unfolding assms(2) seed_def by (intro bw_run_ok new_estimator_ok assms(1))
  have "delay_ok e"
    unfolding assms(2) by (rule bw_run_delay_ok) (simp add: delay_ok_def new_estimator_def Let_def)
  then have start: "settling p50 seed (2 ^ 33) e"
    using ok assms(3) by (simp add: settling_def delay_ok_def)
  have halves: "\<forall>(s, t) \<in> set (take 60 rs). quiet p50 rate s" "\<forall>(s, t) \<in> set (drop 60 rs). quiet p50 rate s"
    using assms(4) by (auto dest: in_set_takeD in_set_dropD)
  define e1 where "e1 = bw_reports e (take 60 rs)"
  have e': "e' = bw_reports e1 (drop 60 rs)"
    unfolding e'_def e1_def by (simp only: bw_reports_simps(3) [symmetric] append_take_drop_id)
  have "settling p50 seed 9 e1"
    using quiet_reports_settle [OF start halves(1)] settled_after_60 assms(5) unfolding e1_def
    by (intro settling_9 [where k = "((\<lambda>k. (7 * k + 9) div 10) ^^ 60) (2 ^ 33)"]) (simp_all add: min_absorb2)
  then have "recover_target seed rate \<le> uint (bw_btl e')"
    unfolding e' using halves(2) assms(5) by (intro settled_reports_raise) simp_all
  moreover have upper: "uint (bw_btl e') \<le> max (uint (bw_btl e)) (recover_target seed rate)"
    using quiet_reports_settle [OF start assms(4)] by (simp add: e'_def)
  moreover have "bw_btl e' = seed" if "rate \<le> 0"
    using calculation that ok by (simp add: recover_target_def bw_ok_def word_uint_eq_iff)
  ultimately show ?thesis
    by blast
qed

lemma constant_signs: "0 < kRecoverLateThreshold" "0 < kCeThreshold"
  by code_simp+

definition quiet_report_at :: "double \<Rightarrow> report_signals" where
  "quiet_report_at rate = clean_report\<lparr> sg_recv_rate := rate, sg_sustained_overload := True \<rparr>"

lemma recovery_reaches_seed_witness:
  "let e = foldl bw_step (new_estimator 1000000) [Peer_Report (clean_report\<lparr> sg_p50_ms := 90 \<rparr>) 1, Report_Timeout]
   in bw_btl (bw_reports e (replicate 180 (quiet_report_at 0, 7))) = 1000000 \<and>
      749999 \<le> uint (bw_btl (bw_reports e (replicate 180 (quiet_report_at 625000, 7))))"
proof -
  let ?e = "foldl bw_step (new_estimator 1000000) [Peer_Report (clean_report\<lparr> sg_p50_ms := 90 \<rparr>) 1, Report_Timeout]"
  have base: "bw_rt_prop_us ?e = 90000"
    by (simp add: on_report_delay bw_on_report_timeout_def clean_report_def track_delay_def new_estimator_def Let_def)
  define rs where "rs rate = replicate 180 (quiet_report_at rate, 7 :: time)" for rate
  have quiet: "\<forall>(s, t) \<in> set (rs rate). quiet 30 rate s" for rate
    using constant_signs by (simp add: rs_def quiet_def quiet_report_at_def clean_report_def)
  have len: "180 \<le> length (rs rate)" for rate
    by (simp only: rs_def length_replicate order_refl)
  have ok: "max 1000000 kMinBtlBps = 1000000" "rate_ok (max 1000000 kMinBtlBps)"
    by (simp_all add: rate_ok_def kMinBtlBps_def max_def)
  have low: "bw_rt_prop_us ?e = 0 \<or> ucast (30 :: u32) * 1000 \<le> bw_rt_prop_us ?e"
    unfolding base by simp
  have run: "recover_target 1000000 rate \<le> uint (bw_btl (bw_reports ?e (rs rate))) \<and>
      (rate \<le> 0 \<longrightarrow> bw_btl (bw_reports ?e (rs rate)) = 1000000)" for rate
    using recovery_reaches_seed [OF ok(2) refl low quiet len, unfolded ok(1)] by blast
  have f: "1199999 / 1000000 \<le> rnd64 (12 / 10)"
    by code_simp
  have "of_int 749999 \<le> 625000 * rnd64 (12 / 10)"
    using mult_left_mono [OF f, of 625000] by simp
  then have "of_int 749999 \<le> fmul 625000 (rnd64 (12 / 10))"
    unfolding fmul_def by (intro r64.rnd_ge_int) simp_all
  then have "749999 \<le> ftrunc (min (of_int (uint (1000000 :: u64))) (fmul 625000 (rnd64 (12 / 10))))"
    by (intro ftrunc_ge) simp
  then have "749999 \<le> recover_target 1000000 625000"
    by (simp add: recover_target_def)
  with run [of 0] run [of 625000] show ?thesis
    unfolding rs_def Let_def by (auto simp only: order_refl simp_thms intro: order_trans)
qed

end
