(* ===== verification/Send_Queue.thy ===== *)
theory Send_Queue
  imports Data_Packet Blocking_Queue "HOL-Library.List_Lexorder"
begin

text \<open>
  The application side of sending, \<open>transport.cpp\<close>: limits of the configuration, the queue of
  messages by priority, and its transfer to the encoder (\<open>send_message\<close>, \<open>process_send_queue\<close>,
  \<open>encode_loop\<close>, \<open>clear_outbound_impl\<close>). The peer table maps identifiers to peers; a \<open>Peer*\<close> is the
  key of its entry. The blocking queues are represented by their contents, with the same
  interface as the node-based queue of \<open>Blocking_Queue\<close>.
\<close>

section \<open>Queues by contents\<close>

record 'a fifo =
  fifo_items :: "'a list"
  fifo_capacity :: nat
  fifo_closed :: bool

definition fifo_try_push :: "'a \<Rightarrow> 'a fifo \<Rightarrow> bool \<times> 'a fifo" where
  "fifo_try_push x q =
    (if fifo_closed q \<or> full (fifo_capacity q) (fifo_items q) then (False, q)
     else (True, q\<lparr> fifo_items := fifo_items q @ [x] \<rparr>))"

definition fifo_poll :: "'a fifo \<Rightarrow> 'a option \<times> 'a fifo" where
  "fifo_poll q =
    (case fifo_items q of [] \<Rightarrow> (None, q) | x # xs \<Rightarrow> (Some x, q\<lparr> fifo_items := xs \<rparr>))"

definition fifo_close :: "'a fifo \<Rightarrow> 'a fifo" where
  "fifo_close q = q\<lparr> fifo_closed := True \<rparr>"

interpretation fifo: bounded_fifo fifo_items "\<lambda>_. True" fifo_capacity fifo_closed
  "\<lambda>x q. Some (fifo_try_push x q)" "\<lambda>q. Some (fifo_poll q)" fifo_close
  by unfold_locales (auto simp: fifo_try_push_def fifo_poll_def fifo_close_def split: list.split)

section \<open>State\<close>

record send_msg =
  sm_peer :: bytes
  sm_payload :: bytes
  sm_channel :: u8

record encode_task =
  et_peer :: bytes
  et_payload :: bytes
  et_channel :: u8

record outbound_packet =
  op_peer :: bytes
  op_channel :: u8
  op_datagram :: bytes

record send_side =
  s_running :: bool
  s_lite_mode :: bool
  s_send_queue :: "(int, send_msg list) omap"
  s_encode_queue :: "encode_task fifo"
  s_outbound_queue :: "outbound_packet fifo"
  s_audio_queue :: "outbound_packet fifo"
  s_drain_until_ms :: "u64 list"
  s_fd_tx_bytes :: u64
  s_evac_mode :: int
  s_evac_keyframe_sent :: bool
  s_evac_freeze_until_ns :: u64
  s_last_app_send_ms :: u64
  s_file_id_out :: u32

definition new_fifo :: "nat \<Rightarrow> 'a fifo" where
  "new_fifo c = \<lparr> fifo_items = [], fifo_capacity = c, fifo_closed = False \<rparr>"

definition new_send_side :: "tight_config \<Rightarrow> send_side" where
  "new_send_side cfg =
    (let audio = (c_lite_profile cfg = Audio);
         encode_cap = (if c_lite_mode cfg then min (c_encode_queue_limit cfg) (if audio then 16 else 64)
           else c_encode_queue_limit cfg);
         outbound_cap = (if c_lite_mode cfg then min (c_outbound_queue_limit cfg) (if audio then 32 else 256)
           else c_outbound_queue_limit cfg)
     in \<lparr> s_running = False, s_lite_mode = c_lite_mode cfg, s_send_queue = [],
       s_encode_queue = new_fifo encode_cap, s_outbound_queue = new_fifo outbound_cap,
       s_audio_queue = new_fifo (if c_lite_mode cfg \<and> audio then 48 else 128),
       s_drain_until_ms = replicate 8 0, s_fd_tx_bytes = 0, s_evac_mode = 0, s_evac_keyframe_sent = False,
       s_evac_freeze_until_ns = 0, s_last_app_send_ms = 0, s_file_id_out = 1 \<rparr>)"

definition queue_limit :: "tight_config \<Rightarrow> bool \<Rightarrow> nat" where
  "queue_limit cfg lite =
    (if \<not> lite then c_queue_limit cfg
     else if c_lite_profile cfg = Audio then min (c_queue_limit cfg) 64
     else min (c_queue_limit cfg) 128)"

definition max_message_bytes :: "tight_config \<Rightarrow> nat" where
  "max_message_bytes cfg = max (8 * 1024) (min (c_max_message_bytes cfg) (10 * 1024 * 1024))"

definition flush_interval :: "tight_config \<Rightarrow> bool \<Rightarrow> time" where
  "flush_interval cfg lite = (if lite then max (c_flush_interval cfg) (ms 10) else c_flush_interval cfg)"

definition kKeyframeHoldTotal :: time where "kKeyframeHoldTotal = ms 800"

section \<open>Submitting a message\<close>

text \<open>Messages counted against the limit: the send queue and the encode queue.\<close>

definition queued_total :: "send_side \<Rightarrow> nat" where
  "queued_total st = sum_list (map (\<lambda>(k, q). length q) (s_send_queue st)) + length (fifo_items (s_encode_queue st))"

definition enqueue_msg :: "int \<Rightarrow> send_msg \<Rightarrow> send_side \<Rightarrow> send_side" where
  "enqueue_msg priority m st =
    st\<lparr> s_send_queue := om_put priority
      ((case map_of (s_send_queue st) priority of None \<Rightarrow> [] | Some q \<Rightarrow> q) @ [m]) (s_send_queue st) \<rparr>"

definition send_message :: "tight_config \<Rightarrow> time \<Rightarrow> u64 \<Rightarrow> bytes \<Rightarrow> bytes \<Rightarrow> int \<Rightarrow> u8 \<Rightarrow> bool \<Rightarrow> send_side \<Rightarrow>
    bool \<times> send_side" where
  "send_message cfg now unix peer_id payload priority channel keyframe st =
    (if \<not> s_running st then (False, st)
     else if length payload > max_message_bytes cfg then (False, st)
     else if queued_total st \<ge> queue_limit cfg (s_lite_mode st) then (False, st)
     else if fifo_capacity (s_outbound_queue st) > 0 \<and>
         length (fifo_items (s_outbound_queue st)) \<ge> fifo_capacity (s_outbound_queue st) then (False, st)
     else
       let st = enqueue_msg priority \<lparr> sm_peer = peer_id, sm_payload = payload, sm_channel = channel \<rparr> st;
           st = (if keyframe \<and> s_evac_mode st = 1
             then
               let st = st\<lparr> s_evac_keyframe_sent := True \<rparr>;
                   hold_until = now + kKeyframeHoldTotal;
                   cur = s_evac_freeze_until_ns st
               in if cur = 0 \<or> hold_until > sint cur
                  then st\<lparr> s_evac_freeze_until_ns := word_of_int hold_until \<rparr> else st
             else st)
       in (True, st\<lparr> s_last_app_send_ms := unix \<rparr>))"

section \<open>From the send queue to the encoder\<close>

text \<open>\<open>m_peers.find\<close>, then the first entry whose peer carries the identifier.\<close>

definition find_peer :: "(bytes, peer) omap \<Rightarrow> bytes \<Rightarrow> bytes option" where
  "find_peer peers peer_id =
    (if map_of peers peer_id \<noteq> None then Some peer_id
     else map_option fst (List.find (\<lambda>(k, p). m_id p = peer_id) peers))"

definition draining :: "send_side \<Rightarrow> u8 \<Rightarrow> u64 \<Rightarrow> bool" where
  "draining st channel unix \<longleftrightarrow> channel < 8 \<and> unix < s_drain_until_ms st ! unat channel"

definition requeue :: "tight_config \<Rightarrow> int \<Rightarrow> send_msg \<Rightarrow> send_side \<Rightarrow> send_side" where
  "requeue cfg priority m st =
    (if queued_total st < queue_limit cfg (s_lite_mode st) then enqueue_msg priority m st else st)"

text \<open>
  \<open>try_push\<close> takes its argument by value, so the call moves the payload out of \<open>task\<close> also when it
  then refuses the item: the message put back is the moved-from one, with an empty payload.
\<close>

definition process_item :: "tight_config \<Rightarrow> (bytes, peer) omap \<Rightarrow> u64 \<Rightarrow> int \<Rightarrow> send_msg \<Rightarrow> send_side \<Rightarrow> send_side" where
  "process_item cfg peers unix priority m st =
    (case find_peer peers (sm_peer m) of
       None \<Rightarrow> st
     | Some k \<Rightarrow>
         let p = the (map_of peers k)
         in if draining st (sm_channel m) unix then st
            else if m_state p \<noteq> St_Online \<and> m_state p \<noteq> St_Established then
              (if m_state p \<noteq> St_Closed then requeue cfg priority m st else st)
            else
              let task = \<lparr> et_peer = k, et_payload = sm_payload m, et_channel = sm_channel m \<rparr>;
                  (pushed, q) = fifo_try_push task (s_encode_queue st);
                  task = task\<lparr> et_payload := [] \<rparr>;
                  st = st\<lparr> s_encode_queue := q \<rparr>
              in if pushed then st
                 else requeue cfg 0 \<lparr> sm_peer = sm_peer m, sm_payload = et_payload task, sm_channel = et_channel task \<rparr> st)"

text \<open>The messages in the order they are processed: by descending priority, first in first out.\<close>

definition by_priority :: "(int, send_msg list) omap \<Rightarrow> (int \<times> send_msg) list" where
  "by_priority sq = concat (map (\<lambda>(priority, q). map (Pair priority) q) (rev sq))"

definition process_send_queue :: "tight_config \<Rightarrow> (bytes, peer) omap \<Rightarrow> u64 \<Rightarrow> send_side \<Rightarrow> send_side" where
  "process_send_queue cfg peers unix st =
    foldl (\<lambda>st (priority, m). process_item cfg peers unix priority m st)
      (st\<lparr> s_send_queue := [] \<rparr>) (by_priority (s_send_queue st))"

text \<open>One turn of \<open>encode_loop\<close> and \<open>drain_encode\<close>: the task to fragment, if any.\<close>

definition next_encode_task :: "u64 \<Rightarrow> send_side \<Rightarrow> encode_task option \<times> send_side" where
  "next_encode_task unix st =
    (let (task, q) = fifo_poll (s_encode_queue st);
         st = st\<lparr> s_encode_queue := q \<rparr>
     in case task of
          None \<Rightarrow> (None, st)
        | Some t \<Rightarrow> if draining st (et_channel t) unix then (None, st) else (Some t, st))"

text \<open>Video is dropped from all queues, audio survives in the send and encode queues.\<close>

definition clear_outbound_impl :: "send_side \<Rightarrow> send_side" where
  "clear_outbound_impl st =
    (let sq = map (\<lambda>(k, q). (k, if k < 1 then [] else q)) (s_send_queue st);
         keep_audio = filter (\<lambda>t. et_channel t = 1) (fifo_items (s_encode_queue st));
         eq = foldl (\<lambda>q t. snd (fifo_try_push t q)) ((s_encode_queue st)\<lparr> fifo_items := [] \<rparr>) keep_audio
     in st\<lparr> s_send_queue := sq, s_encode_queue := eq,
          s_outbound_queue := (s_outbound_queue st)\<lparr> fifo_items := [] \<rparr> \<rparr>)"

definition drain_channel :: "u64 \<Rightarrow> u8 \<Rightarrow> u64 \<Rightarrow> send_side \<Rightarrow> send_side" where
  "drain_channel unix channel duration st =
    (if channel < 8 then st\<lparr> s_drain_until_ms := (s_drain_until_ms st)[unat channel := unix + duration] \<rparr> else st)"

section \<open>What a turn of the reactor does to waiting messages\<close>

definition ready_peer :: "(bytes, peer) omap \<Rightarrow> bytes \<Rightarrow> bool" where
  "ready_peer peers peer_id \<longleftrightarrow>
    (case find_peer peers peer_id of None \<Rightarrow> False
     | Some k \<Rightarrow> m_state (the (map_of peers k)) = St_Online \<or> m_state (the (map_of peers k)) = St_Established)"

definition task_of :: "(bytes, peer) omap \<Rightarrow> send_msg \<Rightarrow> encode_task" where
  "task_of peers m =
    \<lparr> et_peer = the (find_peer peers (sm_peer m)), et_payload = sm_payload m, et_channel = sm_channel m \<rparr>"

definition emptied :: "send_msg \<Rightarrow> send_msg" where
  "emptied m = m\<lparr> sm_payload := [] \<rparr>"

definition zero_queue :: "send_msg list \<Rightarrow> (int, send_msg list) omap" where
  "zero_queue held = (if held = [] then [] else [(0, held)])"

text \<open>How many of \<open>n\<close> messages the encode queue takes.\<close>

definition free_places :: "'a fifo \<Rightarrow> nat \<Rightarrow> nat" where
  "free_places q n = (if fifo_capacity q = 0 then n else fifo_capacity q - length (fifo_items q))"

lemma enqueue_zero: "s_send_queue st = zero_queue held \<Longrightarrow> enqueue_msg 0 m st = st\<lparr> s_send_queue := zero_queue (held @ [m]) \<rparr>"
  by (simp add: enqueue_msg_def zero_queue_def)

lemma total_zero: "s_send_queue st = zero_queue held \<Longrightarrow> queued_total st = length held + length (fifo_items (s_encode_queue st))"
  by (simp add: queued_total_def zero_queue_def)

lemma process_ready_item:
  assumes "ready_peer peers (sm_peer m)" "\<not> draining st (sm_channel m) unix" "s_send_queue st = zero_queue held"
    "\<not> fifo_closed (s_encode_queue st)"
  shows "process_item cfg peers unix priority m st =
    (if \<not> full (fifo_capacity (s_encode_queue st)) (fifo_items (s_encode_queue st))
     then st\<lparr> s_encode_queue := (s_encode_queue st)\<lparr> fifo_items := fifo_items (s_encode_queue st) @ [task_of peers m] \<rparr> \<rparr>
     else if length held + length (fifo_items (s_encode_queue st)) < queue_limit cfg (s_lite_mode st)
     then st\<lparr> s_send_queue := zero_queue (held @ [emptied m]) \<rparr> else st)"
proof -
  obtain k where k: "find_peer peers (sm_peer m) = Some k"
    and state: "m_state (the (map_of peers k)) = St_Online \<or> m_state (the (map_of peers k)) = St_Established"
    using assms(1) by (auto simp: ready_peer_def split: option.splits)
  have emptied: "\<lparr> sm_peer = sm_peer m, sm_payload = [], sm_channel = sm_channel m \<rparr> = emptied m"
    by (simp add: emptied_def)
  have same: "st\<lparr> s_encode_queue := s_encode_queue st \<rparr> = st"
    by simp
  show ?thesis
    using k state assms(2,4)
    by (auto simp: process_item_def Let_def fifo_try_push_def task_of_def requeue_def emptied same
        enqueue_zero [OF assms(3)] total_zero [OF assms(3)])
qed

lemma process_ready_items:
  assumes "\<forall>(priority, m) \<in> set items. ready_peer peers (sm_peer m) \<and> \<not> draining st (sm_channel m) unix"
    and "s_send_queue st = zero_queue held" "\<not> fifo_closed (s_encode_queue st)"
    and "q = s_encode_queue st" "n = free_places q (length items)"
    and "tasks = fifo_items q @ map (task_of peers \<circ> snd) (take n items)"
    and "returned = held @ map (emptied \<circ> snd) (take (queue_limit cfg (s_lite_mode st) - length held - length tasks) (drop n items))"
  shows "foldl (\<lambda>st (priority, m). process_item cfg peers unix priority m st) st items =
    st\<lparr> s_encode_queue := q\<lparr> fifo_items := tasks \<rparr>, s_send_queue := zero_queue returned \<rparr>"
  using assms
proof (induction items arbitrary: st held q n tasks returned)
  case Nil
  then show ?case
    by simp
next
  case (Cons item items)
  obtain priority m where item: "item = (priority, m)"
    by force
  have m: "ready_peer peers (sm_peer m)" "\<not> draining st (sm_channel m) unix"
    using Cons.prems(1) by (auto simp: item)
  note step = process_ready_item [OF m Cons.prems(2,3), of cfg priority]
  let ?next = "process_item cfg peers unix priority m st"
  have rest: "\<forall>(priority, m) \<in> set items. ready_peer peers (sm_peer m) \<and> \<not> draining ?next (sm_channel m) unix"
    using Cons.prems(1) by (auto simp: step draining_def)
  show ?case
  proof (cases "full (fifo_capacity q) (fifo_items q)")
    case False
    have n: "n = Suc (free_places (s_encode_queue ?next) (length items))"
      using False Cons.prems(4,5) by (auto simp: step free_places_def full_def)
    have next_eq: "?next = st\<lparr> s_encode_queue := q\<lparr> fifo_items := fifo_items q @ [task_of peers m] \<rparr> \<rparr>"
      using False Cons.prems(4) by (simp add: step)
    show ?thesis
      using Cons.prems(2,3,4)
        Cons.IH [of ?next held "q\<lparr> fifo_items := fifo_items q @ [task_of peers m] \<rparr>", OF rest _ _ _ refl refl refl]
      by (simp add: item next_eq n Cons.prems(6,7))
  next
    case True
    have n: "n = 0" "free_places (s_encode_queue st) (length items) = 0"
      using True Cons.prems(4,5) by (auto simp: free_places_def full_def)
    have next_eq: "?next = (if length held + length (fifo_items q) < queue_limit cfg (s_lite_mode st)
        then st\<lparr> s_send_queue := zero_queue (held @ [emptied m]) \<rparr> else st)"
      using True Cons.prems(4) by (simp add: step)
    show ?thesis
    proof (cases "length held + length (fifo_items q) < queue_limit cfg (s_lite_mode st)")
      case room: True
      then obtain r where r: "queue_limit cfg (s_lite_mode st) - (length held + length (fifo_items (s_encode_queue st))) = Suc r"
        unfolding Cons.prems(4) by (metis Suc_diff_Suc)
      then have r': "queue_limit cfg (s_lite_mode st) - Suc (length held + length (fifo_items (s_encode_queue st))) = r"
        by linarith
      have next_room: "?next = st\<lparr> s_send_queue := zero_queue (held @ [emptied m]) \<rparr>"
        using room by (simp add: next_eq)
      show ?thesis
        using Cons.prems(2,3,4) Cons.IH [of ?next "held @ [emptied m]" q, OF rest _ _ _ refl refl refl]
        by (simp add: item next_room n Cons.prems(6,7) r r')
    next
      case False
      then have next_full: "?next = st"
        by (simp add: next_eq)
      show ?thesis
        using Cons.prems(2,3,4) False Cons.IH [of ?next held q, OF rest _ _ _ refl refl refl]
        by (simp add: item next_full n Cons.prems(6,7))
    qed
  qed
qed

text \<open>
  C38: a full encode queue empties messages. When all waiting messages are for ready peers on
  channels that are not drained, a turn hands them to the encoder by descending priority and in the order
  of submission as long as there are places; the others are put back at priority 0, up to the queue
  limit, but with empty payloads: their contents are lost although \<open>send\<close> had accepted them.
\<close>

theorem full_encode_queue_empties_messages:
  assumes "\<forall>(priority, m) \<in> set (by_priority (s_send_queue st)). ready_peer peers (sm_peer m) \<and> \<not> draining st (sm_channel m) unix"
    and "\<not> fifo_closed (s_encode_queue st)"
    and "msgs = map snd (by_priority (s_send_queue st))" "n = free_places (s_encode_queue st) (length msgs)"
    and "st' = process_send_queue cfg peers unix st"
  shows "fifo_items (s_encode_queue st') = fifo_items (s_encode_queue st) @ map (task_of peers) (take n msgs) \<and>
    s_send_queue st' = zero_queue (map emptied
      (take (queue_limit cfg (s_lite_mode st) - length (fifo_items (s_encode_queue st'))) (drop n msgs)))"
proof -
  have "st' = (st\<lparr> s_send_queue := [] \<rparr>)\<lparr>
      s_encode_queue := (s_encode_queue st)\<lparr> fifo_items := fifo_items (s_encode_queue st) @ map (task_of peers) (take n msgs) \<rparr>,
      s_send_queue := zero_queue (map emptied (take (queue_limit cfg (s_lite_mode st) -
        length (fifo_items (s_encode_queue st) @ map (task_of peers) (take n msgs))) (drop n msgs))) \<rparr>"
    unfolding assms(5) process_send_queue_def
    using assms(1,2) by (subst process_ready_items [OF _ _ _ refl refl refl refl, of _ _ _ _ "[]"])
      (auto simp: zero_queue_def draining_def assms(3,4) take_map drop_map o_def)
  then show ?thesis
    by simp
qed

definition waiting_two :: send_side where
  "waiting_two = (new_send_side (default_config\<lparr> c_encode_queue_limit := 1 \<rparr>))\<lparr> s_send_queue :=
     [(0, [\<lparr> sm_peer = [7], sm_payload = [1, 2], sm_channel = 0 \<rparr>]), (5, [\<lparr> sm_peer = [7], sm_payload = [3], sm_channel = 1 \<rparr>])] \<rparr>"

lemma full_encode_queue_empties_messages_witness:
  "s_send_queue (process_send_queue default_config [([7], new_peer\<lparr> m_state := St_Online \<rparr>)] 0 waiting_two) =
    [(0, [\<lparr> sm_peer = [7], sm_payload = [], sm_channel = 0 \<rparr>])]"
  using full_encode_queue_empties_messages [of waiting_two "[([7], new_peer\<lparr> m_state := St_Online \<rparr>)]" 0, OF _ _ refl refl refl, of default_config]
  by (simp add: waiting_two_def by_priority_def ready_peer_def find_peer_def draining_def new_send_side_def new_fifo_def
      default_config_def free_places_def zero_queue_def emptied_def queue_limit_def task_of_def)

end
