(* ===== verification/File_Transfer.thy ===== *)
theory File_Transfer
  imports Send_Queue
begin

text \<open>
  Files and data messages, \<open>transport.cpp\<close>: a file is sent as a manifest and chunks on channel 2, a data
  message with a tag byte on channel 3; the receiver sorts delivered messages by their first byte.
  The receiver puts a file together from its chunks in any order.
\<close>

section \<open>Sending\<close>

definition kFileChannel :: u8 where "kFileChannel = 2"
definition kDataChannel :: u8 where "kDataChannel = 3"
definition kFileChunkSize :: nat where "kFileChunkSize = 60 * 1024"

definition put_be16 :: "bytes \<Rightarrow> u16 \<Rightarrow> bytes" where "put_be16 b v = b @ mem16 (to_be16 v)"
definition put_be32 :: "bytes \<Rightarrow> u32 \<Rightarrow> bytes" where "put_be32 b v = b @ mem32 (to_be32 v)"
definition put_be64 :: "bytes \<Rightarrow> u64 \<Rightarrow> bytes" where "put_be64 b v = b @ mem64 (to_be64 v)"

definition file_manifest :: "u32 \<Rightarrow> bytes \<Rightarrow> bytes \<Rightarrow> u32 \<Rightarrow> u32 \<Rightarrow> bytes" where
  "file_manifest file_id name data chunk_size chunk_count =
    (let manifest = [0x01];
         manifest = put_be32 manifest file_id;
         manifest = put_be16 manifest (word_of_nat (length name));
         manifest = manifest @ name;
         manifest = put_be64 manifest (word_of_nat (length data));
         manifest = put_be32 manifest chunk_size
     in put_be32 manifest chunk_count)"

definition file_chunk :: "u32 \<Rightarrow> bytes \<Rightarrow> u32 \<Rightarrow> u32 \<Rightarrow> bytes" where
  "file_chunk file_id data chunk_size i =
    (let chunk = [0x02];
         chunk = put_be32 chunk file_id;
         chunk = put_be32 chunk i;
         off = unat i * unat chunk_size;
         len = min (unat chunk_size) (length data - off)
     in chunk @ take len (drop off data))"

definition chunk_count_of :: "bytes \<Rightarrow> u32" where
  "chunk_count_of data =
    (if data = [] then 1
     else word_of_nat ((length data + kFileChunkSize - 1) div kFileChunkSize))"

text \<open>The loop over the chunks stops at the first message that is refused; \<open>snd\<close> submits one.\<close>

fun send_chunks :: "(bytes \<Rightarrow> send_side \<Rightarrow> bool \<times> send_side) \<Rightarrow> bytes list \<Rightarrow> send_side \<Rightarrow> bool \<times> send_side" where
  "send_chunks submit [] st = (True, st)"
| "send_chunks submit (c # cs) st =
    (let (r, st) = submit c st in if \<not> r then (False, st) else send_chunks submit cs st)"

definition send_file :: "tight_config \<Rightarrow> time \<Rightarrow> u64 \<Rightarrow> bytes \<Rightarrow> bytes \<Rightarrow> bytes \<Rightarrow> send_side \<Rightarrow> bool \<times> send_side" where
  "send_file cfg now unix peer_id name data st =
    (if length name > 65535 then (False, st)
     else
       let file_id = s_file_id_out st;
           st = st\<lparr> s_file_id_out := s_file_id_out st + 1 \<rparr>;
           chunk_size = word_of_nat kFileChunkSize;
           chunk_count = chunk_count_of data;
           submit = (\<lambda>msg. send_message cfg now unix peer_id msg 0 kFileChannel False);
           (r1, st) = submit (file_manifest file_id name data chunk_size chunk_count) st
       in if \<not> r1 then (False, st)
          else send_chunks submit (map (\<lambda>i. file_chunk file_id data chunk_size (word_of_nat i)) [0..<unat chunk_count]) st)"

definition send_data :: "tight_config \<Rightarrow> time \<Rightarrow> u64 \<Rightarrow> bytes \<Rightarrow> bytes \<Rightarrow> send_side \<Rightarrow> bool \<times> send_side" where
  "send_data cfg now unix peer_id payload st =
    send_message cfg now unix peer_id ([0x03] @ payload) 0 kDataChannel False st"

definition file_data_pending_bytes :: "send_side \<Rightarrow> u64" where
  "file_data_pending_bytes st =
    sum_list (map (\<lambda>m. if sm_channel m = kFileChannel \<or> sm_channel m = kDataChannel then word_of_nat (length (sm_payload m)) else 0)
      (concat (map snd (s_send_queue st))))"

section \<open>Receiving\<close>

definition be16_at :: "bytes \<Rightarrow> nat \<Rightarrow> u16" where "be16_at p off = to_be16 (load16 p off)"
definition be32_at :: "bytes \<Rightarrow> nat \<Rightarrow> u32" where "be32_at p off = to_be32 (load32 p off)"
definition be64_at :: "bytes \<Rightarrow> nat \<Rightarrow> u64" where "be64_at p off = to_be64 (load64 p off)"

definition handle_file_manifest :: "peer \<Rightarrow> bytes \<Rightarrow> nat \<Rightarrow> peer" where
  "handle_file_manifest peer p off =
    (if length p < off + 4 + 2 + 8 + 4 + 4 then peer
     else
       let file_id = be32_at p off; off = off + 4;
           name_len = unat (be16_at p off); off = off + 2
       in if length p < off + name_len then peer
          else
            let name = take name_len (drop off p); off = off + name_len
            in if length p < off + 8 + 4 + 4 then peer
               else
                 let total = be64_at p off; off = off + 8;
                     chunk_size = be32_at p off; off = off + 4;
                     chunk_count = be32_at p off
                 in if chunk_count > 65536 then peer
                    else peer\<lparr> m_files := om_put file_id
                      \<lparr> fr_name = name, fr_total = total, fr_chunk_size = chunk_size, fr_chunk_count = chunk_count,
                        fr_chunks = replicate (unat chunk_count) None, fr_received = 0 \<rparr> (m_files peer) \<rparr>)"

text \<open>
  Result: the peer, and the file handed to the application when it is complete. The function
  reserves \<open>total\<close> bytes, a number the sender chose, before it joins the chunks; memory is taken to
  suffice, so the exception \<open>reserve\<close> may throw is not modelled.
\<close>

definition handle_file_chunk :: "peer \<Rightarrow> bytes \<Rightarrow> nat \<Rightarrow> peer \<times> (bytes \<times> bytes) option" where
  "handle_file_chunk peer p off =
    (if length p < off + 4 + 4 then (peer, None)
     else
       let file_id = be32_at p off; off = off + 4;
           idx = be32_at p off; off = off + 4;
           chunk = drop off p
       in case map_of (m_files peer) file_id of
            None \<Rightarrow> (peer, None)
          | Some f \<Rightarrow>
              if idx \<ge> fr_chunk_count f then (peer, None)
              else if fr_chunks f ! unat idx \<noteq> None then (peer, None)
              else
                let f = f\<lparr> fr_chunks := (fr_chunks f)[unat idx := Some chunk], fr_received := fr_received f + 1 \<rparr>;
                    peer = peer\<lparr> m_files := om_put file_id f (m_files peer) \<rparr>
                in if fr_received f = fr_chunk_count f
                   then (peer\<lparr> m_files := om_del file_id (m_files peer) \<rparr>,
                     Some (fr_name f, concat (map (\<lambda>c. case c of None \<Rightarrow> [] | Some c \<Rightarrow> c) (fr_chunks f))))
                   else (peer, None))"

text \<open>What reaches the application, through the three callbacks, which are taken to be set.\<close>

datatype delivery = To_Message bytes | To_Data bytes | To_File bytes bytes

definition deliver_message :: "peer \<Rightarrow> bytes \<Rightarrow> peer \<times> delivery list" where
  "deliver_message peer payload =
    (if payload \<noteq> [] \<and> hd payload = 0x01 then (handle_file_manifest peer payload 1, [])
     else if payload \<noteq> [] \<and> hd payload = 0x02 then
       (case handle_file_chunk peer payload 1 of
          (peer, None) \<Rightarrow> (peer, [])
        | (peer, Some (name, data)) \<Rightarrow> (peer, [To_File name data]))
     else if payload \<noteq> [] \<and> hd payload = 0x03 then (peer, [To_Data (tl payload)])
     else (peer, [To_Message payload]))"

fun deliver_messages :: "peer \<Rightarrow> bytes list \<Rightarrow> peer \<times> delivery list" where
  "deliver_messages peer [] = (peer, [])"
| "deliver_messages peer (msg # msgs) =
    (let (peer, ds) = deliver_message peer msg; (peer, rest) = deliver_messages peer msgs in (peer, ds @ rest))"

section \<open>Reading back the messages\<close>

lemma be_at:
  "take 4 (drop off p) = mem32 (to_be32 v) \<Longrightarrow> off + 4 \<le> length p \<Longrightarrow> be32_at p off = v"
  "take 2 (drop off p) = mem16 (to_be16 w) \<Longrightarrow> off + 2 \<le> length p \<Longrightarrow> be16_at p off = w"
  by (simp_all add: be32_at_def be16_at_def load32_mem load16_mem)

lemma be_at_append:
  "length a = off \<Longrightarrow> be32_at (a @ mem32 (to_be32 v) @ b) off = v"
  "length a = off \<Longrightarrow> be16_at (a @ mem16 (to_be16 w) @ b) off = w"
  by (rule be_at; simp)+

lemma read_manifest:
  assumes "length name \<le> 65535" "chunk_count \<le> 65536"
  shows "\<exists>total. handle_file_manifest peer (file_manifest file_id name data chunk_size chunk_count) 1 =
    peer\<lparr> m_files := om_put file_id \<lparr> fr_name = name, fr_total = total, fr_chunk_size = chunk_size,
      fr_chunk_count = chunk_count, fr_chunks = replicate (unat chunk_count) None, fr_received = 0 \<rparr> (m_files peer) \<rparr>"
proof -
  define p where "p = file_manifest file_id name data chunk_size chunk_count"
  have p: "p = 0x01 # mem32 (to_be32 file_id) @ mem16 (to_be16 (word_of_nat (length name))) @ name @
      mem64 (to_be64 (word_of_nat (length data))) @ mem32 (to_be32 chunk_size) @ mem32 (to_be32 chunk_count)"
    by (simp add: p_def file_manifest_def put_be16_def put_be32_def put_be64_def Let_def)
  have len: "length p = length name + 23"
    by (simp add: p)
  have name_len: "unat (word_of_nat (length name) :: u16) = length name"
    using assms(1) by (simp add: unat_of_nat take_bit_nat_eq_self)
  have fields: "be32_at p 1 = file_id"
    by (rule be_at(1); simp add: p)
  have "be16_at p 5 = word_of_nat (length name)"
    using be_at_append(2) [of "0x01 # mem32 (to_be32 file_id)" 5 "word_of_nat (length name)"] by (simp add: p)
  then have "be16_at p (1 + 4) = word_of_nat (length name)"
    by simp
  note fields = fields this
  have "be32_at p (1 + 4 + 2 + length name + 8) = chunk_size"
    using be_at_append(1) [of "0x01 # mem32 (to_be32 file_id) @ mem16 (to_be16 (word_of_nat (length name))) @ name @
      mem64 (to_be64 (word_of_nat (length data)))" "1 + 4 + 2 + length name + 8" chunk_size] by (simp add: p)
  note fields = fields this
  have "be32_at p (1 + 4 + 2 + length name + 8 + 4) = chunk_count"
    using be_at_append(1) [of "0x01 # mem32 (to_be32 file_id) @ mem16 (to_be16 (word_of_nat (length name))) @ name @
      mem64 (to_be64 (word_of_nat (length data))) @ mem32 (to_be32 chunk_size)" "1 + 4 + 2 + length name + 8 + 4" chunk_count "[]"] by (simp add: p)
  note fields = fields this
  have name: "take (length name) (drop (1 + 4 + 2) p) = name"
    by (simp add: p)
  have conds: "\<not> length p < 1 + 4 + 2 + 8 + 4 + 4" "\<not> length p < 1 + 4 + 2 + length name"
    "\<not> length p < 1 + 4 + 2 + length name + 8 + 4 + 4" "\<not> chunk_count > 65536"
    using assms(2) by (simp_all add: len)
  have "handle_file_manifest peer p 1 = peer\<lparr> m_files := om_put file_id \<lparr> fr_name = name,
      fr_total = be64_at p (1 + 4 + 2 + length name), fr_chunk_size = chunk_size,
      fr_chunk_count = chunk_count, fr_chunks = replicate (unat chunk_count) None, fr_received = 0 \<rparr> (m_files peer) \<rparr>"
    unfolding handle_file_manifest_def Let_def by (simp only: fields name conds name_len if_False)
  then show ?thesis
    unfolding p_def by blast
qed

lemma read_chunk:
  fixes file_id i chunk_size data
  defines "p \<equiv> file_chunk file_id data chunk_size i"
  shows "be32_at p 1 = file_id" "be32_at p 5 = i" "9 \<le> length p" "hd p = 0x02" "p \<noteq> []"
    "drop 9 p = take (unat chunk_size) (drop (unat i * unat chunk_size) data)"
proof -
  have p: "p = 0x02 # mem32 (to_be32 file_id) @ mem32 (to_be32 i) @ take (unat chunk_size) (drop (unat i * unat chunk_size) data)"
    by (simp add: p_def file_chunk_def put_be32_def Let_def min_def)
  show "9 \<le> length p" "hd p = 0x02" "p \<noteq> []" "drop 9 p = take (unat chunk_size) (drop (unat i * unat chunk_size) data)"
    by (simp_all add: p)
  show "be32_at p 1 = file_id" "be32_at p 5 = i"
    by (rule be_at; simp add: p)+
qed

section \<open>A file from its chunks\<close>

text \<open>Chunk \<open>i\<close> of a file, and the number of chunks of a file within the receiver's limit.\<close>

definition piece :: "bytes \<Rightarrow> nat \<Rightarrow> bytes" where
  "piece data i = take kFileChunkSize (drop (i * kFileChunkSize) data)"

definition pieces :: "bytes \<Rightarrow> nat" where
  "pieces data = max 1 ((length data + kFileChunkSize - 1) div kFileChunkSize)"

lemma concat_pieces: "concat (map (piece data) [0..<n]) = take (n * kFileChunkSize) data"
proof (induction n)
  case (Suc n)
  have "take (n * kFileChunkSize + kFileChunkSize) data = take (n * kFileChunkSize) data @ piece data n"
    by (simp add: take_add piece_def)
  then show ?case
    using Suc by (simp add: add.commute)
qed simp

lemma pieces_bounds:
  "length data \<le> pieces data * kFileChunkSize" "length data \<le> 65536 * kFileChunkSize \<Longrightarrow> pieces data \<le> 65536" "0 < pieces data"
proof -
  have "(length data + kFileChunkSize - 1) div kFileChunkSize \<le> 65536" if "length data \<le> 65536 * kFileChunkSize"
    using that by (simp add: kFileChunkSize_def div_le_mono less_mult_imp_div_less le_simps)
  then show "length data \<le> 65536 * kFileChunkSize \<Longrightarrow> pieces data \<le> 65536"
    by (simp add: pieces_def)
  show "0 < pieces data"
    by (simp add: pieces_def)
  have "length data \<le> (length data + kFileChunkSize - 1) div kFileChunkSize * kFileChunkSize"
    unfolding kFileChunkSize_def by simp
  then show "length data \<le> pieces data * kFileChunkSize"
    by (rule order_trans) (simp add: pieces_def)
qed

lemma chunk_count_pieces:
  assumes "length data \<le> 65536 * kFileChunkSize"
  shows "unat (chunk_count_of data) = pieces data" "chunk_count_of data \<le> 65536"
proof -
  have "pieces data = (if data = [] then 1 else (length data + kFileChunkSize - 1) div kFileChunkSize)"
    by (auto simp: pieces_def kFileChunkSize_def max_def Suc_le_eq neq_Nil_conv)
  then have "chunk_count_of data = word_of_nat (pieces data)"
    by (simp add: chunk_count_of_def)
  then show eq: "unat (chunk_count_of data) = pieces data"
    using pieces_bounds(2) [OF assms] by (simp add: unat_of_nat take_bit_nat_eq_self)
  then show "chunk_count_of data \<le> 65536"
    using pieces_bounds(2) [OF assms] by (simp add: word_le_nat_alt)
qed

definition chunk_msg :: "u32 \<Rightarrow> bytes \<Rightarrow> nat \<Rightarrow> bytes" where
  "chunk_msg file_id data i = file_chunk file_id data (word_of_nat kFileChunkSize) (word_of_nat i)"

text \<open>The entry of a file of which the chunks in \<open>S\<close> have arrived.\<close>

definition collecting :: "u32 \<Rightarrow> bytes \<Rightarrow> bytes \<Rightarrow> nat set \<Rightarrow> peer \<Rightarrow> bool" where
  "collecting file_id name data S peer \<longleftrightarrow> S \<subset> {..<pieces data} \<and>
     (\<exists>f. map_of (m_files peer) file_id = Some f \<and> fr_name f = name \<and> unat (fr_chunk_count f) = pieces data \<and>
       fr_chunks f = map (\<lambda>i. if i \<in> S then Some (piece data i) else None) [0..<pieces data] \<and>
       unat (fr_received f) = card S)"

lemma chunk_without_file: "map_of (m_files peer) file_id = None \<Longrightarrow> deliver_message peer (chunk_msg file_id data i) = (peer, [])"
  using read_chunk [of file_id data "word_of_nat kFileChunkSize" "word_of_nat i"]
  by (simp add: deliver_message_def chunk_msg_def handle_file_chunk_def Let_def)

lemma chunk_arrives:
  assumes "collecting file_id name data S peer" "length data \<le> 65536 * kFileChunkSize" "i < pieces data"
  obtains (kept) peer' where "collecting file_id name data (insert i S) peer'" "deliver_message peer (chunk_msg file_id data i) = (peer', [])"
  | (complete) peer' where "insert i S = {..<pieces data}" "map_of (m_files peer') file_id = None"
      "deliver_message peer (chunk_msg file_id data i) = (peer', [To_File name data])"
proof -
  let ?n = "pieces data" and ?p = "chunk_msg file_id data i"
  obtain f where f: "map_of (m_files peer) file_id = Some f" "fr_name f = name" "unat (fr_chunk_count f) = ?n"
    "fr_chunks f = map (\<lambda>i. if i \<in> S then Some (piece data i) else None) [0..<?n]" "unat (fr_received f) = card S"
    and S: "S \<subset> {..<?n}"
    using assms(1) by (auto simp: collecting_def)
  have n: "?n \<le> 65536"
    using pieces_bounds(2) [OF assms(2)] .
  have i: "unat (word_of_nat i :: u32) = i"
    using assms(3) n by (simp add: unat_of_nat take_bit_nat_eq_self)
  have size: "unat (word_of_nat kFileChunkSize :: u32) = kFileChunkSize"
    by (simp add: kFileChunkSize_def)
  note msg = read_chunk [of file_id data "word_of_nat kFileChunkSize" "word_of_nat i", folded chunk_msg_def, unfolded i size]
  have tag: "deliver_message peer ?p = (case handle_file_chunk peer ?p 1 of (peer, None) \<Rightarrow> (peer, [])
        | (peer, Some (name, data)) \<Rightarrow> (peer, [To_File name data]))"
    using msg(4,5) by (simp add: deliver_message_def)
  have in_range: "\<not> word_of_nat i \<ge> fr_chunk_count f"
    using assms(3) f(3) i by (simp add: word_le_nat_alt)
  define g where "g = f\<lparr> fr_chunks := (fr_chunks f)[i := Some (piece data i)], fr_received := fr_received f + 1 \<rparr>"
  have eq: "handle_file_chunk peer ?p 1 = (if i \<in> S then (peer, None)
      else if fr_received g = fr_chunk_count g
      then (peer\<lparr> m_files := om_del file_id (om_put file_id g (m_files peer)) \<rparr>,
        Some (name, concat (map (\<lambda>c. case c of None \<Rightarrow> [] | Some c \<Rightarrow> c) (fr_chunks g))))
      else (peer\<lparr> m_files := om_put file_id g (m_files peer) \<rparr>, None))"
    using msg(1-3,6) assms(3) in_range unfolding handle_file_chunk_def Let_def
    by (simp add: f i g_def piece_def)
  show thesis
  proof (cases "i \<in> S")
    case True
    then show thesis
      using assms(1) by (intro kept [of peer]) (simp_all add: tag eq insert_absorb del: One_nat_def)
  next
    case False
    have fin: "finite S"
      using S finite_subset by blast
    have sub: "insert i S \<subseteq> {..<?n}"
      using S assms(3) by auto
    have card: "card (insert i S) = Suc (card S)" "card (insert i S) \<le> ?n"
      using False fin card_mono [OF _ sub] by simp_all
    have g: "fr_name g = name" "unat (fr_chunk_count g) = ?n" "unat (fr_received g) = card (insert i S)"
      "fr_chunks g = map (\<lambda>j. if j \<in> insert i S then Some (piece data j) else None) [0..<?n]"
      using f n card False assms(3) by (auto simp: g_def unat_word_ariths nth_list_update intro!: nth_equalityI)
    have done_iff: "fr_received g = fr_chunk_count g \<longleftrightarrow> insert i S = {..<?n}"
    proof -
      have "insert i S = {..<?n} \<longleftrightarrow> card (insert i S) = ?n"
      proof
        show "insert i S = {..<?n} \<Longrightarrow> card (insert i S) = ?n"
          by (simp only: card_lessThan)
        show "card (insert i S) = ?n \<Longrightarrow> insert i S = {..<?n}"
          by (rule card_subset_eq [OF finite_lessThan sub]) (simp only: card_lessThan)
      qed
      then show ?thesis
        by (simp add: word_unat_eq_iff g(2,3))
    qed
    show thesis
    proof (cases "insert i S = {..<?n}")
      case True
      have "fr_chunks g = map (Some \<circ> piece data) [0..<?n]"
        unfolding g(4) True by simp
      then have "concat (map (\<lambda>c. case c of None \<Rightarrow> [] | Some c \<Rightarrow> c) (fr_chunks g)) = data"
        using concat_pieces [of data ?n] pieces_bounds(1) [of data] by (simp add: o_def)
      then show thesis
        using True False done_iff by (intro complete [of "peer\<lparr> m_files := om_del file_id (om_put file_id g (m_files peer)) \<rparr>"])
          (simp_all add: tag eq del: One_nat_def)
    next
      case incomplete: False
      then have "collecting file_id name data (insert i S) (peer\<lparr> m_files := om_put file_id g (m_files peer) \<rparr>)"
        using sub g by (auto simp: collecting_def)
      then show thesis
        using incomplete False done_iff by (intro kept [of "peer\<lparr> m_files := om_put file_id g (m_files peer) \<rparr>"])
          (simp_all add: tag eq del: One_nat_def)
    qed
  qed
qed

lemma chunks_without_file:
  "map_of (m_files peer) file_id = None \<Longrightarrow> deliver_messages peer (map (chunk_msg file_id data) is) = (peer, [])"
  by (induction "is") (simp_all add: chunk_without_file)

lemma deliver_messages_append:
  "deliver_messages peer (xs @ ys) =
    (let (peer, ds) = deliver_messages peer xs; (peer, rest) = deliver_messages peer ys in (peer, ds @ rest))"
  by (induction xs arbitrary: peer) (simp_all add: Let_def split_def)

lemma chunks_arrive:
  assumes "length data \<le> 65536 * kFileChunkSize" "collecting file_id name data S peer" "set is \<subseteq> {..<pieces data}"
  shows "snd (deliver_messages peer (map (chunk_msg file_id data) is)) = (if S \<union> set is = {..<pieces data} then [To_File name data] else [])"
  using assms(2,3)
proof (induction "is" arbitrary: S peer)
  case Nil
  then show ?case
    by (auto simp: collecting_def)
next
  case (Cons i "is")
  have i: "i < pieces data" "set is \<subseteq> {..<pieces data}"
    using Cons.prems(2) by simp_all
  from Cons.prems(1) assms(1) i(1) show ?case
  proof (cases rule: chunk_arrives)
    case (kept peer')
    then show ?thesis
      using Cons.IH [OF kept(1) i(2)] by (simp add: split_def Let_def)
  next
    case (complete peer')
    moreover have "S \<union> set (i # is) = {..<pieces data}"
      using complete(1) i(2) by auto
    ultimately show ?thesis
      using chunks_without_file [OF complete(2)] by simp
  qed
qed

section \<open>What is queued for a file\<close>

definition waiting :: "send_side \<Rightarrow> send_msg list" where
  "waiting st = (case map_of (s_send_queue st) 0 of None \<Rightarrow> [] | Some q \<Rightarrow> q)"

lemma send_message_queues:
  "send_message cfg now unix peer_id payload 0 channel False st = (True, st') \<Longrightarrow>
    waiting st' = waiting st @ [\<lparr> sm_peer = peer_id, sm_payload = payload, sm_channel = channel \<rparr>]"
  by (auto simp: send_message_def waiting_def enqueue_msg_def Let_def split: if_splits)

lemma send_chunks_queue:
  "send_chunks (\<lambda>msg. send_message cfg now unix peer_id msg 0 channel False) cs st = (True, st') \<Longrightarrow>
    waiting st' = waiting st @ map (\<lambda>c. \<lparr> sm_peer = peer_id, sm_payload = c, sm_channel = channel \<rparr>) cs"
  by (induction cs arbitrary: st) (auto dest: send_message_queues split: prod.splits if_splits)

lemma send_file_queues:
  assumes "send_file cfg now unix peer_id name data st = (True, st')" "length data \<le> 65536 * kFileChunkSize"
  shows "length name \<le> 65535" "waiting st' = waiting st @ map (\<lambda>c. \<lparr> sm_peer = peer_id, sm_payload = c, sm_channel = kFileChannel \<rparr>)
    (file_manifest (s_file_id_out st) name data (word_of_nat kFileChunkSize) (chunk_count_of data) #
     map (chunk_msg (s_file_id_out st) data) [0..<pieces data])"
proof -
  show "length name \<le> 65535"
    using assms(1) by (simp add: send_file_def split: if_splits)
  have "waiting (st\<lparr> s_file_id_out := x \<rparr>) = waiting st" for x
    by (simp add: waiting_def)
  then show "waiting st' = waiting st @ map (\<lambda>c. \<lparr> sm_peer = peer_id, sm_payload = c, sm_channel = kFileChannel \<rparr>)
    (file_manifest (s_file_id_out st) name data (word_of_nat kFileChunkSize) (chunk_count_of data) #
     map (chunk_msg (s_file_id_out st) data) [0..<pieces data])"
    using assms(1) chunk_count_pieces(1) [OF assms(2)] unfolding send_file_def
    by (auto dest!: send_chunks_queue send_message_queues split: prod.splits if_splits simp: Let_def chunk_msg_def [abs_def])
qed

text \<open>
  C35: a file arrives whole. The messages \<open>send_file\<close> puts in the queue are a manifest and the chunks of the file;
  when the receiver gets the manifest and then any sequence of the chunks, in any order and with
  repetitions, the application gets the file exactly once, with its name and its exact contents, if every
  chunk is among them, and nothing otherwise. Chunks that arrive before the manifest are lost.
\<close>

theorem file_arrives_iff_complete:
  assumes "send_file cfg now unix peer_id name data st = (True, st')" "length data \<le> 65536 * kFileChunkSize"
    and "sent = map sm_payload (drop (length (waiting st)) (waiting st'))"
    and "map_of (m_files peer) (s_file_id_out st) = None"
    and "set early \<subseteq> set (tl sent)" "set received \<subseteq> set (tl sent)"
  shows "snd (deliver_messages peer (early @ hd sent # received)) =
    (if set (tl sent) \<subseteq> set received then [To_File name data] else [])"
proof -
  let ?id = "s_file_id_out st" and ?n = "pieces data"
  let ?chunk = "chunk_msg ?id data"
  have n: "?n \<le> 65536"
    using pieces_bounds(2) [OF assms(2)] .
  have sent: "hd sent = file_manifest ?id name data (word_of_nat kFileChunkSize) (chunk_count_of data)"
    "tl sent = map ?chunk [0..<?n]"
    unfolding assms(3) send_file_queues(2) [OF assms(1,2)] by (simp_all add: o_def)
  obtain "is" js where indices: "received = map ?chunk is" "set is \<subseteq> {..<?n}" "early = map ?chunk js"
  proof -
    have "\<exists>is. msgs = map ?chunk is \<and> set is \<subseteq> {..<?n}" if "set msgs \<subseteq> set (tl sent)" for msgs
      using that unfolding sent
    proof (induction msgs)
      case (Cons msg msgs)
      then obtain i "is" where "msg = ?chunk i" "i < ?n" "msgs = map ?chunk is" "set is \<subseteq> {..<?n}"
        by auto
      then show ?case
        by (intro exI [of _ "i # is"]) simp
    qed simp
    with assms(5,6) that show thesis
      by blast
  qed
  have complete: "set (tl sent) \<subseteq> set received \<longleftrightarrow> set is = {..<?n}"
  proof -
    have "inj_on ?chunk {..<?n}"
    proof (rule inj_onI)
      fix i j
      assume ij: "i \<in> {..<?n}" "j \<in> {..<?n}" "?chunk i = ?chunk j"
      then have "(word_of_nat i :: u32) = word_of_nat j"
        by (metis chunk_msg_def read_chunk(2))
      then show "i = j"
        using ij(1,2) n by (simp add: word_unat_eq_iff unat_of_nat take_bit_nat_eq_self)
    qed
    then have "?chunk ` {..<?n} \<subseteq> ?chunk ` set is \<longleftrightarrow> {..<?n} \<subseteq> set is"
      using indices(2) by (metis inj_on_subset image_mono inj_on_image_eq_iff subset_antisym order_refl)
    then show ?thesis
      using indices(2) by (auto simp: sent indices(1) atLeast0LessThan)
  qed
  obtain total where manifest: "handle_file_manifest peer (hd sent) 1 = peer\<lparr> m_files := om_put ?id
      \<lparr> fr_name = name, fr_total = total, fr_chunk_size = word_of_nat kFileChunkSize, fr_chunk_count = chunk_count_of data,
        fr_chunks = replicate (unat (chunk_count_of data)) None, fr_received = 0 \<rparr> (m_files peer) \<rparr>" (is "_ = ?opened")
    using read_manifest [OF send_file_queues(1) [OF assms(1,2)] chunk_count_pieces(2) [OF assms(2)]] unfolding sent(1) by blast
  have "deliver_message peer (hd sent) = (?opened, [])"
    using manifest by (simp add: deliver_message_def sent(1) file_manifest_def put_be16_def put_be32_def put_be64_def Let_def)
  moreover have "collecting ?id name data {} ?opened"
    using pieces_bounds(3) [of data] chunk_count_pieces(1) [OF assms(2)]
    by (auto simp: collecting_def map_replicate_const)
  ultimately have "snd (deliver_messages peer (early @ hd sent # received)) = (if set is = {..<?n} then [To_File name data] else [])"
    using chunks_arrive [OF assms(2) _ indices(2), of ?id name "{}" ?opened] chunks_without_file [OF assms(4), of data js]
    by (simp add: indices(1,3) deliver_messages_append split_def Let_def)
  then show ?thesis
    unfolding complete .
qed
lemma length_file_messages [simp]:
  "length (file_manifest file_id name data cs cc) = length name + 23"
  "length (file_chunk file_id data cs i) = 9 + min (unat cs) (length data - unat i * unat cs)"
  by (simp_all add: file_manifest_def file_chunk_def put_be16_def put_be32_def put_be64_def Let_def)

text \<open>The chunk also arrives once too early, and twice afterwards.\<close>

definition ready_to_send :: send_side where
  "ready_to_send = (new_send_side default_config)\<lparr> s_running := True \<rparr>"

lemma file_arrives_iff_complete_witness:
  "snd (deliver_messages new_peer [chunk_msg 1 [9, 8] 0, file_manifest 1 [7] [9, 8] 61440 1, chunk_msg 1 [9, 8] 0, chunk_msg 1 [9, 8] 0]) =
    [To_File [7] [9, 8]]"
proof -
  have one: "pieces [9, 8] = 1" "chunk_count_of [9, 8] = 1"
    by (simp_all add: pieces_def chunk_count_of_def kFileChunkSize_def)
  obtain st' where st': "send_file default_config 0 0 [5] [7] [9, 8] ready_to_send = (True, st')"
    by (simp add: send_file_def one send_message_def queued_total_def enqueue_msg_def queue_limit_def max_message_bytes_def
        ready_to_send_def new_send_side_def new_fifo_def default_config_def Let_def kFileChunkSize_def)
  have "waiting ready_to_send = []" "s_file_id_out ready_to_send = 1"
    by (simp_all add: waiting_def ready_to_send_def new_send_side_def Let_def)
  then have "waiting st' = map (\<lambda>c. \<lparr> sm_peer = [5], sm_payload = c, sm_channel = kFileChannel \<rparr>)
      [file_manifest 1 [7] [9, 8] 61440 1, chunk_msg 1 [9, 8] 0]"
    using send_file_queues(2) [OF st'] by (simp add: one) (simp add: kFileChunkSize_def)
  then show ?thesis
    using file_arrives_iff_complete [OF st' _ refl, of new_peer "[chunk_msg 1 [9, 8] 0]" "[chunk_msg 1 [9, 8] 0, chunk_msg 1 [9, 8] 0]"]
      \<open>waiting ready_to_send = []\<close> by (simp add: new_peer_def kFileChunkSize_def del: deliver_messages.simps)
qed

text \<open>
  Messages are told apart by their first byte alone: an application message beginning with 1 or 2 never reaches
  the application as a message, on whatever channel it was sent.
\<close>

lemma first_byte_captured:
  "hd payload = 1 \<Longrightarrow> payload \<noteq> [] \<Longrightarrow> snd (deliver_message peer payload) = []"
  "hd payload = 2 \<Longrightarrow> payload \<noteq> [] \<Longrightarrow> To_Message m \<notin> set (snd (deliver_message peer payload))"
  by (auto simp: deliver_message_def split: option.splits prod.splits)

end
