(* ===== verification/Secure_Channel.thy ===== *)
theory Secure_Channel
  imports Data_Packet Aes_Gcm
begin

text \<open>
  Sealing of packets on the wire, \<open>transport.cpp\<close>: the nonce of a packet, \<open>build_wire_packet\<close>, and on the
  receiving side the decoding of a datagram and \<open>decrypt_payload\<close>. A sealed packet comes out as it
  went in, and what is accepted as sealed was sealed under the receiver's key.
\<close>

section \<open>Definitions\<close>

definition kGcmTagSize :: nat where "kGcmTagSize = 16"

definition build_nonce :: "packet_header \<Rightarrow> bytes" where
  "build_nonce header =
    (let n = replicate 12 0;
         n = put32 0 (h_client_id header) n
     in if h_type header = Command then (put32 4 (h_sequence header) n)[8 := type_code (h_type header)]
        else
          let n = put32 4 (h_message_id header) n;
              n = put16 8 (h_fragment_index header) n
          in n[10 := type_code (h_type header)])"

text \<open>The copies stay inside the buffer as long as the header's payload size is the payload's length.\<close>

definition build_wire_packet :: "tight_config \<Rightarrow> peer \<Rightarrow> packet_header \<Rightarrow> bytes \<Rightarrow> bytes" where
  "build_wire_packet cfg p header payload =
    (let encrypted = (c_encryption_enabled cfg \<and> m_crypto_ready p);
         wire_header = (if encrypted then header\<lparr> h_flags := h_flags header OR kFlagEncrypted,
           h_payload_size := word_of_nat (length payload + kGcmTagSize) \<rparr> else header);
         datagram = replicate (kHeaderSize + unat (h_payload_size wire_header)) 0;
         datagram = fst (encode_header_to wire_header datagram);
         datagram =
           (if \<not> encrypted then (if payload \<noteq> [] then blit kHeaderSize payload datagram else datagram)
            else
              let nonce = build_nonce wire_header;
                  (ct, tag) = aes256_gcm_encrypt (m_crypto_key p) nonce (take (kHeaderSize - 4) datagram) payload
              in blit (kHeaderSize + length payload) tag (blit kHeaderSize ct datagram))
     in finalize_crc datagram (length datagram))"

definition decrypt_payload :: "peer \<Rightarrow> packet_header \<Rightarrow> bytes \<Rightarrow> (packet_header \<times> bytes) option" where
  "decrypt_payload p header payload =
    (if \<not> m_crypto_ready p then None
     else if length payload < kGcmTagSize then None
     else
       let ct_len = length payload - kGcmTagSize;
           nonce = build_nonce header;
           aad = fst (encode_to header [] (replicate kHeaderSize 0))
       in case aes256_gcm_decrypt (m_crypto_key p) nonce (take (kHeaderSize - 4) aad) (take ct_len payload) (drop ct_len payload) of
            None \<Rightarrow> None
          | Some pt \<Rightarrow> Some (header\<lparr> h_payload_size := word_of_nat ct_len, h_flags := h_flags header AND NOT kFlagEncrypted \<rparr>, pt))"

text \<open>A datagram from the socket up to the dispatch in \<open>handle_packet\<close>.\<close>

definition open_datagram :: "peer \<Rightarrow> bytes \<Rightarrow> (packet_header \<times> bytes) option" where
  "open_datagram p buf =
    (if length buf < kHeaderSize then None
     else case decode buf zero_header [] of
       (ok, header, payload) \<Rightarrow>
         if \<not> ok then None
         else if h_flags header AND kFlagEncrypted \<noteq> 0 then decrypt_payload p header payload
         else Some (header, payload))"

section \<open>The sealed datagram\<close>

abbreviation sealing :: "tight_config \<Rightarrow> peer \<Rightarrow> bool" where
  "sealing cfg p \<equiv> c_encryption_enabled cfg \<and> m_crypto_ready p"

definition wire_header :: "tight_config \<Rightarrow> peer \<Rightarrow> packet_header \<Rightarrow> bytes \<Rightarrow> packet_header" where
  "wire_header cfg p h payload =
    (if sealing cfg p then h\<lparr> h_flags := h_flags h OR kFlagEncrypted, h_payload_size := word_of_nat (length payload + 16) \<rparr> else h)"

definition wire_payload :: "tight_config \<Rightarrow> peer \<Rightarrow> packet_header \<Rightarrow> bytes \<Rightarrow> bytes" where
  "wire_payload cfg p h payload =
    (if sealing cfg p
     then let (ct, tag) = aes256_gcm_encrypt (m_crypto_key p) (build_nonce (wire_header cfg p h payload))
            (header_bytes (wire_header cfg p h payload)) payload in ct @ tag
     else payload)"

lemma gcm_lengths:
  "length (fst (aes256_gcm_encrypt key nonce aad p)) = length p" "length (snd (aes256_gcm_encrypt key nonce aad p)) = 16"
  by (simp_all add: aes256_gcm_encrypt_def aes256_gcm_crypt_def Let_def length_gcm_loop length_tag)

lemma not_sealing: "\<not> sealing cfg p \<Longrightarrow> wire_header cfg p h payload = h" "\<not> sealing cfg p \<Longrightarrow> wire_payload cfg p h payload = payload"
  by (auto simp: wire_header_def wire_payload_def)

lemma blit_twice:
  "length z = k \<Longrightarrow> length ct = n \<Longrightarrow> length tag = m \<Longrightarrow> blit (k + n) tag (blit k ct (z @ replicate (n + m) x)) = z @ ct @ tag"
  by (simp add: blit_def replicate_add)

lemma build_wire_packet_datagram:
  assumes "h_payload_size h = word_of_nat (length payload)" "length payload + 16 < 65536"
  shows "build_wire_packet cfg p h payload = datagram (wire_header cfg p h payload) (wire_payload cfg p h payload)"
proof -
  have size: "unat (word_of_nat n :: u16) = n" if "n < 65536" for n
    using that by (simp add: unat_of_nat take_bit_nat_eq_self)
  have finish: "finalize_crc (header_bytes wh @ [0, 0, 0, 0] @ body) (48 + length body) = datagram wh body" for wh body
    using finalize_crc_bytes [of "header_bytes wh" "[0, 0, 0, 0]" body "[]"] by (simp add: datagram_def)
  show ?thesis
  proof (cases "sealing cfg p")
    case True
    define wh where "wh = wire_header cfg p h payload"
    have wh: "wh = h\<lparr> h_flags := h_flags h OR kFlagEncrypted, h_payload_size := word_of_nat (length payload + 16) \<rparr>"
      using True by (simp add: wh_def wire_header_def)
    obtain ct tag where enc: "aes256_gcm_encrypt (m_crypto_key p) (build_nonce wh) (header_bytes wh) payload = (ct, tag)"
      by force
    have len: "length ct = length payload" "length tag = 16"
      using gcm_lengths [of "m_crypto_key p" "build_nonce wh" "header_bytes wh" payload] by (simp_all add: enc)
    have "wire_payload cfg p h payload = ct @ tag"
      using True by (simp add: wire_payload_def wh_def [symmetric] enc)
    moreover have "encode_header_to wh (replicate (48 + (length payload + 16)) 0) =
        (header_bytes wh @ [0, 0, 0, 0] @ replicate (length payload + 16) 0, 48)"
      by (subst encode_header_to_bytes) simp_all
    moreover have "blit (48 + length payload) tag (blit 48 ct (header_bytes wh @ [0, 0, 0, 0] @ replicate (length payload + 16) 0)) =
        header_bytes wh @ [0, 0, 0, 0] @ (ct @ tag)"
      using blit_twice [of "header_bytes wh @ [0, 0, 0, 0]" 48 ct "length payload" tag 16] len by simp
    moreover have "build_wire_packet cfg p h payload = (let d = fst (encode_header_to wh (replicate (48 + unat (h_payload_size wh)) 0));
        (ct, tag) = aes256_gcm_encrypt (m_crypto_key p) (build_nonce wh) (take 44 d) payload;
        d = blit (48 + length payload) tag (blit 48 ct d) in finalize_crc d (length d))"
      using True by (simp add: build_wire_packet_def wh Let_def kGcmTagSize_def kHeaderSize_def split_def)
    moreover have "unat (h_payload_size wh) = length payload + 16"
      using size [of "length payload + 16"] assms(2) by (simp add: wh)
    ultimately show ?thesis
      using finish [of wh "ct @ tag"] by (simp add: enc len wh_def [symmetric] Let_def add.commute)
  next
    case False
    have n: "unat (h_payload_size h) = length payload"
      using assms size [of "length payload"] by simp
    have "encode_header_to h (replicate (48 + length payload) 0) = (header_bytes h @ [0, 0, 0, 0] @ replicate (length payload) 0, 48)"
      by (subst encode_header_to_bytes) simp_all
    moreover have "blit 48 payload (header_bytes h @ [0, 0, 0, 0] @ replicate (length payload) 0) = header_bytes h @ [0, 0, 0, 0] @ payload"
      by (simp add: blit_def)
    moreover have "build_wire_packet cfg p h payload = (let d = fst (encode_header_to h (replicate (48 + unat (h_payload_size h)) 0));
        d = (if payload \<noteq> [] then blit 48 payload d else d) in finalize_crc d (length d))"
      using False by (auto simp: build_wire_packet_def Let_def kHeaderSize_def)
    ultimately show ?thesis
      unfolding not_sealing [OF False] using finish [of h payload] by (cases "payload = []") (simp_all add: n Let_def)
  qed
qed

lemma header_bytes_received: "header_bytes (sealed_header h pl) = header_bytes h"
  by (simp add: header_bytes_def sealed_header_def type_of_code_type_code)

lemma build_nonce_received: "\<forall>b. h_type h \<noteq> Unnamed b \<Longrightarrow> build_nonce (sealed_header h pl) = build_nonce h"
  by (simp add: build_nonce_def sealed_header_def type_of_code_type_code type_code_type_of_code Let_def)

text \<open>Decryption in terms of the header bytes: the associated data are the 44 bytes before the checksum.\<close>

lemma decrypt_payload_iff:
  "decrypt_payload p header payload = Some (h, pl) \<longleftrightarrow>
    m_crypto_ready p \<and> 16 \<le> length payload \<and>
    h = header\<lparr> h_payload_size := word_of_nat (length payload - 16), h_flags := h_flags header AND NOT kFlagEncrypted \<rparr> \<and>
    aes256_gcm_encrypt (m_crypto_key p) (build_nonce header) (header_bytes header) pl =
      (take (length payload - 16) payload, drop (length payload - 16) payload)"
proof -
  have aad: "take 44 (fst (encode_to header [] (replicate 48 0))) = header_bytes header"
    by (subst encode_to_datagram) simp_all
  show ?thesis
    using gcm_decrypt_iff_encrypt [of "drop (length payload - 16) payload" "m_crypto_key p" "build_nonce header"
        "header_bytes header" "take (length payload - 16) payload" pl]
    by (auto simp: decrypt_payload_def kGcmTagSize_def kHeaderSize_def aad Let_def split: option.split)
qed

lemma flag_roundtrip: "f AND kFlagEncrypted = 0 \<Longrightarrow> (f OR kFlagEncrypted) AND NOT kFlagEncrypted = f"
proof (rule bit_word_eqI)
  fix n :: nat
  assume *: "f AND kFlagEncrypted = 0" "n < LENGTH(16)"
  have "bit (f AND kFlagEncrypted) n = False"
    unfolding * by simp
  with *(2) show "bit ((f OR kFlagEncrypted) AND NOT kFlagEncrypted) n = bit f n"
    by (auto simp: bit_simps)
qed

lemma flag_set: "(f OR kFlagEncrypted) AND kFlagEncrypted \<noteq> 0"
  by (simp add: kFlagEncrypted_def word_ao_absorbs)

lemma sealed_header_named:
  "\<forall>b. h_type h \<noteq> Unnamed b \<Longrightarrow> sealed_header h pl = h\<lparr> h_checksum := h_checksum (sealed_header h pl) \<rparr>"
  by (cases h) (simp add: sealed_header_def type_code_type_of_code)

text \<open>
  C33: sealing is transparent. A packet built by one end and received by the other, with more bytes behind it in
  the receive buffer, is opened to exactly its header, the checksum filled in, and its payload: in plain text
  if the sender has no key, and encrypted if it has one and the receiver has the same.
\<close>

theorem packet_survives_sealing:
  assumes "h_magic h = kMagic" "h_version h = kVersion" "\<forall>b. h_type h \<noteq> Unnamed b" "h_flags h AND kFlagEncrypted = 0"
    and "h_payload_size h = word_of_nat (length payload)" "length payload + 16 < 65536"
    and "sealing cfg p \<Longrightarrow> m_crypto_ready q \<and> m_crypto_key q = m_crypto_key p"
  shows "\<exists>crc. open_datagram q (build_wire_packet cfg p h payload @ rest) = Some (h\<lparr> h_checksum := crc \<rparr>, payload)"
proof -
  let ?wh = "wire_header cfg p h payload" and ?body = "wire_payload cfg p h payload"
  have size: "unat (word_of_nat n :: u16) = n" if "n < 65536" for n
    using that by (simp add: unat_of_nat take_bit_nat_eq_self)
  have wh: "h_magic ?wh = kMagic" "h_version ?wh = kVersion" "h_type ?wh = h_type h"
    using assms(1,2) by (simp_all add: wire_header_def)
  have body: "length ?body = unat (h_payload_size ?wh)"
    using assms(5,6) size [of "length payload"] size [of "length payload + 16"] gcm_lengths
    by (simp add: wire_header_def wire_payload_def split_def Let_def)
  have dec: "decode (datagram ?wh ?body @ rest) zero_header [] = (True, sealed_header ?wh ?body, ?body)"
    by (rule decode_datagram [OF wh(1,2) body])
  have opened: "open_datagram q (build_wire_packet cfg p h payload @ rest) =
      (if h_flags ?wh AND kFlagEncrypted \<noteq> 0 then decrypt_payload q (sealed_header ?wh ?body) ?body else Some (sealed_header ?wh ?body, ?body))"
    by (simp add: open_datagram_def build_wire_packet_datagram [OF assms(5,6)] dec kHeaderSize_def) (simp add: sealed_header_def)
  have ty: "type_of_code (type_code (h_type h)) = h_type h"
    by (rule type_code_type_of_code [OF assms(3)])
  show ?thesis
  proof (cases "sealing cfg p")
    case False
    then show ?thesis
      using assms(4) sealed_header_named [OF assms(3), of payload] by (simp add: opened not_sealing) blast
  next
    case True
    have fl: "h_flags ?wh AND kFlagEncrypted \<noteq> 0"
      using True flag_set by (simp add: wire_header_def)
    obtain ct tag where enc: "aes256_gcm_encrypt (m_crypto_key p) (build_nonce ?wh) (header_bytes ?wh) payload = (ct, tag)"
      by force
    have len: "length ct = length payload" "length tag = 16"
      using gcm_lengths [of "m_crypto_key p" "build_nonce ?wh" "header_bytes ?wh" payload] by (simp_all add: enc)
    have "?body = ct @ tag"
      using True by (simp add: wire_payload_def enc)
    then have "decrypt_payload q (sealed_header ?wh ?body) ?body =
        Some ((sealed_header ?wh ?body)\<lparr> h_payload_size := word_of_nat (length payload), h_flags := h_flags ?wh AND NOT kFlagEncrypted \<rparr>, payload)"
      using True assms(3,7) len enc wh(3) unfolding decrypt_payload_iff
      by (simp add: header_bytes_received build_nonce_received) (simp add: sealed_header_def)
    moreover have "(sealed_header ?wh ?body)\<lparr> h_payload_size := word_of_nat (length payload), h_flags := h_flags ?wh AND NOT kFlagEncrypted \<rparr> =
        h\<lparr> h_checksum := h_checksum (sealed_header ?wh ?body) \<rparr>"
      using True flag_roundtrip [OF assms(4)] assms(5) ty by (cases h) (simp add: sealed_header_def wire_header_def)
    ultimately show ?thesis
      using fl by (auto simp: opened)
  qed
qed

definition audio_header :: packet_header where
  "audio_header = zero_header\<lparr> h_magic := kMagic, h_version := kVersion, h_type := Data, h_flags := 1, h_client_id := 77,
     h_message_id := 5, h_fragment_count := 1, h_payload_size := 3 \<rparr>"

lemma packet_survives_sealing_witness:
  "\<exists>crc. open_datagram (new_peer\<lparr> m_crypto_ready := True, m_crypto_key := replicate 32 9 \<rparr>)
      (build_wire_packet default_config (new_peer\<lparr> m_crypto_ready := True, m_crypto_key := replicate 32 9 \<rparr>) audio_header [1, 2, 3] @ [0xEE]) =
    Some (audio_header\<lparr> h_checksum := crc \<rparr>, [1, 2, 3])"
  by (rule packet_survives_sealing) (simp_all add: audio_header_def kFlagEncrypted_def)

text \<open>A packet without the flag is taken as it is, also when the link has a key.\<close>

lemma plain_packet_accepted:
  assumes "h_magic h = kMagic" "h_version h = kVersion" "h_flags h AND kFlagEncrypted = 0" "length payload = unat (h_payload_size h)"
  shows "open_datagram q (encode h payload) = Some (sealed_header h payload, payload)"
  using assms decode_datagram [OF assms(1,2,4), of "[]"]
  by (simp add: open_datagram_def encode_datagram kHeaderSize_def) (simp add: sealed_header_def)

section \<open>Nonces\<close>

lemma mem_inject:
  "mem32 (to_be32 a) = mem32 (to_be32 b) \<longleftrightarrow> a = b" "mem16 (to_be16 c) = mem16 (to_be16 d) \<longleftrightarrow> c = d"
proof -
  show "mem32 (to_be32 a) = mem32 (to_be32 b) \<longleftrightarrow> a = b"
    by (metis get32_mem32)
  show "mem16 (to_be16 c) = mem16 (to_be16 d) \<longleftrightarrow> c = d"
    by (metis get16_mem16)
qed

lemma nonce_words:
  assumes "length a = 4" "length b = 4"
  shows "blit 4 b (blit 0 a (replicate 12 0)) = (a @ b) @ [0, 0, 0, 0 :: u8]"
proof -
  have "replicate 12 (0 :: u8) = [0, 0, 0, 0, 0, 0, 0, 0, 0, 0, 0, 0]"
    by code_simp
  then have "blit 0 a (replicate 12 0) = a @ [0, 0, 0, 0, 0, 0, 0, 0 :: u8]"
    using assms by (simp only: blit_def) simp
  then show ?thesis
    using assms by (simp only: blit_def) simp
qed

lemma nonce_layout:
  assumes "length a = 4" "length b = 4"
  shows "(blit 4 b (blit 0 a (replicate 12 0)))[8 := x] = a @ b @ [x, 0, 0, 0 :: u8]"
    "length c = 2 \<Longrightarrow> (blit 8 c (blit 4 b (blit 0 a (replicate 12 0))))[10 := x] = a @ b @ c @ [x, 0 :: u8]"
proof -
  have ab: "length (a @ b) = 8"
    using assms by simp
  show "(blit 4 b (blit 0 a (replicate 12 0)))[8 := x] = a @ b @ [x, 0, 0, 0]"
    unfolding nonce_words [OF assms] using list_update_length [of "a @ b" 0 "[0, 0, 0]" x] by (simp only: ab append_assoc)
  assume c: "length c = 2"
  then have "blit 8 c ((a @ b) @ [0, 0, 0, 0]) = ((a @ b) @ c) @ [0, 0]"
    using ab by (simp only: blit_def take_append drop_append append_assoc) simp
  moreover have "length ((a @ b) @ c) = 10"
    using ab c by (simp only: length_append)
  ultimately show "(blit 8 c (blit 4 b (blit 0 a (replicate 12 0))))[10 := x] = a @ b @ c @ [x, 0]"
    unfolding nonce_words [OF assms] using list_update_length [of "(a @ b) @ c" 0 "[0]" x] by (simp only: append_assoc)
qed

lemma build_nonce_bytes:
  "h_type h = Command \<Longrightarrow> build_nonce h = mem32 (to_be32 (h_client_id h)) @ mem32 (to_be32 (h_sequence h)) @ [10, 0, 0, 0]"
  "h_type h \<noteq> Command \<Longrightarrow> build_nonce h = mem32 (to_be32 (h_client_id h)) @ mem32 (to_be32 (h_message_id h)) @
     mem16 (to_be16 (h_fragment_index h)) @ [type_code (h_type h), 0]"
  by (simp_all add: build_nonce_def put32_def put16_def nonce_layout Let_def) (simp add: type_code_def)

text \<open>
  C37: a nonce identifies a packet. Two of the packets that are ever sealed, data, parity and commands, have the same
  nonce exactly if they come from the same client, are of the same type, and are the same fragment of the same
  message, or the command with the same number. Building the nonce from the received header gives the
  sender's nonce.
\<close>

theorem nonce_identifies_packet:
  assumes "{h_type h, h_type h'} \<subseteq> {Data, Parity, Command}"
  shows "(build_nonce h = build_nonce h' \<longleftrightarrow> h_client_id h = h_client_id h' \<and> h_type h = h_type h' \<and>
      (if h_type h = Command then h_sequence h = h_sequence h'
       else h_message_id h = h_message_id h' \<and> h_fragment_index h = h_fragment_index h')) \<and>
    build_nonce (sealed_header h pl) = build_nonce h"
proof -
  have code: "type_code (h_type h) = type_code (h_type h') \<longleftrightarrow> h_type h = h_type h'" "type_code (h_type h) \<noteq> 0" "type_code (h_type h') \<noteq> 0"
    using assms by (auto simp: type_code_def)
  have "build_nonce h = build_nonce h' \<longleftrightarrow> h_client_id h = h_client_id h' \<and> h_type h = h_type h' \<and>
      (if h_type h = Command then h_sequence h = h_sequence h'
       else h_message_id h = h_message_id h' \<and> h_fragment_index h = h_fragment_index h')"
  proof (cases "h_type h = Command \<longleftrightarrow> h_type h' = Command")
    case True
    then show ?thesis
      using code by (cases "h_type h = Command") (auto simp: build_nonce_bytes mem_inject)
  next
    case False
    then show ?thesis
      using code by (cases "h_type h = Command") (auto simp: build_nonce_bytes mem16_def)
  qed
  then show ?thesis
    using assms build_nonce_received [of h pl] by auto
qed

lemma nonce_identifies_packet_witness:
  "build_nonce audio_header \<noteq> build_nonce (audio_header\<lparr> h_fragment_index := 1 \<rparr>)"
  using nonce_identifies_packet [of audio_header "audio_header\<lparr> h_fragment_index := 1 \<rparr>"] by (simp add: audio_header_def zero_header_def)

end
