(* ===== verification/Link.thy ===== *)
theory Link
  imports Secure_Channel Command_Channel Sha256 X25519 Bandwidth Reporting
begin

text \<open>
  The life of a link, \<open>transport.cpp\<close>: control packets, handshake and key agreement, clock
  synchronisation, acknowledgments, the periodic duties of the reactor and the closing of silent links. Each
  handler runs at one reading of the clocks, \<open>now\<close> (monotonic) and \<open>unix\<close>; what it sends and
  reports is returned as a list of actions in order.
\<close>

section \<open>The local end\<close>

record endpoint =
  e_cfg :: tight_config
  e_ids :: local_ids
  e_private_key :: bytes
  e_public_key :: bytes
  e_sock :: bool

record peer_event =
  ev_id :: bytes
  ev_role :: link_role
  ev_state :: link_state
  ev_client_id :: u32

text \<open>A datagram put into the outbound queue, one sent at once, and a call of the peer callback.\<close>

datatype link_action = Queue_Raw bytes | Send_Direct bytes | Peer_Changed peer_event

definition peer_event_of :: "peer \<Rightarrow> link_state \<Rightarrow> link_action" where
  "peer_event_of p new_state =
    Peer_Changed \<lparr> ev_id = m_id p, ev_role = m_role p, ev_state = new_state, ev_client_id = m_peer_client_id p \<rparr>"

definition send_raw_control :: "endpoint \<Rightarrow> peer \<Rightarrow> bytes \<Rightarrow> link_action list" where
  "send_raw_control ep p d = (if \<not> m_addr_set p \<or> \<not> e_sock ep then [] else [Queue_Raw d])"

definition send_direct :: "endpoint \<Rightarrow> peer \<Rightarrow> bytes \<Rightarrow> link_action list" where
  "send_direct ep p d = (if \<not> m_addr_set p \<or> \<not> e_sock ep then [] else [Send_Direct d])"

definition control_header :: "endpoint \<Rightarrow> packet_type \<Rightarrow> packet_header" where
  "control_header ep ty = zero_header\<lparr> h_magic := kMagic, h_version := kVersion, h_type := ty,
     h_client_id := l_client_id (e_ids ep), h_session_id := l_session_id (e_ids ep) \<rparr>"

section \<open>Control packets\<close>

definition send_control :: "endpoint \<Rightarrow> peer \<Rightarrow> packet_type \<Rightarrow> bytes \<Rightarrow> bool \<Rightarrow> u64 \<Rightarrow> time \<Rightarrow> peer \<times> link_action list" where
  "send_control ep p ty payload ackable unix now =
    (let header = control_header ep ty;
         header = (if ackable then header\<lparr> h_sequence := m_control_seq_out p \<rparr> else header);
         p = (if ackable then p\<lparr> m_control_seq_out := m_control_seq_out p + 1 \<rparr> else p);
         header = header\<lparr> h_payload_size := word_of_nat (length payload), h_tick := unix_low unix \<rparr>;
         d = encode header payload;
         ps = (case map_of (m_pending p) (h_sequence header) of None \<Rightarrow> new_pending | Some ps \<Rightarrow> ps)
     in (if ackable
         then p\<lparr> m_pending := om_put (h_sequence header) (ps\<lparr> ps_header := header, ps_payload := payload,
           ps_last_send := now, ps_bytes := length d \<rparr>) (m_pending p) \<rparr>
         else p, send_raw_control ep p d))"

definition send_ack_packet :: "endpoint \<Rightarrow> peer \<Rightarrow> u32 \<Rightarrow> u64 \<Rightarrow> link_action list" where
  "send_ack_packet ep p ack unix =
    send_raw_control ep p (encode ((control_header ep Ack)\<lparr> h_acknowledgment := ack, h_tick := unix_low unix \<rparr>) [])"

definition role_code :: "link_role \<Rightarrow> u8" where
  "role_code r = (case r of Leaf \<Rightarrow> 0 | Node \<Rightarrow> 1)"

definition capability_flags :: "endpoint \<Rightarrow> bytes" where
  "capability_flags ep = (if c_encryption_enabled (e_cfg ep) then e_public_key ep else []) @
     [if c_retransmit_enabled (e_cfg ep) then 0x01 else 0x00]"

definition handshake_payload :: "endpoint \<Rightarrow> bytes" where
  "handshake_payload ep =
    (let cfg = e_cfg ep;
         id_size = word_of_nat (min (length (c_id cfg)) 65535) :: u16
     in [role_code (c_role cfg), ucast (drop_bit 8 id_size AND 0xFF), ucast (id_size AND 0xFF)] @
        take (unat id_size) (c_id cfg) @ c_token cfg @ capability_flags ep)"

definition send_handshake :: "endpoint \<Rightarrow> peer \<Rightarrow> u64 \<Rightarrow> time \<Rightarrow> peer \<times> link_action list" where
  "send_handshake ep p unix now =
    send_control ep (p\<lparr> m_last_handshake_sent := now \<rparr>) Handshake (handshake_payload ep) True unix now"

text \<open>The probe train: blank packets of at most \<open>frag\<close> bytes; \<open>frag\<close> is positive.\<close>

function speed_test_loop :: "endpoint \<Rightarrow> nat \<Rightarrow> nat \<Rightarrow> nat \<Rightarrow> u64 \<Rightarrow> bytes list" where
  "speed_test_loop ep frag amount sent unix =
    (if sent < amount \<and> 0 < frag then
       let n = min frag (amount - sent);
           header = (control_header ep Probe)\<lparr> h_payload_size := word_of_nat n, h_tick := unix_low unix \<rparr>
       in encode header (replicate n 0) # speed_test_loop ep frag amount (sent + n) unix
     else [])"
  by pat_completeness auto
termination
  by (relation "Wellfounded.measure (\<lambda>(ep, frag, amount, sent, unix). amount - sent)") (auto simp: min_def)

declare speed_test_loop.simps [simp del]

definition send_speed_test :: "endpoint \<Rightarrow> peer \<Rightarrow> u64 \<Rightarrow> link_action list" where
  "send_speed_test ep p unix =
    (let cfg = e_cfg ep in
     if \<not> c_speed_test_enabled cfg then []
     else if \<not> m_addr_set p \<or> \<not> e_sock ep then []
     else
       let frag = (if c_mtu cfg > kHeaderSize then c_mtu cfg - kHeaderSize else 1152)
       in map Send_Direct (speed_test_loop ep frag (c_speed_test_bytes cfg) 0 unix))"

section \<open>Clocks\<close>

definition sync_clock :: "peer \<Rightarrow> u32 \<Rightarrow> u64 \<Rightarrow> int \<Rightarrow> peer" where
  "sync_clock p tick arrival_ms rtt_us =
    (if tick = 0 then p
     else if rtt_us \<le> 0 then
       let arrival_low = ucast (arrival_ms AND 0xFFFFFFFF) :: u32;
           sample_us = sint (tick - arrival_low) * 1000;
           p = (if \<not> m_clock_synced p then p\<lparr> m_clock_offset_us := sample_us, m_clock_synced := True \<rparr>
                else if sample_us > m_clock_offset_us p then p\<lparr> m_clock_offset_us := sample_us \<rparr> else p)
       in p\<lparr> m_clock_pending := False \<rparr>
     else
       let arrival_low = ucast (arrival_ms AND 0xFFFFFFFF) :: u32;
           sample_us = sint (tick - arrival_low) * 1000 - (if rtt_us > 0 \<and> rtt_us < 100000 then rtt_us div 2 else 0);
           p = (if \<not> m_clock_synced p then p\<lparr> m_clock_offset_us := sample_us, m_clock_synced := True \<rparr>
                else if sample_us > m_clock_offset_us p then p\<lparr> m_clock_offset_us := sample_us \<rparr> else p)
       in p\<lparr> m_clock_pending := False \<rparr>)"

definition try_sync_clock :: "peer \<Rightarrow> int \<Rightarrow> peer" where
  "try_sync_clock p rtt_us = (if m_clock_pending p then sync_clock p (m_hs_tick p) (m_hs_arrival_ms p) rtt_us else p)"

definition feed_rtt_from_tick :: "peer \<Rightarrow> u32 \<Rightarrow> u64 \<Rightarrow> bandwidth_estimator \<Rightarrow> bandwidth_estimator" where
  "feed_rtt_from_tick p tick unix e =
    (let transit_us = transit_time_us p tick unix
     in if transit_us < 0 \<or> transit_us > 10000000 then e else bw_on_ack (transit_us * 2) e)"

section \<open>Key agreement and handshake\<close>

definition key_label :: bytes where
  "key_label = [0x74, 0x69, 0x67, 0x68, 0x74, 0x2D, 0x64, 0x61, 0x74, 0x61, 0x2D, 0x6B, 0x65, 0x79, 0x2D, 0x76, 0x31]"

definition derive_session_key :: "endpoint \<Rightarrow> peer \<Rightarrow> bytes \<Rightarrow> u32 \<Rightarrow> peer" where
  "derive_session_key ep p peer_pub peer_client_id =
    (case x25519 (e_private_key ep) peer_pub of
       (shared, ok) \<Rightarrow>
         if \<not> ok then p
         else
           let lo = min (l_client_id (e_ids ep)) peer_client_id;
               hi = max (l_client_id (e_ids ep)) peer_client_id;
               salt = map (\<lambda>i. ucast (drop_bit (i * 8) lo AND 0xFF)) [0..<4] @ map (\<lambda>i. ucast (drop_bit (i * 8) hi AND 0xFF)) [0..<4]
           in p\<lparr> m_crypto_key := hkdf_sha256 shared salt key_label, m_crypto_ready := True \<rparr>)"

definition handle_handshake :: "endpoint \<Rightarrow> int \<Rightarrow> peer \<Rightarrow> packet_header \<Rightarrow> bytes \<Rightarrow> u64 \<Rightarrow> time \<Rightarrow> peer \<times> link_action list" where
  "handle_handshake ep rtt_us p header payload unix now =
    (if length payload < 3 then (p, [])
     else
       let cfg = e_cfg ep;
           role_byte = payload ! 0;
           id_size = unat (push_bit 8 (ucast (payload ! 1)) OR ucast (payload ! 2) :: u16)
       in if length payload < 3 + id_size then (p, [])
          else
            let peer_id = take id_size (drop 3 payload);
                token_end = length payload;
                (p, token_end) = (if token_end > 3 + id_size
                  then (p\<lparr> m_peer_retransmit := (payload ! (token_end - 1) AND 0x01 \<noteq> 0) \<rparr>, token_end - 1) else (p, token_end));
                have_pub = (c_encryption_enabled cfg \<and> token_end \<ge> 3 + id_size + 32);
                token_end = (if have_pub then token_end - 32 else token_end);
                peer_pub = (if have_pub then take 32 (drop token_end payload) else replicate 32 0);
                token = take (token_end - 3 - id_size) (drop (3 + id_size) payload)
            in if token \<noteq> c_token cfg then (p, [])
               else
                 let p = sync_clock p (h_tick header) unix rtt_us;
                     p = cmd_reset p;
                     p = p\<lparr> m_last_report_at := 0 \<rparr>;
                     p = (if id_size > 0 then p\<lparr> m_id := peer_id \<rparr> else p);
                     p = p\<lparr> m_role := (if role_byte = role_code Node then Node else Leaf) \<rparr>;
                     p = (if have_pub then derive_session_key ep p peer_pub (h_client_id header) else p);
                     (p, a1) = (if \<not> m_reconnect p \<and> m_addr_set p then send_handshake ep p unix now else (p, []));
                     (p, a2) = (if m_state p \<noteq> St_Established \<and> m_state p \<noteq> St_Online
                       then (p\<lparr> m_state := St_Established \<rparr>, [peer_event_of p St_Established]) else (p, []));
                     (p, a3) = send_control ep p HandshakeAck (capability_flags ep) True unix now
                 in (p, a1 @ a2 @ a3))"

definition handle_handshake_ack :: "endpoint \<Rightarrow> int \<Rightarrow> peer \<Rightarrow> packet_header \<Rightarrow> bytes \<Rightarrow> u64 \<Rightarrow> time \<Rightarrow> peer \<times> link_action list" where
  "handle_handshake_ack ep rtt_us p header payload unix now =
    (let p = sync_clock p (h_tick header) unix rtt_us;
         p = cmd_reset p;
         p = p\<lparr> m_last_report_at := 0 \<rparr>;
         p = (if payload \<noteq> [] then
                let tail = length payload;
                    p = p\<lparr> m_peer_retransmit := (payload ! (tail - 1) AND 0x01 \<noteq> 0) \<rparr>;
                    tail = tail - 1
                in if c_encryption_enabled (e_cfg ep) \<and> tail \<ge> 32
                   then derive_session_key ep p (take 32 (drop (tail - 32) payload)) (h_client_id header) else p
              else p)
     in if m_state p = St_Online then (p, [])
        else if m_state p = St_Handshake \<or> m_state p = St_Established then
          let (p, a1) = send_control ep p Online [] True unix now;
              p = p\<lparr> m_last_online_sent := now, m_state := St_Online, m_handshake_backoff := ms 500 \<rparr>
          in (p, a1 @ [peer_event_of p St_Online] @ send_speed_test ep p unix)
        else (p, []))"

definition handle_online :: "endpoint \<Rightarrow> peer \<Rightarrow> u64 \<Rightarrow> peer \<times> link_action list" where
  "handle_online ep p unix =
    (if m_state p \<noteq> St_Online
     then let p = p\<lparr> m_state := St_Online \<rparr> in (p, [peer_event_of p St_Online] @ send_speed_test ep p unix)
     else (p, []))"

definition handle_heartbeat :: "peer \<Rightarrow> packet_header \<Rightarrow> bytes \<Rightarrow> bandwidth_estimator \<Rightarrow> u64 \<Rightarrow> peer \<times> bandwidth_estimator" where
  "handle_heartbeat p header payload e unix =
    (let p = (if length payload \<ge> 4 then p\<lparr> m_sender_rtt_us := to_be32 (load32 payload 0) \<rparr> else p);
         p = sync_clock p (h_tick header) unix (bw_rtt e)
     in (p, feed_rtt_from_tick p (h_tick header) unix e))"

definition handle_probe :: "peer \<Rightarrow> packet_header \<Rightarrow> time \<Rightarrow> peer" where
  "handle_probe p header now =
    (let p = finalize_probe_train p now;
         p = (if m_probe_count p = 0 then p\<lparr> m_probe_first := now \<rparr> else p);
         p = p\<lparr> m_probe_last := now \<rparr>;
         p = p\<lparr> m_probe_count := m_probe_count p + 1 \<rparr>
     in p\<lparr> m_probe_bytes := m_probe_bytes p + (word_of_nat kHeaderSize + ucast (h_payload_size header)) \<rparr>)"

definition handle_bye :: "peer \<Rightarrow> peer \<times> link_action list" where
  "handle_bye p =
    (if m_state p \<noteq> St_Closed
     then let p = p\<lparr> m_state := St_Closed \<rparr> in (p, [peer_event_of p St_Closed]) else (p, []))"

definition handle_ack :: "peer \<Rightarrow> packet_header \<Rightarrow> bandwidth_estimator \<Rightarrow> time \<Rightarrow> peer \<times> bandwidth_estimator" where
  "handle_ack p header e now =
    (let ack = h_acknowledgment header
     in if ack = 0 then (p, e)
        else case map_of (m_pending p) ack of
          None \<Rightarrow> (p, e)
        | Some ps \<Rightarrow>
            let p = p\<lparr> m_pending := om_del ack (m_pending p) \<rparr>;
                rtt = to_us (now - ps_last_send ps);
                rtt = (if rtt < 0 then 0 else rtt);
                e = bw_on_ack rtt e
            in (try_sync_clock p (bw_rtt e), e))"

section \<open>Commands\<close>

definition send_command :: "endpoint \<Rightarrow> peer \<Rightarrow> bytes \<Rightarrow> u64 \<Rightarrow> bool \<times> peer \<times> packet_header \<times> link_action list" where
  "send_command ep p payload unix =
    (let cfg = e_cfg ep;
         max_payload = (if c_mtu cfg > kHeaderSize then c_mtu cfg - kHeaderSize else 0)
     in if length payload > max_payload then (False, p, zero_header, [])
        else if m_state p \<noteq> St_Online \<and> m_state p \<noteq> St_Established then (False, p, zero_header, [])
        else
          let header = (control_header ep Command)\<lparr> h_sequence := m_cmd_seq_out p \<rparr>;
              p = p\<lparr> m_cmd_seq_out := m_cmd_seq_out p + 1 \<rparr>;
              header = header\<lparr> h_payload_size := word_of_nat (length payload), h_tick := unix_low unix \<rparr>
          in (True, p, header, send_direct ep p (build_wire_packet cfg p header payload)))"

section \<open>Duties of the reactor\<close>

text \<open>One peer each; the reactor applies them to every peer of the table.\<close>

definition send_handshakes_to :: "endpoint \<Rightarrow> peer \<Rightarrow> u64 \<Rightarrow> time \<Rightarrow> peer \<times> link_action list" where
  "send_handshakes_to ep p unix now =
    (if m_state p \<noteq> St_Handshake then (p, [])
     else
       let p = p\<lparr> m_pending := filter (\<lambda>(k, ps). h_type (ps_header ps) \<noteq> Handshake) (m_pending p) \<rparr>
       in if now - m_last_handshake_sent p < m_handshake_backoff p then (p, [])
          else
            let (p, acts) = send_handshake ep p unix now
            in (p\<lparr> m_handshake_backoff := min (m_handshake_backoff p * 2) (ms 5000) \<rparr>, acts))"

definition send_heartbeats_to :: "endpoint \<Rightarrow> bandwidth_estimator \<Rightarrow> peer \<Rightarrow> u64 \<Rightarrow> time \<Rightarrow> peer \<times> link_action list" where
  "send_heartbeats_to ep e p unix now =
    (if m_state p \<noteq> St_Established \<and> m_state p \<noteq> St_Online then (p, [])
     else if now - m_last_heartbeat_sent p < c_heartbeat (e_cfg ep) then (p, [])
     else
       let hb_payload = mem32 (to_be32 (word_of_int (bw_rtt e)));
           (p, acts) = send_control ep p Heartbeat hb_payload False unix now
       in (p\<lparr> m_last_heartbeat_sent := now \<rparr>, acts))"

definition send_online_announcements_to :: "endpoint \<Rightarrow> peer \<Rightarrow> u64 \<Rightarrow> time \<Rightarrow> peer \<times> link_action list" where
  "send_online_announcements_to ep p unix now =
    (if m_state p \<noteq> St_Established \<and> m_state p \<noteq> St_Online then (p, [])
     else if now - m_last_online_sent p < c_heartbeat (e_cfg ep) then (p, [])
     else
       let (p, acts) = send_control ep p Online [] False unix now
       in (p\<lparr> m_last_online_sent := now \<rparr>, acts))"

definition send_reports_to :: "endpoint \<Rightarrow> bool \<Rightarrow> peer \<Rightarrow> u64 \<Rightarrow> time \<Rightarrow> peer \<times> link_action list" where
  "send_reports_to ep lite p unix now =
    (if m_state p \<noteq> St_Established \<and> m_state p \<noteq> St_Online then (p, [])
     else if now - m_last_report_sent p < c_report_interval (e_cfg ep) then (p, [])
     else
       let (payload, p) = build_payload p (c_report_interval (e_cfg ep)) (c_late_buffer_ms (e_cfg ep)) lite now;
           rpt = (control_header ep Report)\<lparr> h_payload_size := word_of_nat (length payload), h_tick := unix_low unix \<rparr>;
           acts = send_direct ep p (encode rpt payload)
       in (p\<lparr> m_last_report_sent := now \<rparr>, acts))"

definition check_offline_of :: "endpoint \<Rightarrow> peer \<Rightarrow> time \<Rightarrow> peer \<times> link_action list" where
  "check_offline_of ep p now =
    (let dead = c_dead_timeout (e_cfg ep);
         p = p\<lparr> m_incoming := filter (\<lambda>(k, im). \<not> now - im_first_seen im \<ge> dead) (m_incoming p) \<rparr>;
         p = p\<lparr> m_completed := filter (\<lambda>(k, t). \<not> now - t \<ge> dead) (m_completed p) \<rparr>
     in if m_state p \<noteq> St_Established \<and> m_state p \<noteq> St_Online then (p, [])
        else if now - m_last_recv p \<ge> dead then
          let p = p\<lparr> m_state := St_Closed \<rparr>;
              p = p\<lparr> m_pending := [] \<rparr>;
              acts = [peer_event_of p St_Closed];
              p = (if m_reconnect p
                   then p\<lparr> m_state := St_Handshake, m_last_handshake_sent := now - c_retransmit_timeout (e_cfg ep),
                     m_handshake_backoff := ms 500, m_last_recv := now \<rparr>
                   else p)
          in (p, acts)
        else (p, []))"

text \<open>
  \<open>check_report_timeouts\<close>, with the time of the previous check. A default-constructed time point is 0.
\<close>

definition report_timed_out :: "endpoint \<Rightarrow> time \<Rightarrow> peer \<Rightarrow> bool" where
  "report_timed_out ep now p \<longleftrightarrow> m_have_late_report p \<and> now - m_last_report_at p \<ge> c_report_interval (e_cfg ep) * 3"

definition check_report_timeouts :: "endpoint \<Rightarrow> peer list \<Rightarrow> u64 \<Rightarrow> time \<Rightarrow> time \<Rightarrow> bandwidth_estimator \<Rightarrow>
    time \<times> bandwidth_estimator" where
  "check_report_timeouts ep peers freeze_ns now last_check e =
    (if last_check \<noteq> 0 \<and> now - last_check < ms 500 then (last_check, e)
     else
       let active = filter (\<lambda>p. m_state p = St_Established \<or> m_state p = St_Online) peers;
           stalled = filter (report_timed_out ep now) active
       in if length active > 0 \<and> length stalled = length active then
            let frozen = (freeze_ns \<noteq> 0 \<and> now < sint freeze_ns)
            in if \<not> frozen then (now, bw_on_report_timeout e) else (now, e)
          else (now, e))"

text \<open>\<open>send_byes\<close>: one round of its loop, and the whole over the peers in the order of the table.\<close>

definition send_bye :: "endpoint \<Rightarrow> peer \<Rightarrow> peer \<times> link_action list" where
  "send_bye ep p =
    (if m_state p = St_Closed then (p, [])
     else if \<not> m_addr_set p then (p, [])
     else (p\<lparr> m_state := St_Closed \<rparr>, [Send_Direct (encode (control_header ep Bye) [])]))"

definition send_byes :: "endpoint \<Rightarrow> peer list \<Rightarrow> peer list \<times> link_action list" where
  "send_byes ep peers =
    (if \<not> e_sock ep then (peers, [])
     else (map (fst \<circ> send_bye ep) peers, concat (map (snd \<circ> send_bye ep) peers)))"

section \<open>Agreement on a key\<close>

lemma send_control_fields [simp]:
  "m_crypto_key (fst (send_control ep p ty pl ackable unix now)) = m_crypto_key p"
  "m_crypto_ready (fst (send_control ep p ty pl ackable unix now)) = m_crypto_ready p"
  "m_state (fst (send_control ep p ty pl ackable unix now)) = m_state p"
  "m_peer_retransmit (fst (send_control ep p ty pl ackable unix now)) = m_peer_retransmit p"
  "m_id (fst (send_control ep p ty pl ackable unix now)) = m_id p"
  "m_role (fst (send_control ep p ty pl ackable unix now)) = m_role p"
  "m_cmd_seq_out (fst (send_control ep p ty pl ackable unix now)) = m_cmd_seq_out p"
  by (cases ackable; simp add: send_control_def Let_def)+

lemma send_handshake_fields [simp]:
  "m_crypto_key (fst (send_handshake ep p unix now)) = m_crypto_key p"
  "m_crypto_ready (fst (send_handshake ep p unix now)) = m_crypto_ready p"
  "m_state (fst (send_handshake ep p unix now)) = m_state p"
  "m_peer_retransmit (fst (send_handshake ep p unix now)) = m_peer_retransmit p"
  "m_id (fst (send_handshake ep p unix now)) = m_id p"
  "m_role (fst (send_handshake ep p unix now)) = m_role p"
  "m_cmd_seq_out (fst (send_handshake ep p unix now)) = m_cmd_seq_out p"
  by (simp_all add: send_handshake_def)

lemma sync_clock_fields [simp]:
  "m_crypto_key (sync_clock p t a r) = m_crypto_key p" "m_crypto_ready (sync_clock p t a r) = m_crypto_ready p"
  "m_state (sync_clock p t a r) = m_state p" "m_peer_retransmit (sync_clock p t a r) = m_peer_retransmit p"
  "m_reconnect (sync_clock p t a r) = m_reconnect p" "m_addr_set (sync_clock p t a r) = m_addr_set p"
  by (simp_all add: sync_clock_def Let_def)

lemma cmd_reset_fields [simp]:
  "m_crypto_key (cmd_reset p) = m_crypto_key p" "m_crypto_ready (cmd_reset p) = m_crypto_ready p"
  "m_state (cmd_reset p) = m_state p" "m_peer_retransmit (cmd_reset p) = m_peer_retransmit p"
  "m_reconnect (cmd_reset p) = m_reconnect p" "m_addr_set (cmd_reset p) = m_addr_set p" "m_cmd_seq_out (cmd_reset p) = 1"
  by (simp_all add: cmd_reset_def)

lemma derive_fields [simp]:
  "m_state (derive_session_key ep p k c) = m_state p" "m_peer_retransmit (derive_session_key ep p k c) = m_peer_retransmit p"
  "m_reconnect (derive_session_key ep p k c) = m_reconnect p" "m_addr_set (derive_session_key ep p k c) = m_addr_set p"
  "m_id (derive_session_key ep p k c) = m_id p" "m_role (derive_session_key ep p k c) = m_role p"
  "m_cmd_seq_out (derive_session_key ep p k c) = m_cmd_seq_out p"
  by (auto simp: derive_session_key_def Let_def split: prod.splits)

text \<open>The key both ends derive, as a function of the two ends.\<close>

definition session_key :: "bytes \<Rightarrow> u32 \<Rightarrow> u32 \<Rightarrow> bytes" where
  "session_key shared a b =
    hkdf_sha256 shared (map (\<lambda>i. ucast (drop_bit (i * 8) (min a b) AND 0xFF)) [0..<4] @
      map (\<lambda>i. ucast (drop_bit (i * 8) (max a b) AND 0xFF)) [0..<4]) key_label"

lemma session_key_commute: "session_key shared a b = session_key shared b a"
  by (simp add: session_key_def min.commute max.commute)

lemma derive_session_key_eq:
  "derive_session_key ep p pub c = (let (shared, ok) = x25519 (e_private_key ep) pub in
     if ok then p\<lparr> m_crypto_key := session_key shared (l_client_id (e_ids ep)) c, m_crypto_ready := True \<rparr> else p)"
  by (simp add: derive_session_key_def session_key_def Let_def split: prod.split)

lemma id_size_bytes:
  fixes w :: u16
  shows "push_bit 8 (ucast (ucast (drop_bit 8 w AND 0xFF) :: u8)) OR ucast (ucast (w AND 0xFF) :: u8) = w"
proof (rule bit_word_eqI)
  fix n :: nat
  have ff: "(0xFF :: u16) = mask 8"
    by (simp add: mask_eq_exp_minus_1)
  assume "n < LENGTH(16)"
  then show "bit (push_bit 8 (ucast (ucast (drop_bit 8 w AND 0xFF) :: u8)) OR ucast (ucast (w AND 0xFF) :: u8) :: u16) n = bit w n"
    unfolding ff by (cases "n < 8") (auto simp: bit_simps)
qed

definition capability_start :: "endpoint \<Rightarrow> nat" where
  "capability_start a = 3 + length (c_id (e_cfg a)) + length (c_token (e_cfg a))"

lemma handshake_payload_parts:
  assumes "length (c_id (e_cfg a)) \<le> 65535"
  shows "length (handshake_payload a) = capability_start a + length (capability_flags a)"
    "handshake_payload a ! 0 = role_code (c_role (e_cfg a))"
    "unat (push_bit 8 (ucast (handshake_payload a ! 1)) OR ucast (handshake_payload a ! 2) :: u16) = length (c_id (e_cfg a))"
    "take (length (c_id (e_cfg a))) (drop 3 (handshake_payload a)) = c_id (e_cfg a)"
    "take (length (c_token (e_cfg a))) (drop (3 + length (c_id (e_cfg a))) (handshake_payload a)) = c_token (e_cfg a)"
    "drop (capability_start a) (handshake_payload a) = capability_flags a"
proof -
  have n: "unat (word_of_nat (length (c_id (e_cfg a))) :: u16) = length (c_id (e_cfg a))"
    using assms by (simp add: unat_of_nat take_bit_nat_eq_self)
  have p: "handshake_payload a = [role_code (c_role (e_cfg a)), ucast (drop_bit 8 (word_of_nat (length (c_id (e_cfg a))) :: u16) AND 0xFF),
      ucast ((word_of_nat (length (c_id (e_cfg a))) :: u16) AND 0xFF)] @ c_id (e_cfg a) @ c_token (e_cfg a) @ capability_flags a"
    using assms by (simp add: handshake_payload_def Let_def min_def n)
  show "unat (push_bit 8 (ucast (handshake_payload a ! 1)) OR ucast (handshake_payload a ! 2) :: u16) = length (c_id (e_cfg a))"
    using id_size_bytes [of "word_of_nat (length (c_id (e_cfg a)))"] n by (simp add: p)
  show "length (handshake_payload a) = capability_start a + length (capability_flags a)"
    "handshake_payload a ! 0 = role_code (c_role (e_cfg a))"
    "take (length (c_id (e_cfg a))) (drop 3 (handshake_payload a)) = c_id (e_cfg a)"
    "take (length (c_token (e_cfg a))) (drop (3 + length (c_id (e_cfg a))) (handshake_payload a)) = c_token (e_cfg a)"
    "drop (capability_start a) (handshake_payload a) = capability_flags a"
    by (simp_all add: p capability_start_def numeral_3_eq_3)
qed

lemma capability_parts:
  assumes "length (e_public_key a) = 32" "enc = c_encryption_enabled (e_cfg a)"
  shows "length (capability_flags a) = (if enc then 33 else 1)"
    "(capability_flags a ! (length (capability_flags a) - 1) AND 1 \<noteq> 0) = c_retransmit_enabled (e_cfg a)"
    "enc \<Longrightarrow> take 32 (capability_flags a) = e_public_key a"
  using assms by (simp_all add: capability_flags_def nth_append)

text \<open>What a handshake says when it comes from an end with the same token and the same encryption setting.\<close>

lemma handle_handshake_accepts:
  assumes "length (c_id (e_cfg a)) \<le> 65535" "c_token (e_cfg a) = c_token (e_cfg b)"
    "c_encryption_enabled (e_cfg a) = c_encryption_enabled (e_cfg b)" "length (e_public_key a) = 32"
    and "p' = fst (handle_handshake b rtt p header (handshake_payload a) unix now)"
  shows "m_peer_retransmit p' = c_retransmit_enabled (e_cfg a)" "m_role p' = c_role (e_cfg a)"
    "c_id (e_cfg a) \<noteq> [] \<Longrightarrow> m_id p' = c_id (e_cfg a)"
    "m_state p' = (if m_state p = St_Online then St_Online else St_Established)" "m_cmd_seq_out p' = 1"
    "(m_crypto_ready p', m_crypto_key p') = (if c_encryption_enabled (e_cfg b) \<and> snd (x25519 (e_private_key b) (e_public_key a))
       then (True, session_key (fst (x25519 (e_private_key b) (e_public_key a))) (l_client_id (e_ids b)) (h_client_id header))
       else (m_crypto_ready p, m_crypto_key p))"
proof -
  let ?pl = "handshake_payload a" and ?n = "length (c_id (e_cfg a))" and ?m = "length (c_token (e_cfg a))"
  let ?enc = "c_encryption_enabled (e_cfg b)"
  note parts = handshake_payload_parts [OF assms(1)]
  note cap = capability_parts [OF assms(4) assms(3) [symmetric]]
  have len: "length ?pl = 3 + ?n + ?m + (if ?enc then 33 else 1)"
    using parts(1) cap(1) by (simp add: capability_start_def)
  have flag: "(?pl ! (length ?pl - 1) AND 1 \<noteq> 0) = c_retransmit_enabled (e_cfg a)"
    using cap(2) parts(1,6) cap(1) nth_drop [of "capability_start a" ?pl "length (capability_flags a) - 1"]
    by (cases ?enc) (simp_all add: add.commute)
  have pub: "take 32 (drop (3 + ?n + ?m) ?pl) = e_public_key a" if ?enc
    using that cap(3) parts(6) by (simp add: capability_start_def)
  have role: "(if role_code (c_role (e_cfg a)) = role_code Node then Node else Leaf) = c_role (e_cfg a)"
    by (cases "c_role (e_cfg a)") (simp_all add: role_code_def)
  define p1 where "p1 = (cmd_reset (sync_clock (p\<lparr> m_peer_retransmit := c_retransmit_enabled (e_cfg a) \<rparr>) (h_tick header) unix rtt))\<lparr> m_last_report_at := 0 \<rparr>"
  define p2 where "p2 = (if ?n > 0 then p1\<lparr> m_id := c_id (e_cfg a) \<rparr> else p1)\<lparr> m_role := c_role (e_cfg a) \<rparr>"
  define p3 where "p3 = (if ?enc then derive_session_key b p2 (e_public_key a) (h_client_id header) else p2)"
  define p4 where "p4 = (if \<not> m_reconnect p3 \<and> m_addr_set p3 then fst (send_handshake b p3 unix now) else p3)"
  define p5 where "p5 = (if m_state p4 \<noteq> St_Established \<and> m_state p4 \<noteq> St_Online then p4\<lparr> m_state := St_Established \<rparr> else p4)"
  have p': "p' = fst (send_control b p5 HandshakeAck (capability_flags b) True unix now)"
  proof -
    have token: "take ?m (drop (3 + ?n) ?pl) = c_token (e_cfg b)"
      using parts(5) assms(2) by simp
    have conds: "\<not> length ?pl < 3" "\<not> length ?pl < 3 + ?n" "length ?pl > 3 + ?n"
      "(?enc \<and> length ?pl - 1 \<ge> 3 + ?n + 32) = ?enc"
      "(if ?enc then length ?pl - 1 - 32 else length ?pl - 1) = 3 + ?n + ?m" "3 + ?n + ?m - 3 - ?n = ?m"
      by (simp_all add: len)
    have key: "(if ?enc then derive_session_key b x (if ?enc then take 32 (drop (3 + ?n + ?m) ?pl) else replicate 32 0) c else y) =
        (if ?enc then derive_session_key b x (e_public_key a) c else y)" for x y c
      by (simp add: pub)
    show ?thesis
      unfolding assms(5) handle_handshake_def Let_def parts(2,3) role
      by (simp only: conds parts(4) flag token key if_True if_False simp_thms split_def fst_conv snd_conv role
          p1_def p2_def p3_def p4_def p5_def if_distrib [of fst] if_distrib [of snd])
  qed
  show "m_peer_retransmit p' = c_retransmit_enabled (e_cfg a)" "m_role p' = c_role (e_cfg a)"
    "c_id (e_cfg a) \<noteq> [] \<Longrightarrow> m_id p' = c_id (e_cfg a)"
    "m_state p' = (if m_state p = St_Online then St_Online else St_Established)" "m_cmd_seq_out p' = 1"
    by (simp_all add: p' p5_def p4_def p3_def p2_def p1_def)
  show "(m_crypto_ready p', m_crypto_key p') = (if ?enc \<and> snd (x25519 (e_private_key b) (e_public_key a))
       then (True, session_key (fst (x25519 (e_private_key b) (e_public_key a))) (l_client_id (e_ids b)) (h_client_id header))
       else (m_crypto_ready p, m_crypto_key p))"
    by (simp add: p' p5_def p4_def p3_def p2_def p1_def derive_session_key_eq Let_def split_def)
qed

lemma send_command_fields:
  assumes "send_command ep p payload unix = (True, p', header, acts)"
  shows "m_crypto_key p' = m_crypto_key p" "m_crypto_ready p' = m_crypto_ready p" "h_type header = Command"
    "h_sequence header = m_cmd_seq_out p" "h_client_id header = l_client_id (e_ids ep)"
  using assms by (auto simp: send_command_def Let_def control_header_def split: if_splits)

text \<open>The key part of \<open>handle_handshake_ack\<close>.\<close>

definition ack_key :: "endpoint \<Rightarrow> u32 \<Rightarrow> bytes \<Rightarrow> bool \<times> bytes \<Rightarrow> bool \<times> bytes" where
  "ack_key ep c payload old =
    (let pub = take 32 (drop (length payload - 1 - 32) payload)
     in if c_encryption_enabled (e_cfg ep) \<and> length payload \<ge> 33 \<and> snd (x25519 (e_private_key ep) pub)
        then (True, session_key (fst (x25519 (e_private_key ep) pub)) (l_client_id (e_ids ep)) c) else old)"

lemma handle_handshake_ack_fields:
  assumes "p' = fst (handle_handshake_ack ep rtt p header payload unix now)"
  shows "(m_crypto_ready p', m_crypto_key p') = ack_key ep (h_client_id header) payload (m_crypto_ready p, m_crypto_key p)"
    "m_cmd_seq_out p' = 1" "m_state p' = (if m_state p = St_Closed then St_Closed else St_Online)"
    "payload \<noteq> [] \<Longrightarrow> m_peer_retransmit p' = (last payload AND 1 \<noteq> 0)"
proof -
  define p1 where "p1 = (cmd_reset (sync_clock p (h_tick header) unix rtt))\<lparr> m_last_report_at := 0 \<rparr>"
  define p2 where "p2 = (if payload \<noteq> [] then
      (if c_encryption_enabled (e_cfg ep) \<and> length payload - 1 \<ge> 32
       then derive_session_key ep (p1\<lparr> m_peer_retransmit := (payload ! (length payload - 1) AND 1 \<noteq> 0) \<rparr>)
         (take 32 (drop (length payload - 1 - 32) payload)) (h_client_id header)
       else p1\<lparr> m_peer_retransmit := (payload ! (length payload - 1) AND 1 \<noteq> 0) \<rparr>) else p1)"
  have p': "p' = (if m_state p2 = St_Handshake \<or> m_state p2 = St_Established
      then (fst (send_control ep p2 Online [] True unix now))\<lparr> m_last_online_sent := now, m_state := St_Online, m_handshake_backoff := ms 500 \<rparr>
      else p2)"
    unfolding assms handle_handshake_ack_def Let_def p1_def [symmetric] p2_def [symmetric]
    by (cases "m_state p2") (simp_all add: split_def)
  have long: "33 \<le> length payload \<longleftrightarrow> payload \<noteq> [] \<and> 32 \<le> length payload - 1"
    by (cases payload) auto
  show "(m_crypto_ready p', m_crypto_key p') = ack_key ep (h_client_id header) payload (m_crypto_ready p, m_crypto_key p)"
    by (simp add: p' p2_def p1_def derive_session_key_eq ack_key_def long Let_def split_def)
  have "m_state p2 = m_state p"
    by (simp add: p2_def p1_def)
  then show "m_state p' = (if m_state p = St_Closed then St_Closed else St_Online)"
    by (cases "m_state p") (simp_all add: p')
  show "m_cmd_seq_out p' = 1"
    by (simp add: p' p2_def p1_def)
  show "payload \<noteq> [] \<Longrightarrow> m_peer_retransmit p' = (last payload AND 1 \<noteq> 0)"
    by (simp add: p' p2_def p1_def last_conv_nth)
qed

text \<open>
  C34: both ends of a handshake agree. Two ends with the same token and encryption setting, whose key pairs satisfy
  the Diffie-Hellman law, exchange a handshake and its acknowledgment: afterwards they hold the same session
  key, or neither has one; each knows whether the other retransmits; the initiator is online and the other end established, under
  the initiator's name and role.
\<close>

theorem handshake_agrees_on_key:
  assumes "length (c_id (e_cfg a)) \<le> 65535" "c_token (e_cfg a) = c_token (e_cfg b)"
    "c_encryption_enabled (e_cfg a) = c_encryption_enabled (e_cfg b)" "length (e_public_key a) = 32" "length (e_public_key b) = 32"
    and "x25519 (e_private_key a) (e_public_key b) = x25519 (e_private_key b) (e_public_key a)"
    and "h_client_id ha = l_client_id (e_ids a)" "h_client_id hb = l_client_id (e_ids b)"
    and "m_state pa = St_Handshake" "m_state pb = St_Handshake" "(m_crypto_ready pa, m_crypto_key pa) = (m_crypto_ready pb, m_crypto_key pb)"
    and "pb' = fst (handle_handshake b rtt pb ha (handshake_payload a) unix now)"
    and "pa' = fst (handle_handshake_ack a rtt' pa hb (capability_flags b) unix' now')"
  shows "(m_crypto_ready pa', m_crypto_key pa') = (m_crypto_ready pb', m_crypto_key pb') \<and>
    (c_encryption_enabled (e_cfg a) \<and> snd (x25519 (e_private_key b) (e_public_key a)) \<longrightarrow> m_crypto_ready pa') \<and>
    m_peer_retransmit pa' = c_retransmit_enabled (e_cfg b) \<and> m_peer_retransmit pb' = c_retransmit_enabled (e_cfg a) \<and>
    m_state pa' = St_Online \<and> m_state pb' = St_Established \<and> m_role pb' = c_role (e_cfg a) \<and>
    (c_id (e_cfg a) \<noteq> [] \<longrightarrow> m_id pb' = c_id (e_cfg a))"
proof -
  note B = handle_handshake_accepts [OF assms(1-4,12)]
  note A = handle_handshake_ack_fields [OF assms(13)]
  note cap = capability_parts [OF assms(5) refl]
  let ?caps = "capability_flags b"
  have ne: "?caps \<noteq> []"
    by (simp add: capability_flags_def)
  have ready: "ack_key a (h_client_id hb) ?caps old = (if c_encryption_enabled (e_cfg b) \<and> snd (x25519 (e_private_key a) (e_public_key b))
      then (True, session_key (fst (x25519 (e_private_key a) (e_public_key b))) (l_client_id (e_ids a)) (l_client_id (e_ids b))) else old)" for old
    using cap assms(3,8) by (simp add: ack_key_def Let_def)
  have same: "(m_crypto_ready pa', m_crypto_key pa') = (m_crypto_ready pb', m_crypto_key pb')"
    unfolding A(1) B(6) ready assms(6,7) session_key_commute [of _ "l_client_id (e_ids a)"] using assms(11) by simp
  have "c_encryption_enabled (e_cfg a) \<and> snd (x25519 (e_private_key b) (e_public_key a)) \<longrightarrow> m_crypto_ready pa'"
    using B(6) same assms(3) by auto
  moreover have "m_peer_retransmit pa' = c_retransmit_enabled (e_cfg b)"
    using A(4) [OF ne] cap(2) ne by (simp add: last_conv_nth)
  ultimately show ?thesis
    using same A(3) B(1-4) assms(9,10) by simp
qed

definition sample_end :: endpoint where
  "sample_end = \<lparr> e_cfg = default_config\<lparr> c_id := [65], c_token := [1, 2] \<rparr>, e_ids = \<lparr> l_client_id = 5, l_session_id = 6 \<rparr>,
     e_private_key = replicate 32 3, e_public_key = replicate 32 4, e_sock = True \<rparr>"

definition other_end :: endpoint where
  "other_end = sample_end\<lparr> e_cfg := default_config\<lparr> c_id := [66, 67], c_token := [1, 2], c_role := Node \<rparr>,
     e_ids := \<lparr> l_client_id = 4, l_session_id = 7 \<rparr> \<rparr>"

definition sample_peer :: peer where
  "sample_peer = new_peer\<lparr> m_state := St_Handshake, m_addr_set := True \<rparr>"

lemma handshake_agrees_on_key_witness:
  "m_crypto_key (fst (handle_handshake_ack sample_end 0 sample_peer (control_header other_end HandshakeAck) (capability_flags other_end) 0 0)) =
   m_crypto_key (fst (handle_handshake other_end 0 sample_peer (control_header sample_end Handshake) (handshake_payload sample_end) 0 0))"
  using handshake_agrees_on_key [of sample_end other_end "control_header sample_end Handshake" "control_header other_end HandshakeAck"
      sample_peer sample_peer, OF _ _ _ _ _ _ _ _ _ _ _ refl refl, of 0 0 0 0 0 0]
  by (simp add: sample_end_def other_end_def sample_peer_def control_header_def)

text \<open>
  C39: command nonces repeat. Whenever an end accepts a handshake acknowledgment, sends a command, accepts the same
  acknowledgment once more, for instance a duplicate from the network, and sends another command, the
  two commands carry the same nonce under the same key.
\<close>

theorem repeated_ack_reuses_nonce:
  assumes "p1 = fst (handle_handshake_ack ep rtt p header payload unix now)"
    and "send_command ep p1 first u1 = (True, p2, h1, acts1)"
    and "p3 = fst (handle_handshake_ack ep rtt' p2 header payload unix' now')"
    and "send_command ep p3 second u2 = (True, p4, h2, acts2)"
  shows "build_nonce h1 = build_nonce h2 \<and> m_crypto_key p2 = m_crypto_key p4 \<and> m_crypto_ready p2 = m_crypto_ready p4"
proof -
  note A1 = handle_handshake_ack_fields [OF assms(1)] and A3 = handle_handshake_ack_fields [OF assms(3)]
  note C2 = send_command_fields [OF assms(2)] and C4 = send_command_fields [OF assms(4)]
  have "(m_crypto_ready p3, m_crypto_key p3) = (m_crypto_ready p1, m_crypto_key p1)"
    unfolding A3(1) C2(1,2) A1(1) by (simp add: ack_key_def Let_def)
  then show ?thesis
    using A1(2) A3(2) C2 C4 by (simp add: build_nonce_bytes)
qed

definition keyed_peer :: peer where
  "keyed_peer = sample_peer\<lparr> m_crypto_ready := True, m_crypto_key := replicate 32 7 \<rparr>"

lemma repeated_ack_reuses_nonce_witness:
  "\<exists>p1 p2 p3 p4 h1 h2 acts1 acts2.
    p1 = fst (handle_handshake_ack sample_end 0 keyed_peer (control_header sample_end HandshakeAck) [1] 0 0) \<and>
    send_command sample_end p1 [7] 0 = (True, p2, h1, acts1) \<and>
    p3 = fst (handle_handshake_ack sample_end 0 p2 (control_header sample_end HandshakeAck) [1] 9 9) \<and>
    send_command sample_end p3 [8, 8] 9 = (True, p4, h2, acts2) \<and> h_payload_size h1 \<noteq> h_payload_size h2 \<and>
    build_nonce h1 = build_nonce h2 \<and> m_crypto_ready p2 \<and> m_crypto_ready p4 \<and> m_crypto_key p4 = m_crypto_key p2"
proof -
  define p1 where "p1 = fst (handle_handshake_ack sample_end 0 keyed_peer (control_header sample_end HandshakeAck) [1] 0 0)"
  have accepted: "\<exists>p' h acts. send_command sample_end p payload u = (True, p', h, acts) \<and> m_state p' = m_state p \<and>
      h_payload_size h = word_of_nat (length payload)" if "m_state p = St_Online" "length payload \<le> 2" for p payload u
    using that by (simp add: send_command_def Let_def sample_end_def default_config_def kHeaderSize_def)
  have "m_state p1 = St_Online"
    using handle_handshake_ack_fields(3) [OF p1_def] by (simp add: keyed_peer_def sample_peer_def)
  then obtain p2 h1 acts1 where s1: "send_command sample_end p1 [7] 0 = (True, p2, h1, acts1)" "m_state p2 = St_Online" "h_payload_size h1 = 1"
    using accepted [of p1 "[7]" 0] by auto
  define p3 where "p3 = fst (handle_handshake_ack sample_end 0 p2 (control_header sample_end HandshakeAck) [1] 9 9)"
  have "m_state p3 = St_Online"
    using handle_handshake_ack_fields(3) [OF p3_def] s1(2) by simp
  then obtain p4 h2 acts2 where s2: "send_command sample_end p3 [8, 8] 9 = (True, p4, h2, acts2)" "h_payload_size h2 = 2"
    using accepted [of p3 "[8, 8]" 9] by auto
  have "m_crypto_ready p1"
    using handle_handshake_ack_fields(1) [OF p1_def] by (simp add: ack_key_def keyed_peer_def)
  then have "m_crypto_ready p2"
    using send_command_fields(2) [OF s1(1)] by simp
  moreover have "build_nonce h1 = build_nonce h2 \<and> m_crypto_key p2 = m_crypto_key p4 \<and> m_crypto_ready p2 = m_crypto_ready p4"
    by (rule repeated_ack_reuses_nonce [OF p1_def s1(1) p3_def s2(1)])
  ultimately have "build_nonce h1 = build_nonce h2 \<and> m_crypto_ready p2 \<and> m_crypto_ready p4 \<and> m_crypto_key p4 = m_crypto_key p2"
    by simp
  then show ?thesis
    using p1_def s1(1,3) p3_def s2 by (intro exI [of _ p1] exI [of _ p2] exI [of _ p3] exI [of _ p4] exI [of _ h1] exI [of _ h2] exI [of _ acts1] exI [of _ acts2]) simp
qed

text \<open>A handshake with the wrong token is ignored, except that its capability flag has been stored already.\<close>

lemma wrong_token_sets_flag:
  "fst (handle_handshake sample_end 0 sample_peer (control_header sample_end Handshake) [0, 0, 0, 9, 0] 0 0) =
    sample_peer\<lparr> m_peer_retransmit := False \<rparr>"
  by (simp add: handle_handshake_def Let_def sample_end_def sample_peer_def new_peer_def default_config_def)

end
