(* ===== verification/Pacing.thy ===== *)
theory Pacing
  imports Send_Queue Bandwidth
begin

text \<open>
  The sender, \<open>transport.cpp\<close>: a token bucket refilled at the estimated rate, which video may overdraw up to a
  loan, and one heartbeat of \<open>sender_loop\<close> (with a thread of its own) and of \<open>drain_sender\<close> (in the
  reactor). A heartbeat is atomic here: packets queued by other threads meanwhile are seen by the next.
  \<open>reach k\<close> holds when the socket is open and the peer \<open>k\<close> has an address.
\<close>

record pacer =
  t_bucket :: double
  t_bucket_time :: time
  t_loan_drain :: bool
  t_loan_exhausted_reported :: bool
  t_pacer_limited :: bool
  t_evac_reset_token :: bool
  t_tx_bytes :: u64
  t_lite_pending :: "outbound_packet option"

definition token_bucket_cap :: "tight_config \<Rightarrow> bandwidth_estimator \<Rightarrow> double" where
  "token_bucket_cap cfg e =
    max (fmul (fof (int (c_mtu cfg))) 4) (fmul (fof (uint (bw_bytes_per_second e))) (rnd64 (2 / 100)))"

definition loan_limit :: "tight_config \<Rightarrow> bandwidth_estimator \<Rightarrow> double" where
  "loan_limit cfg e =
    (if c_loan_seconds cfg \<le> 0 then 0 else fmul (fof (uint (bw_bytes_per_second e))) (c_loan_seconds cfg))"

definition refill_token_bucket :: "tight_config \<Rightarrow> bandwidth_estimator \<Rightarrow> time \<Rightarrow> pacer \<Rightarrow> pacer" where
  "refill_token_bucket cfg e now t =
    (let elapsed_us = to_us (now - t_bucket_time t)
     in if elapsed_us \<le> 0 then t
        else
          let bps = bw_bytes_per_second e;
              tokens = fdiv (fmul (fof (uint bps)) (fof elapsed_us)) 1000000;
              t = t\<lparr> t_bucket := fadd (t_bucket t) tokens \<rparr>;
              cap = token_bucket_cap cfg e;
              t = (if t_bucket t > cap then t\<lparr> t_bucket := cap \<rparr> else t)
          in t\<lparr> t_bucket_time := now \<rparr>)"

definition packet_cost :: "outbound_packet \<Rightarrow> double" where
  "packet_cost pkt = fof (int (length (op_datagram pkt)))"

definition send_paid :: "double \<Rightarrow> outbound_packet \<Rightarrow> pacer \<Rightarrow> pacer" where
  "send_paid cost pkt t =
    t\<lparr> t_bucket := fsub (t_bucket t) cost, t_tx_bytes := t_tx_bytes t + word_of_nat (length (op_datagram pkt)) \<rparr>"

section \<open>One heartbeat of the sender thread\<close>

text \<open>The audio queue is emptied past the bucket. Result: the packets sent.\<close>

fun drain_audio :: "(bytes \<Rightarrow> bool) \<Rightarrow> (u8 \<Rightarrow> bool) \<Rightarrow> outbound_packet list \<Rightarrow> pacer \<Rightarrow> pacer \<times> outbound_packet list" where
  "drain_audio reach drained [] t = (t, [])"
| "drain_audio reach drained (pkt # pkts) t =
    (if drained (op_channel pkt) then drain_audio reach drained pkts t
     else if \<not> reach (op_peer pkt) then drain_audio reach drained pkts t
     else
       let t = t\<lparr> t_tx_bytes := t_tx_bytes t + word_of_nat (length (op_datagram pkt)) \<rparr>;
           (t, sent) = drain_audio reach drained pkts t
       in (t, pkt # sent))"

text \<open>
  The loop over the ordinary queue. Result: the packets sent, the packets left in the queue, and whether the loan
  is exhausted. The packet that ends the loop has been polled and is in neither list.
\<close>

fun drain_outbound :: "double \<Rightarrow> (bytes \<Rightarrow> bool) \<Rightarrow> (u8 \<Rightarrow> bool) \<Rightarrow> outbound_packet list \<Rightarrow> pacer \<Rightarrow>
    pacer \<times> outbound_packet list \<times> outbound_packet list \<times> bool" where
  "drain_outbound limit reach drained [] t = (t, [], [], False)"
| "drain_outbound limit reach drained (pkt # pkts) t =
    (if drained (op_channel pkt) then drain_outbound limit reach drained pkts t
     else if op_channel pkt = 0 \<and> t_loan_drain t then drain_outbound limit reach drained pkts t
     else if \<not> reach (op_peer pkt) then drain_outbound limit reach drained pkts t
     else
       let cost = packet_cost pkt
       in if op_channel pkt = 0 then
            (if fsub (t_bucket t) cost \<ge> - limit then
               let (t, sent, left, exhausted) = drain_outbound limit reach drained pkts (send_paid cost pkt t)
               in (t, pkt # sent, left, exhausted)
             else (t, [], pkts, True))
          else
            (if t_bucket t \<ge> cost then
               let (t, sent, left, exhausted) = drain_outbound limit reach drained pkts (send_paid cost pkt t)
               in (t, pkt # sent, left, exhausted)
             else (t\<lparr> t_pacer_limited := True \<rparr>, [], pkts, False)))"

datatype sender_event = Sent outbound_packet | Loan_Exhausted bool

definition beat_start :: "tight_config \<Rightarrow> bandwidth_estimator \<Rightarrow> time \<Rightarrow> pacer \<Rightarrow> send_side \<Rightarrow> pacer" where
  "beat_start cfg e now t st =
    (let t = refill_token_bucket cfg e now t;
         t = (if t_evac_reset_token t
              then t\<lparr> t_evac_reset_token := False, t_bucket := 0, t_loan_drain := False, t_loan_exhausted_reported := False \<rparr> else t)
     in t\<lparr> t_pacer_limited := (t_bucket t < 0 \<or> length (fifo_items (s_outbound_queue st)) \<ge> 32) \<rparr>)"

text \<open>\<open>notify_loan_exhausted\<close> after the queues: at most once per exhaustion, and once when the debt is repaid.\<close>

definition settle_loan :: "bool \<Rightarrow> pacer \<Rightarrow> pacer \<times> sender_event list" where
  "settle_loan loan_exhausted_now t =
    (let (t, ev1) = (if loan_exhausted_now then
             let t = t\<lparr> t_loan_drain := True \<rparr>
             in if \<not> t_loan_exhausted_reported t then (t\<lparr> t_loan_exhausted_reported := True \<rparr>, [Loan_Exhausted True]) else (t, [])
           else (t, []));
         (t, ev2) = (if t_loan_drain t \<and> t_bucket t \<ge> 0
           then (t\<lparr> t_loan_drain := False, t_loan_exhausted_reported := False \<rparr>, [Loan_Exhausted False]) else (t, []))
     in (t, ev1 @ ev2))"

definition sender_heartbeat :: "tight_config \<Rightarrow> bandwidth_estimator \<Rightarrow> (bytes \<Rightarrow> bool) \<Rightarrow> time \<Rightarrow> u64 \<Rightarrow> pacer \<Rightarrow> send_side \<Rightarrow>
    pacer \<times> send_side \<times> sender_event list" where
  "sender_heartbeat cfg e reach now unix t st =
    (let t = beat_start cfg e now t st;
         drained = (\<lambda>channel. draining st channel unix);
         (t, audio) = drain_audio reach drained (fifo_items (s_audio_queue st)) t;
         (t, sent, left, loan_exhausted_now) =
           drain_outbound (loan_limit cfg e) reach drained (fifo_items (s_outbound_queue st)) t;
         st = st\<lparr> s_audio_queue := (s_audio_queue st)\<lparr> fifo_items := [] \<rparr>,
           s_outbound_queue := (s_outbound_queue st)\<lparr> fifo_items := if loan_exhausted_now then [] else left \<rparr> \<rparr>;
         (t, events) = settle_loan loan_exhausted_now t
     in (t, st, map Sent audio @ map Sent sent @ events))"

section \<open>One beat of the lite sender\<close>

text \<open>\<open>app_limited\<close>: at most eight packets wait and nothing was submitted for half a second (the difference wraps).\<close>

definition app_limited :: "send_side \<Rightarrow> u64 \<Rightarrow> bool" where
  "app_limited st unix \<longleftrightarrow> \<not> length (fifo_items (s_outbound_queue st)) > 8 \<and> unix - s_last_app_send_ms st > 500"

text \<open>The packet to send next: none waits, the polled one was dropped, or one is pending.\<close>

datatype next_packet = Nothing_Waits | Dropped | Pending outbound_packet

definition next_pending :: "u64 \<Rightarrow> pacer \<Rightarrow> send_side \<Rightarrow> next_packet \<times> pacer \<times> send_side" where
  "next_pending unix t st =
    (case t_lite_pending t of
       Some pkt \<Rightarrow> (Pending pkt, t, st)
     | None \<Rightarrow>
         (case fifo_poll (s_outbound_queue st) of
            (None, q) \<Rightarrow> (Nothing_Waits, t, st)
          | (Some pkt, q) \<Rightarrow>
              let st = st\<lparr> s_outbound_queue := q \<rparr>
              in if draining st (op_channel pkt) unix then (Dropped, t, st)
                 else (Pending pkt, t\<lparr> t_lite_pending := Some pkt \<rparr>, st)))"

fun drain_sender_loop :: "nat \<Rightarrow> tight_config \<Rightarrow> bandwidth_estimator \<Rightarrow> (bytes \<Rightarrow> bool) \<Rightarrow> time \<Rightarrow> u64 \<Rightarrow> pacer \<Rightarrow> send_side \<Rightarrow>
    pacer \<times> send_side \<times> outbound_packet list" where
  "drain_sender_loop 0 cfg e reach now unix t st = (t, st, [])"
| "drain_sender_loop (Suc n) cfg e reach now unix t st =
    (case next_pending unix t st of
       (Nothing_Waits, t, st) \<Rightarrow> (t, st, [])
     | (Dropped, t, st) \<Rightarrow> drain_sender_loop n cfg e reach now unix t st
     | (Pending pkt, t, st) \<Rightarrow>
         if \<not> reach (op_peer pkt) then drain_sender_loop n cfg e reach now unix (t\<lparr> t_lite_pending := None \<rparr>) st
         else
           let cost = packet_cost pkt;
               t = refill_token_bucket cfg e now t
           in if t_bucket t < cost \<and> \<not> app_limited st unix
              then (if length (fifo_items (s_outbound_queue st)) \<ge> 32 then t\<lparr> t_pacer_limited := True \<rparr> else t, st, [])
              else
                let t = (send_paid cost pkt t)\<lparr> t_lite_pending := None \<rparr>;
                    (t, st, sent) = drain_sender_loop n cfg e reach now unix t st
                in (t, st, pkt # sent))"

definition drain_sender :: "tight_config \<Rightarrow> bandwidth_estimator \<Rightarrow> (bytes \<Rightarrow> bool) \<Rightarrow> time \<Rightarrow> u64 \<Rightarrow> pacer \<Rightarrow> send_side \<Rightarrow>
    pacer \<times> send_side \<times> outbound_packet list" where
  "drain_sender cfg e reach now unix t st =
    (let drained = (\<lambda>channel. draining st channel unix);
         (t, audio) = drain_audio reach drained (fifo_items (s_audio_queue st)) t;
         st = st\<lparr> s_audio_queue := (s_audio_queue st)\<lparr> fifo_items := [] \<rparr> \<rparr>;
         (t, st, sent) = drain_sender_loop 64 cfg e reach now unix t st
     in (t, st, audio @ sent))"

section \<open>The debt is bounded by the loan\<close>

lemma cost_nonneg: "0 \<le> packet_cost pkt"
  by (simp add: packet_cost_def fof_nonneg)

lemma loan_nonneg: "0 \<le> loan_limit cfg e"
proof -
  have "0 \<le> fof (uint (bw_bytes_per_second e))"
    by (simp add: fof_nonneg)
  then show ?thesis
    by (auto simp: loan_limit_def fmul_def intro!: rnd64_nonneg mult_nonneg_nonneg)
qed

text \<open>
  The bucket lies between the loan and the cap, and holds a double. Both bounds are doubles, so rounding does not
  cross them.
\<close>

definition bucket_ok :: "tight_config \<Rightarrow> bandwidth_estimator \<Rightarrow> pacer \<Rightarrow> bool" where
  "bucket_ok cfg e t \<longleftrightarrow> - loan_limit cfg e \<le> t_bucket t \<and> t_bucket t \<le> token_bucket_cap cfg e \<and> rnd64 (t_bucket t) = t_bucket t"

lemma bounds_are_doubles:
  "rnd64 (- loan_limit cfg e) = - loan_limit cfg e" "rnd64 (token_bucket_cap cfg e) = token_bucket_cap cfg e" "0 \<le> token_bucket_cap cfg e"
proof -
  show "rnd64 (- loan_limit cfg e) = - loan_limit cfg e"
    by (simp add: loan_limit_def fmul_def rnd64_minus rnd64_idem)
  show "rnd64 (token_bucket_cap cfg e) = token_bucket_cap cfg e"
    by (simp add: token_bucket_cap_def fmul_def max_def rnd64_idem)
  have "0 \<le> fmul (fof (int (c_mtu cfg))) 4"
    using fof_nonneg [of "int (c_mtu cfg)"] by (auto simp: fmul_def intro!: rnd64_nonneg mult_nonneg_nonneg)
  then show "0 \<le> token_bucket_cap cfg e"
    by (simp add: token_bucket_cap_def)
qed

lemma refill_ok:
  assumes "bucket_ok cfg e t"
  shows "bucket_ok cfg e (refill_token_bucket cfg e now t)"
proof -
  define elapsed where "elapsed = to_us (now - t_bucket_time t)"
  define tokens where "tokens = fdiv (fmul (fof (uint (bw_bytes_per_second e))) (fof elapsed)) 1000000"
  define b where "b = fadd (t_bucket t) tokens"
  have "- loan_limit cfg e \<le> b" if "0 < elapsed"
  proof -
    have "0 \<le> tokens"
      using that fof_nonneg [of elapsed] fof_nonneg [of "uint (bw_bytes_per_second e)"]
      by (auto simp: tokens_def fdiv_def fmul_def intro!: rnd64_nonneg mult_nonneg_nonneg divide_nonneg_nonneg)
    then have "- loan_limit cfg e \<le> t_bucket t + tokens"
      using assms by (simp add: bucket_ok_def)
    then show ?thesis
      using r64.rnd_ge_double [of "- loan_limit cfg e" "t_bucket t + tokens"] by (simp add: b_def fadd_def bounds_are_doubles)
  qed
  moreover have "rnd64 b = b"
    by (simp add: b_def fadd_def rnd64_idem)
  moreover have "refill_token_bucket cfg e now t = (if elapsed \<le> 0 then t
      else t\<lparr> t_bucket := min b (token_bucket_cap cfg e), t_bucket_time := now \<rparr>)"
    by (simp add: refill_token_bucket_def Let_def elapsed_def [symmetric] tokens_def [symmetric] b_def [symmetric] min_def)
  ultimately show ?thesis
    using assms bounds_are_doubles [of cfg e] loan_nonneg [of cfg e] by (auto simp: bucket_ok_def min_def)
qed

lemma drain_audio_fields [simp]:
  "t_bucket (fst (drain_audio reach drained pkts t)) = t_bucket t"
  "t_loan_exhausted_reported (fst (drain_audio reach drained pkts t)) = t_loan_exhausted_reported t"
  "t_loan_drain (fst (drain_audio reach drained pkts t)) = t_loan_drain t"
  by (induction reach drained pkts t rule: drain_audio.induct; simp add: Let_def split_def)+

lemma drain_outbound_ok:
  assumes "bucket_ok cfg e t"
  shows "bucket_ok cfg e (fst (drain_outbound (loan_limit cfg e) reach drained pkts t))"
  using assms
proof (induction "loan_limit cfg e" reach drained pkts t rule: drain_outbound.induct)
  case (2 reach drained pkt pkts t)
  let ?c = "packet_cost pkt"
  have "fsub (t_bucket t) ?c \<le> t_bucket t"
    using r64.rnd_le_double [of "t_bucket t - ?c" "t_bucket t"] cost_nonneg [of pkt] 2(6) by (simp add: fsub_def bucket_ok_def)
  moreover have "0 \<le> fsub (t_bucket t) ?c" if "?c \<le> t_bucket t"
    using rnd64_nonneg [of "t_bucket t - ?c"] that by (simp add: fsub_def)
  ultimately have paid: "bucket_ok cfg e (send_paid ?c pkt t)"
    if "- loan_limit cfg e \<le> fsub (t_bucket t) ?c \<or> ?c \<le> t_bucket t"
    using that 2(6) loan_nonneg [of cfg e] by (auto simp: bucket_ok_def send_paid_def fsub_def rnd64_idem)
  have "bucket_ok cfg e (t\<lparr> t_pacer_limited := x \<rparr>)" for x
    using 2(6) by (simp add: bucket_ok_def)
  then show ?case
    using 2(1-5) 2(6) paid by (simp add: Let_def split_def)
qed simp

lemma bucket_ok_cong: "bucket_ok cfg e t \<Longrightarrow> t_bucket t' = t_bucket t \<Longrightarrow> bucket_ok cfg e t'"
  by (simp add: bucket_ok_def)

lemma beat_start_ok:
  assumes "bucket_ok cfg e t"
  shows "bucket_ok cfg e (beat_start cfg e now t st)"
  using refill_ok [OF assms, of now] loan_nonneg [of cfg e] bounds_are_doubles(3) [of cfg e]
  by (simp add: beat_start_def Let_def bucket_ok_def)

lemma settle_loan_bucket [simp]: "t_bucket (fst (settle_loan x t)) = t_bucket t"
  by (simp add: settle_loan_def Let_def)

lemma loan_event_when_exhausted: "Loan_Exhausted True \<in> set (snd (settle_loan x t)) \<Longrightarrow> x"
  by (simp add: settle_loan_def Let_def split: if_splits)

lemma no_packet_in_settling: "Sent pkt \<notin> set (snd (settle_loan x t))"
  by (simp add: settle_loan_def Let_def)

text \<open>
  C36: the debt is bounded by the loan. With the rate unchanged, the token bucket stays between minus the loan
  limit and its cap in every heartbeat of the sender, whatever waits in the queues, and when the
  application is told that the loan is exhausted, nothing is left in the outbound queue.
\<close>

theorem debt_bounded_by_loan:
  assumes "bucket_ok cfg e t" "sender_heartbeat cfg e reach now unix t st = (t', st', evs)"
  shows "bucket_ok cfg e t' \<and> (Loan_Exhausted True \<in> set evs \<longrightarrow> fifo_items (s_outbound_queue st') = [])"
proof -
  let ?drained = "\<lambda>channel. draining st channel unix"
  obtain ta audio where ta: "drain_audio reach ?drained (fifo_items (s_audio_queue st)) (beat_start cfg e now t st) = (ta, audio)"
    by fastforce
  obtain tb sent left x where tb:
    "drain_outbound (loan_limit cfg e) reach ?drained (fifo_items (s_outbound_queue st)) ta = (tb, sent, left, x)"
    by (metis prod.exhaust)
  have beat: "t' = fst (settle_loan x tb)" "fifo_items (s_outbound_queue st') = (if x then [] else left)"
    "evs = map Sent audio @ map Sent sent @ snd (settle_loan x tb)"
    using assms(2) ta tb by (auto simp: sender_heartbeat_def Let_def split_def)
  have "bucket_ok cfg e ta"
    using bucket_ok_cong [OF beat_start_ok [OF assms(1)], of ta now st] drain_audio_fields(1) ta by (metis fst_conv)
  then have "bucket_ok cfg e tb"
    using drain_outbound_ok [of cfg e ta] tb by (metis fst_conv)
  then show ?thesis
    using bucket_ok_cong [of cfg e tb t'] beat loan_event_when_exhausted [of x tb] by auto
qed

definition two_fragments :: send_side where
  "two_fragments = (new_send_side default_config)\<lparr> s_outbound_queue :=
     \<lparr> fifo_items = [\<lparr> op_peer = [1], op_channel = 2, op_datagram = [7, 8, 9] \<rparr>,
         \<lparr> op_peer = [1], op_channel = 2, op_datagram = [6] \<rparr>], fifo_capacity = 8, fifo_closed = False \<rparr> \<rparr>"

definition idle_pacer :: pacer where
  "idle_pacer = \<lparr> t_bucket = 0, t_bucket_time = 0, t_loan_drain = False, t_loan_exhausted_reported = False,
     t_pacer_limited = False, t_evac_reset_token = False, t_tx_bytes = 0, t_lite_pending = None \<rparr>"

lemma idle_pacer_ok: "bucket_ok cfg e idle_pacer"
  using loan_nonneg [of cfg e] bounds_are_doubles [of cfg e] rnd64_exact [of 0]
  by (simp add: bucket_ok_def idle_pacer_def)

lemma debt_bounded_by_loan_witness:
  "- loan_limit default_config (new_estimator 1000000) \<le>
    t_bucket (fst (sender_heartbeat default_config (new_estimator 1000000) (\<lambda>k. True) 0 5 idle_pacer two_fragments))"
  using debt_bounded_by_loan [OF idle_pacer_ok [of default_config "new_estimator 1000000"], of "\<lambda>k. True" 0 5 two_fragments]
  by (metis bucket_ok_def prod.exhaust fst_conv)

section \<open>A packet short of tokens\<close>

text \<open>
  C40: a file or data packet that the bucket cannot pay for is lost. The packet at the head of the
  outbound queue is polled before its cost is compared with the bucket; when tokens are short the
  heartbeat sends nothing and leaves only the packets behind it in the queue.
\<close>

theorem throttled_packet_dropped:
  assumes "fifo_items (s_audio_queue st) = []" "fifo_items (s_outbound_queue st) = pkt # rest"
    and "op_channel pkt \<noteq> 0" "\<not> draining st (op_channel pkt) unix" "reach (op_peer pkt)"
    and "t_bucket (beat_start cfg e now t st) < packet_cost pkt"
    and "sender_heartbeat cfg e reach now unix t st = (t', st', evs)"
  shows "fifo_items (s_outbound_queue st') = rest \<and> (\<forall>p. Sent p \<notin> set evs)"
proof -
  let ?t = "beat_start cfg e now t st"
  have "drain_outbound (loan_limit cfg e) reach (\<lambda>channel. draining st channel unix) (pkt # rest) ?t =
      (?t\<lparr> t_pacer_limited := True \<rparr>, [], rest, False)"
    using assms(3-6) by (simp add: Let_def)
  then show ?thesis
    using assms(7) no_packet_in_settling
    by (auto simp: sender_heartbeat_def assms(1,2) Let_def split_def simp del: drain_outbound.simps)
qed

lemma throttled_packet_dropped_witness:
  "fifo_items (s_outbound_queue (fst (snd (sender_heartbeat default_config (new_estimator 1000000) (\<lambda>k. True) 0 5
    idle_pacer two_fragments)))) = [\<lparr> op_peer = [1], op_channel = 2, op_datagram = [6] \<rparr>]"
proof -
  obtain t' st' evs where beat: "sender_heartbeat default_config (new_estimator 1000000) (\<lambda>k. True) 0 5 idle_pacer two_fragments = (t', st', evs)"
    by (metis prod.exhaust)
  have "fifo_items (s_outbound_queue st') = [\<lparr> op_peer = [1], op_channel = 2, op_datagram = [6] \<rparr>] \<and> (\<forall>p. Sent p \<notin> set evs)"
  proof (rule throttled_packet_dropped [OF _ _ _ _ _ _ beat])
    show "fifo_items (s_outbound_queue two_fragments) = [\<lparr> op_peer = [1], op_channel = 2, op_datagram = [7, 8, 9] \<rparr>,
        \<lparr> op_peer = [1], op_channel = 2, op_datagram = [6] \<rparr>]"
      by (simp add: two_fragments_def)
  qed (simp_all add: two_fragments_def new_send_side_def new_fifo_def default_config_def draining_def idle_pacer_def
      beat_start_def refill_token_bucket_def to_us_def packet_cost_def fof_exact)
  then show ?thesis
    using beat by simp
qed

text \<open>The lite sender keeps such a packet for its next beat.\<close>

lemma lite_sender_keeps_packet:
  assumes "t_lite_pending t = Some pkt" "reach (op_peer pkt)"
    and "t_bucket (refill_token_bucket cfg e now t) < packet_cost pkt" "\<not> app_limited st unix"
    and "drain_sender_loop (Suc n) cfg e reach now unix t st = (t', st', sent)"
  shows "t_lite_pending t' = Some pkt \<and> st' = st \<and> sent = []"
proof -
  have "t_lite_pending (refill_token_bucket cfg e now t) = Some pkt"
    using assms(1) by (simp add: refill_token_bucket_def Let_def)
  then show ?thesis
    using assms by (auto simp: next_pending_def Let_def split: if_splits)
qed

end
