(* ===== verification/Capacity.thy ===== *)
theory Capacity
  imports Pacing Link
begin

text \<open>
  What a report does to the sender, \<open>transport.cpp\<close>: the bit rate left for video, the evacuation of the queues
  after a sharp slowdown (\<open>video_capacity_bps\<close>), the notification of the application with its
  hysteresis, the detection of a lasting overload, the lateness of frames, and \<open>handle_report\<close>, which
  feeds the bandwidth estimator. Each operation runs at one reading of the clocks.
\<close>

section \<open>State\<close>

record capacity_state =
  v_fd_rate_last_bytes :: u64
  v_fd_rate_last_ts :: time
  v_last_cap_notified :: u64
  v_cap_queue :: "u64 fifo"
  v_evac_processed_cong :: time
  v_evac_slow_deadline :: time
  v_evac_slow_q_bytes :: u64
  v_evac_slow_btl_snap :: u64
  v_tx_rate_last_bytes :: u64
  v_tx_rate_last_ts :: time
  v_overload_send_ewma :: double
  v_overload_recv_ewma :: double
  v_evac_pending :: u64

definition new_capacity_state :: capacity_state where
  "new_capacity_state = \<lparr> v_fd_rate_last_bytes = 0, v_fd_rate_last_ts = 0, v_last_cap_notified = 0,
     v_cap_queue = new_fifo 4, v_evac_processed_cong = 0, v_evac_slow_deadline = 0, v_evac_slow_q_bytes = 0,
     v_evac_slow_btl_snap = 0, v_tx_rate_last_bytes = 0, v_tx_rate_last_ts = 0, v_overload_send_ewma = 0,
     v_overload_recv_ewma = 0, v_evac_pending = 0 \<rparr>"

definition kEvacDrainMs :: u64 where "kEvacDrainMs = 100"
definition kEvacFreezeTotal :: time where "kEvacFreezeTotal = ms 3000"
definition kEvacFastMaxFactor :: double where "kEvacFastMaxFactor = rnd64 (60 / 100)"
definition kFecDisableRttMs :: int where "kFecDisableRttMs = 200"

section \<open>Shares of the other channels\<close>

definition file_data_rate_bps :: "time \<Rightarrow> u64 \<Rightarrow> capacity_state \<Rightarrow> double \<times> capacity_state" where
  "file_data_rate_bps now cur c =
    (let dt = to_us (now - v_fd_rate_last_ts c);
         rate = (if dt > 0 \<and> v_fd_rate_last_ts c \<noteq> 0
           then fdiv (fmul (fof (uint (cur - v_fd_rate_last_bytes c))) 1000000) (fof dt) else 0)
     in (rate, c\<lparr> v_fd_rate_last_bytes := cur, v_fd_rate_last_ts := now \<rparr>))"

definition fec_redundancy_ratio :: "peer list \<Rightarrow> double" where
  "fec_redundancy_ratio peers =
    (let data = sum_list (map m_fec_data_pkts peers);
         parity = sum_list (map m_fec_parity_pkts peers)
     in if data = 0 then 0 else fdiv (fof (uint parity)) (fof (uint data)))"

definition audio_share :: "tight_config \<Rightarrow> double" where
  "audio_share cfg = fmul (fof (uint (c_audio_reserved_bps cfg))) (fadd 1 (fof (uint (c_channel_fec_extra cfg ! 1))))"

section \<open>Video capacity and evacuation\<close>

text \<open>What is left of a rate, never negative.\<close>

definition left_for_video :: "double \<Rightarrow> double \<Rightarrow> double" where
  "left_for_video rest ratio = (let cap = fdiv rest (fadd 1 ratio) in if cap < 0 then 0 else cap)"

text \<open>
  A new sharp slowdown: the queues are cleared and the application restarts its encoder, or the
  excess is worked off within a window. The flag tells that \<open>notify_evac_keyframe\<close> was called.
\<close>

definition start_evacuation :: "tight_config \<Rightarrow> bandwidth_estimator \<Rightarrow> time \<Rightarrow> u64 \<Rightarrow> pacer \<Rightarrow> send_side \<Rightarrow> capacity_state \<Rightarrow>
    pacer \<times> send_side \<times> capacity_state \<times> bool" where
  "start_evacuation cfg e now unix t st c =
    (let last_cong = bw_last_congest_at e;
         window = ms (uint (c_slowdown_window_ms cfg))
     in if last_cong > 0 \<and> last_cong \<noteq> v_evac_processed_cong c \<and> now - last_cong < window then
          let (t, st, c, notified) =
            (if bw_last_congest_factor e \<le> kEvacFastMaxFactor then
               let st = clear_outbound_impl st;
                   st = st\<lparr> s_drain_until_ms := (s_drain_until_ms st)[0 := unix + kEvacDrainMs] \<rparr>;
                   t = t\<lparr> t_evac_reset_token := True \<rparr>;
                   st = st\<lparr> s_evac_keyframe_sent := False,
                     s_evac_freeze_until_ns := word_of_int (now + kEvacFreezeTotal), s_evac_mode := 1 \<rparr>
               in (t, st, c, True)
             else
               let c = c\<lparr> v_evac_slow_q_bytes := v_evac_pending c, v_evac_slow_btl_snap := bw_btl e,
                     v_evac_slow_deadline := now + window \<rparr>
               in (t, st\<lparr> s_evac_mode := 2 \<rparr>, c, False))
          in (t, st, c\<lparr> v_evac_processed_cong := last_cong \<rparr>, notified)
        else (t, st, c, False))"

definition end_freeze :: "time \<Rightarrow> send_side \<Rightarrow> send_side" where
  "end_freeze now st =
    (let freeze_ns = s_evac_freeze_until_ns st
     in if freeze_ns \<noteq> 0 \<and> now \<ge> sint freeze_ns then
          let st = st\<lparr> s_evac_freeze_until_ns := 0 \<rparr>
          in if \<not> s_evac_keyframe_sent st then st\<lparr> s_evac_mode := 0 \<rparr> else st
        else st)"

definition drain_rate :: "tight_config \<Rightarrow> double \<Rightarrow> double \<Rightarrow> double \<Rightarrow> double \<Rightarrow> capacity_state \<Rightarrow> double" where
  "drain_rate cfg audio fd_bps ratio cap c =
    (let window_s = fdiv (fof (uint (c_slowdown_window_ms cfg))) 1000;
         evac_bps = fdiv (fmul (fof (uint (v_evac_slow_q_bytes c))) 8) window_s;
         total_snap = fmul (fof (uint (v_evac_slow_btl_snap c))) 8;
         cap_drain = fdiv (fsub (fsub (fsub total_snap audio) fd_bps) evac_bps) (fadd 1 ratio);
         cap_drain = (if v_evac_slow_q_bytes c = 0 then fmul cap (rnd64 (5 / 10)) else cap_drain)
     in if cap_drain < 0 then 0 else cap_drain)"

definition end_slow_drain :: "time \<Rightarrow> send_side \<Rightarrow> capacity_state \<Rightarrow> send_side \<times> capacity_state" where
  "end_slow_drain now st c =
    (if now \<ge> v_evac_slow_deadline c
     then (st\<lparr> s_evac_mode := 0 \<rparr>, c\<lparr> v_evac_slow_q_bytes := 0, v_evac_slow_btl_snap := 0, v_evac_slow_deadline := 0, v_evac_pending := 0 \<rparr>)
     else (st, c))"

definition video_capacity_bps :: "tight_config \<Rightarrow> peer list \<Rightarrow> bandwidth_estimator \<Rightarrow> time \<Rightarrow> u64 \<Rightarrow> pacer \<Rightarrow> send_side \<Rightarrow> capacity_state \<Rightarrow>
    u64 \<times> pacer \<times> send_side \<times> capacity_state \<times> bool" where
  "video_capacity_bps cfg peers e now unix t st c =
    (let btl = bw_btl e;
         ratio = fec_redundancy_ratio peers;
         (rate, c) = file_data_rate_bps now (s_fd_tx_bytes st) c;
         fd_bps = fmul rate 8;
         audio = audio_share cfg;
         total_bps = fmul (fof (uint btl)) 8;
         cap = left_for_video (fsub (fsub total_bps audio) fd_bps) ratio
     in if c_slowdown_window_ms cfg > 0 then
          let (t, st, c, notified) = start_evacuation cfg e now unix t st c
          in if s_evac_mode st = 1 then
               let cap = left_for_video (fsub (fsub total_bps audio) fd_bps) ratio
               in (word_of_int (ftrunc cap), t, end_freeze now st, c, notified)
             else if s_evac_mode st = 2 then
               let cap = drain_rate cfg audio fd_bps ratio cap c;
                   (st, c) = end_slow_drain now st c
               in (word_of_int (ftrunc cap), t, st, c, notified)
             else (word_of_int (ftrunc cap), t, st, c, notified)
        else (word_of_int (ftrunc cap), t, st, c, False))"

text \<open>The value for the notification thread, if it differs enough from the last one. The products wrap.\<close>

definition notify_change :: "u64 \<Rightarrow> capacity_state \<Rightarrow> capacity_state" where
  "notify_change cap c =
    (let last = v_last_cap_notified c;
         told = c\<lparr> v_last_cap_notified := cap, v_cap_queue := snd (fifo_try_push cap (v_cap_queue c)) \<rparr>
     in if last = 0 then told
        else
          let delta = (if cap > last then cap - last else last - cap)
          in if delta * 10 > last \<and> delta > 100000 then told else c)"

definition notify_video_capacity :: "tight_config \<Rightarrow> peer list \<Rightarrow> bandwidth_estimator \<Rightarrow> time \<Rightarrow> u64 \<Rightarrow> pacer \<Rightarrow> send_side \<Rightarrow> capacity_state \<Rightarrow>
    pacer \<times> send_side \<times> capacity_state \<times> bool" where
  "notify_video_capacity cfg peers e now unix t st c =
    (let (cap, t, st, c, notified) = video_capacity_bps cfg peers e now unix t st c
     in (t, st, notify_change cap c, notified))"

section \<open>Reports\<close>

text \<open>
  Whether more is sent than received, on smoothed rates; the excess is integrated. Without a rate from
  the peer the answer is yes.
\<close>

definition sustained_overload :: "time \<Rightarrow> u64 \<Rightarrow> u64 \<Rightarrow> capacity_state \<Rightarrow> bool \<times> capacity_state" where
  "sustained_overload now cur recv c =
    (let dt = (if v_tx_rate_last_ts c \<noteq> 0 then fdiv (fof (now - v_tx_rate_last_ts c)) 1000000000 else 0);
         (overload, c) =
           (if dt > 0 \<and> cur \<ge> v_tx_rate_last_bytes c then
              let send_rate = fdiv (fof (uint (cur - v_tx_rate_last_bytes c))) dt;
                  recv_rate = fof (uint recv);
                  half = rnd64 (5 / 10)
              in if recv_rate > 0 then
                   let c = (if v_overload_send_ewma c = 0 \<and> v_overload_recv_ewma c = 0
                         then c\<lparr> v_overload_send_ewma := send_rate, v_overload_recv_ewma := recv_rate \<rparr>
                         else c\<lparr> v_overload_send_ewma := fadd (fmul half (v_overload_send_ewma c)) (fmul half send_rate),
                           v_overload_recv_ewma := fadd (fmul half (v_overload_recv_ewma c)) (fmul half recv_rate) \<rparr>)
                   in if v_overload_send_ewma c > v_overload_recv_ewma c
                      then (True, c\<lparr> v_evac_pending := v_evac_pending c +
                        word_of_int (ftrunc (fmul (fsub (v_overload_send_ewma c) (v_overload_recv_ewma c)) dt)) \<rparr>)
                      else (False, c)
                 else (True, c\<lparr> v_overload_send_ewma := 0, v_overload_recv_ewma := 0 \<rparr>)
            else (True, c))
     in (overload, c\<lparr> v_tx_rate_last_bytes := cur, v_tx_rate_last_ts := now \<rparr>))"

text \<open>The time a frame of \<open>bytes\<close> may take: the usual delay, its transmission at the rate, and the buffer.\<close>

definition frame_line_us :: "tight_config \<Rightarrow> peer \<Rightarrow> double \<Rightarrow> int \<Rightarrow> double" where
  "frame_line_us cfg p btl_bps frame_bytes =
    (let p50_us = fmul (fof (uint (m_peer_p50_ms p))) 1000;
         buffer_us = fmul (fof (uint (c_late_buffer_ms cfg))) 1000
     in fadd (fadd p50_us (fmul (fdiv (fmul (fof frame_bytes) 8) btl_bps) 1000000)) buffer_us)"

definition bin_us :: "nat \<Rightarrow> double" where
  "bin_us b = fadd (fmul (fof (int b)) 8000) 4000"

definition late_in_histogram :: "u32 list \<Rightarrow> double \<Rightarrow> u64" where
  "late_in_histogram hist line_us =
    foldl (\<lambda>over (b, n). if bin_us b > line_us then over + ucast n else over) 0 (enumerate 0 hist)"

text \<open>The share of late frames, or -1 without frame statistics.\<close>

definition frame_late_of :: "tight_config \<Rightarrow> peer \<Rightarrow> bandwidth_estimator \<Rightarrow> report_result \<Rightarrow> double" where
  "frame_late_of cfg p e r =
    (let btl_bps = fmul (fof (uint (bw_btl e))) 8
     in if rr_frame_lite r then
          (if rr_frame_hist_samples r > 0 \<and> rr_frame_max_bytes r > 0 \<and> btl_bps > 0 then
             let over = late_in_histogram (rr_frame_hist r) (frame_line_us cfg p btl_bps (uint (rr_frame_max_bytes r)));
                 late = fdiv (fof (uint over)) (fof (uint (rr_frame_hist_samples r)))
             in if late > 1 then 1 else late
           else -1)
        else
          (if rr_frame_pairs r \<noteq> [] \<and> btl_bps > 0 then
             let late_cnt = length (filter (\<lambda>(sz, delay). fmul (fof (uint delay)) 1000 > frame_line_us cfg p btl_bps (uint sz)) (rr_frame_pairs r))
             in fdiv (fof (int late_cnt)) (fof (int (length (rr_frame_pairs r))))
           else -1))"

text \<open>The end of a fast evacuation: the new key frame was submitted and a report has arrived.\<close>

definition confirm_evacuation :: "send_side \<Rightarrow> send_side" where
  "confirm_evacuation st =
    (if s_evac_mode st = 1 \<and> s_evac_keyframe_sent st then st\<lparr> s_evac_mode := 0, s_evac_keyframe_sent := False \<rparr> else st)"

definition in_evac :: "time \<Rightarrow> send_side \<Rightarrow> capacity_state \<Rightarrow> bool" where
  "in_evac now st c \<longleftrightarrow> s_evac_mode st = 2 \<and> now < v_evac_slow_deadline c \<or>
     s_evac_freeze_until_ns st \<noteq> 0 \<and> now < sint (s_evac_freeze_until_ns st)"

text \<open>The arguments of \<open>on_report\<close>.\<close>

definition signals_of :: "peer \<Rightarrow> report_result \<Rightarrow> double \<Rightarrow> bool \<Rightarrow> bool \<Rightarrow> bool \<Rightarrow> report_signals" where
  "signals_of p r frame_late pacer_capped overload evac =
    \<lparr> sg_p50_ms = ucast (m_peer_p50_ms p),
      sg_late = (if frame_late \<ge> 0 then frame_late else m_peer_late_ratio p),
      sg_loss = fdiv (fof (uint (rr_loss_ratio r))) 10000, sg_ce = fdiv (fof (uint (rr_ce_ratio r))) 10000,
      sg_pacer_limited = pacer_capped, sg_sustained_overload = overload, sg_in_evac_window = evac,
      sg_recv_rate = fof (uint (rr_recv_rate r)) \<rparr>"

text \<open>
  \<open>handle_report\<close> up to the notification of the application, for the peer \<open>p\<close>. Result: the peer, the estimator, the
  sender's state, and the packets sent again.
\<close>

definition absorb_report :: "endpoint \<Rightarrow> peer \<Rightarrow> packet_header \<Rightarrow> bytes \<Rightarrow> time \<Rightarrow> u64 \<Rightarrow>
    bandwidth_estimator \<Rightarrow> pacer \<Rightarrow> send_side \<Rightarrow> capacity_state \<Rightarrow>
    peer \<times> bandwidth_estimator \<times> send_side \<times> capacity_state \<times> link_action list" where
  "absorb_report ep p header payload now unix e t st c =
    (let cfg = e_cfg ep;
         e = feed_rtt_from_tick p (h_tick header) unix e;
         (r, p, resends) = report_handle p payload now;
         acts = concat (map (\<lambda>(h, pl). send_direct ep p (build_wire_packet cfg p h pl)) resends);
         p = p\<lparr> m_last_report_at := now \<rparr>;
         pacer_capped = t_pacer_limited t;
         (overload, c) = sustained_overload now (t_tx_bytes t) (rr_recv_rate r) c;
         frame_late = frame_late_of cfg p e r;
         p = (if frame_late \<ge> 0 then p\<lparr> m_peer_late_ratio := frame_late \<rparr> else p);
         st = confirm_evacuation st;
         e = bw_on_report (signals_of p r frame_late pacer_capped overload (in_evac now st c)) now e;
         e = (if rr_probe_bw r > 0 then bw_set_seed_and_clamp (rr_probe_bw r) e else e);
         p = p\<lparr> m_fec_disable := (bw_rtt e > kFecDisableRttMs * 1000 \<or> rr_ce_ratio r > 100) \<rparr>
     in (p, e, st, c, acts))"

text \<open>The peer is the one under the key \<open>k\<close> of the table; the flag tells whether a key frame was asked for.\<close>

definition handle_report :: "endpoint \<Rightarrow> bytes \<Rightarrow> (bytes, peer) omap \<Rightarrow> packet_header \<Rightarrow> bytes \<Rightarrow> time \<Rightarrow> u64 \<Rightarrow>
    bandwidth_estimator \<Rightarrow> pacer \<Rightarrow> send_side \<Rightarrow> capacity_state \<Rightarrow>
    (bytes, peer) omap \<times> bandwidth_estimator \<times> pacer \<times> send_side \<times> capacity_state \<times> link_action list \<times> bool" where
  "handle_report ep k peers header payload now unix e t st c =
    (let (p, e, st, c, acts) = absorb_report ep (the (map_of peers k)) header payload now unix e t st c;
         peers = om_put k p peers;
         (t, st, c, notified) = notify_video_capacity (e_cfg ep) (map snd peers) e now unix t st c
     in (peers, e, t, st, c, acts, notified))"

section \<open>The capacity stays below the rate\<close>

lemma left_for_video_bound:
  assumes "rest \<le> B" "0 \<le> B" "rnd64 B = B" "0 \<le> ratio"
  shows "0 \<le> left_for_video rest ratio" "left_for_video rest ratio \<le> B"
proof -
  have d: "1 \<le> fadd 1 ratio"
    using r64.rnd_ge_int [of 1 "1 + ratio"] assms(4) by (simp add: fadd_def)
  then have "rest / fadd 1 ratio \<le> max rest 0 / 1"
    by (intro frac_le) auto
  then have "rest / fadd 1 ratio \<le> B"
    using assms(1,2) by simp
  then have "fdiv rest (fadd 1 ratio) \<le> B"
    using r64.rnd_le_double [of "rest / fadd 1 ratio" B] assms(3) by (simp add: fdiv_def)
  then show "left_for_video rest ratio \<le> B"
    using assms(2) by (simp add: left_for_video_def Let_def)
qed (simp add: left_for_video_def Let_def)

lemma fsub_le: "0 \<le> y \<Longrightarrow> x \<le> B \<Longrightarrow> rnd64 B = B \<Longrightarrow> fsub x y \<le> B"
  using r64.rnd_le_double [of "x - y" B] by (simp add: fsub_def)

lemma redundancy_nonneg: "0 \<le> fec_redundancy_ratio peers"
  by (simp add: fec_redundancy_ratio_def Let_def fdiv_nonneg fof_nonneg)

lemma audio_share_nonneg: "0 \<le> audio_share cfg"
  by (simp add: audio_share_def fmul_nonneg fadd_nonneg fof_nonneg)

lemma file_rate_nonneg: "0 \<le> fst (file_data_rate_bps now cur c)"
  by (simp add: file_data_rate_bps_def Let_def fdiv_nonneg fmul_nonneg fof_nonneg)

lemma file_rate_fields [simp]:
  "v_evac_slow_btl_snap (snd (file_data_rate_bps now cur c)) = v_evac_slow_btl_snap c"
  "v_evac_processed_cong (snd (file_data_rate_bps now cur c)) = v_evac_processed_cong c"
  "v_last_cap_notified (snd (file_data_rate_bps now cur c)) = v_last_cap_notified c"
  "v_cap_queue (snd (file_data_rate_bps now cur c)) = v_cap_queue c"
  by (simp_all add: file_data_rate_bps_def Let_def)

text \<open>Eight times a rate of at most \<open>2^50\<close> is a double.\<close>

lemma bits_exact:
  assumes "0 \<le> n" "n \<le> 2 ^ 50"
  shows "fmul (fof n) 8 = of_int (8 * n)" "rnd64 (of_int (8 * n)) = of_int (8 * n)"
proof -
  have "fof n = of_int n"
    using assms by (simp add: fof_exact)
  moreover show "rnd64 (of_int (8 * n)) = of_int (8 * n)"
    using assms by (intro rnd64_exact) simp
  ultimately show "fmul (fof n) 8 = of_int (8 * n)"
    by (simp add: fmul_def mult.commute)
qed

lemma rest_bound:
  assumes "0 \<le> n" "n \<le> 2 ^ 50" "0 \<le> a" "0 \<le> b"
  shows "fsub (fsub (fmul (fof n) 8) a) b \<le> of_int (8 * n)"
  using bits_exact [OF assms(1,2)] assms(3,4) by (intro fsub_le) simp_all

lemma drain_rate_bound:
  assumes "uint (v_evac_slow_btl_snap c) \<le> n" "n \<le> 2 ^ 50" "0 \<le> audio" "0 \<le> fd" "0 \<le> ratio" "0 \<le> cap" "cap \<le> of_int (8 * n)"
  shows "0 \<le> drain_rate cfg audio fd ratio cap c" "drain_rate cfg audio fd ratio cap c \<le> of_int (8 * n)"
proof -
  let ?s = "uint (v_evac_slow_btl_snap c)"
  let ?evac = "fdiv (fmul (fof (uint (v_evac_slow_q_bytes c))) 8) (fdiv (fof (uint (c_slowdown_window_ms cfg))) 1000)"
  have n: "0 \<le> n"
    using assms(1) uint_ge_0 order_trans by blast
  have "0 \<le> ?evac"
    by (simp add: fdiv_nonneg fmul_nonneg fof_nonneg)
  then have "fsub (fsub (fsub (fmul (fof ?s) 8) audio) fd) ?evac \<le> of_int (8 * ?s)"
    using rest_bound [of ?s audio fd] bits_exact [of ?s] assms(1-4) by (intro fsub_le) auto
  also have "\<dots> \<le> of_int (8 * n)"
    using assms(1) by (simp only: of_int_le_iff)
  finally have "left_for_video (fsub (fsub (fsub (fmul (fof ?s) 8) audio) fd) ?evac) ratio \<le> of_int (8 * n)"
    by (rule left_for_video_bound(2)) (use n assms(5) bits_exact(2) [OF n assms(2)] in simp_all)
  moreover have "fmul cap (rnd64 (5 / 10)) \<le> of_int (8 * n)"
  proof -
    have half: "rnd64 (5 / 10) = 1 / 2"
      using constant_values(2) by (simp add: kCongestFactor_def)
    have "cap * (1 / 2) \<le> of_int (8 * n)"
      using assms(6,7) by simp
    then show ?thesis
      using r64.rnd_le_double [of "cap * (1 / 2)" "of_int (8 * n)"] by (simp only: fmul_def half bits_exact(2) [OF n assms(2)])
  qed
  ultimately show "drain_rate cfg audio fd ratio cap c \<le> of_int (8 * n)"
    using n by (simp add: drain_rate_def left_for_video_def Let_def split: if_splits)
qed (simp add: drain_rate_def Let_def)

lemma start_evacuation_snap:
  assumes "start_evacuation cfg e now unix t st c = (t', st', c', notified)"
  shows "v_evac_slow_btl_snap c' \<in> {v_evac_slow_btl_snap c, bw_btl e}"
  using assms by (auto simp: start_evacuation_def Let_def split: if_splits)

text \<open>
  The capacity reported to the application never exceeds the rate. For rates up to \<open>2^50\<close> bytes per
  second the number of bits per second left for video is at most eight times the estimated rate, or eight times the
  rate at the start of a slow drain that is under way; the subtraction of the other shares does not wrap.
\<close>

theorem capacity_within_rate:
  assumes "video_capacity_bps cfg peers e now unix t st c = (cap, t', st', c', notified)"
    and "uint (bw_btl e) \<le> n" "uint (v_evac_slow_btl_snap c) \<le> n" "n \<le> 2 ^ 50"
  shows "uint cap \<le> 8 * n"
proof -
  let ?rate = "fst (file_data_rate_bps now (s_fd_tx_bytes st) c)"
  let ?c = "snd (file_data_rate_bps now (s_fd_tx_bytes st) c)"
  let ?fd = "fmul ?rate 8" and ?audio = "audio_share cfg" and ?ratio = "fec_redundancy_ratio peers"
  let ?cap = "left_for_video (fsub (fsub (fmul (fof (uint (bw_btl e))) 8) ?audio) ?fd) ?ratio"
  have n: "0 \<le> n"
    using assms(2) uint_ge_0 order_trans by blast
  have fd: "0 \<le> ?fd"
    using file_rate_nonneg by (simp add: fmul_nonneg)
  have "fsub (fsub (fmul (fof (uint (bw_btl e))) 8) ?audio) ?fd \<le> of_int (8 * uint (bw_btl e))"
    using assms(2,4) by (intro rest_bound audio_share_nonneg fd) simp_all
  also have "\<dots> \<le> of_int (8 * n)"
    using assms(2) by (simp only: of_int_le_iff)
  finally have plain: "0 \<le> ?cap" "?cap \<le> of_int (8 * n)"
    using left_for_video_bound [of _ "of_int (8 * n)" ?ratio] n bits_exact(2) [OF n assms(4)] redundancy_nonneg by simp_all
  obtain ts ss cs ns where start: "start_evacuation cfg e now unix t st ?c = (ts, ss, cs, ns)"
    by (metis prod.exhaust)
  have "uint (v_evac_slow_btl_snap cs) \<le> n"
    using start_evacuation_snap [OF start] assms(2,3) by auto
  note slow = drain_rate_bound [OF this assms(4) audio_share_nonneg [of cfg] fd redundancy_nonneg [of peers] plain, of cfg]
  have cast: "uint (word_of_int (ftrunc x) :: u64) \<le> 8 * n" if "0 \<le> x" "x \<le> of_int (8 * n)" for x
    using ftrunc_nonneg [OF that(1)] ftrunc_le [OF that(2)] by (simp add: uint_word_of_int_eq take_bit_int_less_eq_self_iff order_trans [OF _ ftrunc_le [OF that(2)]])
  have "cap = word_of_int (ftrunc ?cap) \<or> cap = word_of_int (ftrunc (drain_rate cfg ?audio ?fd ?ratio ?cap cs))"
    using assms(1) start by (auto simp: video_capacity_bps_def Let_def split_def split: if_splits)
  then show ?thesis
    using cast [OF plain] cast [OF slow] by blast
qed

lemma capacity_within_rate_witness:
  "uint (fst (video_capacity_bps default_config [new_peer] (new_estimator 1000000) 0 0 idle_pacer two_fragments new_capacity_state)) \<le> 8000000"
proof -
  obtain cap t' st' c' notified where r: "video_capacity_bps default_config [new_peer] (new_estimator 1000000) 0 0 idle_pacer
      two_fragments new_capacity_state = (cap, t', st', c', notified)"
    by (metis prod.exhaust)
  have "uint cap \<le> 8 * 1000000"
    by (rule capacity_within_rate [OF r]) (simp_all add: new_estimator_def new_capacity_state_def kMinBtlBps_def Let_def max_def)
  then show ?thesis
    using r by simp
qed

section \<open>Evacuations end\<close>

text \<open>While a fast evacuation is under way, a freeze is set or the key frame has been submitted.\<close>

definition evac_ok :: "send_side \<Rightarrow> bool" where
  "evac_ok st \<longleftrightarrow> s_evac_mode st \<in> {0, 1, 2} \<and>
     (s_evac_mode st = 1 \<longrightarrow> s_evac_freeze_until_ns st \<noteq> 0 \<or> s_evac_keyframe_sent st)"

text \<open>The steady clock stays below \<open>2^62\<close> nanoseconds, 146 years after the start of the machine.\<close>

lemma freeze_nonzero:
  assumes "0 \<le> now" "now < 2 ^ 62"
  shows "sint (word_of_int (now + kEvacFreezeTotal) :: u64) = now + kEvacFreezeTotal" "word_of_int (now + kEvacFreezeTotal) \<noteq> (0 :: u64)"
proof -
  have "sint (word_of_int x :: u64) = x" if "0 \<le> x" "x < 2 ^ 63" for x
    using that by (simp add: sint_sbintrunc' signed_take_bit_int_eq_self_iff)
  then show s: "sint (word_of_int (now + kEvacFreezeTotal) :: u64) = now + kEvacFreezeTotal"
    using assms by (simp add: kEvacFreezeTotal_def ms_def del: of_int_add)
  show "word_of_int (now + kEvacFreezeTotal) \<noteq> (0 :: u64)"
    using s assms by (auto simp: kEvacFreezeTotal_def ms_def)
qed

lemma clear_outbound_evac [simp]:
  "s_evac_mode (clear_outbound_impl st) = s_evac_mode st"
  "s_evac_freeze_until_ns (clear_outbound_impl st) = s_evac_freeze_until_ns st"
  "s_evac_keyframe_sent (clear_outbound_impl st) = s_evac_keyframe_sent st"
  by (simp_all add: clear_outbound_impl_def Let_def)

lemma start_evacuation_evac:
  assumes "start_evacuation cfg e now unix t st c = (t', st', c', notified)"
  shows "v_evac_processed_cong c' = v_evac_processed_cong c \<and> st' = st \<and> c' = c \<and> \<not> notified \<or>
    v_evac_processed_cong c' \<noteq> v_evac_processed_cong c \<and>
    (s_evac_mode st' = 1 \<and> s_evac_freeze_until_ns st' = word_of_int (now + kEvacFreezeTotal) \<and> notified \<or>
     s_evac_mode st' = 2 \<and> \<not> notified)"
  using assms by (auto simp: start_evacuation_def Let_def split: if_splits)

lemma notify_change_fields [simp]: "v_evac_processed_cong (notify_change cap c) = v_evac_processed_cong c"
  "v_evac_slow_deadline (notify_change cap c) = v_evac_slow_deadline c"
  by (simp_all add: notify_change_def Let_def)

lemma file_rate_deadline [simp]: "v_evac_slow_deadline (snd (file_data_rate_bps now cur c)) = v_evac_slow_deadline c"
  by (simp add: file_data_rate_bps_def Let_def)

text \<open>What a call leaves of the mode, in terms of the start it makes.\<close>

lemma notify_video_capacity_evac:
  assumes "notify_video_capacity cfg peers e now unix t st c = (t', st', c', notified)" "c_slowdown_window_ms cfg > 0"
  obtains ts ss cs where "start_evacuation cfg e now unix t st (snd (file_data_rate_bps now (s_fd_tx_bytes st) c)) = (ts, ss, cs, notified)"
    "st' = (if s_evac_mode ss = 1 then end_freeze now ss else if s_evac_mode ss = 2 then fst (end_slow_drain now ss cs) else ss)"
    "v_evac_processed_cong c' = v_evac_processed_cong cs"
proof -
  obtain ts ss cs ns where start: "start_evacuation cfg e now unix t st (snd (file_data_rate_bps now (s_fd_tx_bytes st) c)) = (ts, ss, cs, ns)"
    by (metis prod.exhaust)
  have "ns = notified" "st' = (if s_evac_mode ss = 1 then end_freeze now ss else if s_evac_mode ss = 2 then fst (end_slow_drain now ss cs) else ss)"
    "v_evac_processed_cong c' = v_evac_processed_cong cs"
    using assms start
    by (auto simp: notify_video_capacity_def video_capacity_bps_def Let_def split_def end_slow_drain_def split: if_splits)
  then show thesis
    using that start by blast
qed

lemma sustained_overload_fields [simp]:
  "v_evac_processed_cong (snd (sustained_overload now cur recv c)) = v_evac_processed_cong c"
  "v_evac_slow_deadline (snd (sustained_overload now cur recv c)) = v_evac_slow_deadline c"
  by (simp_all add: sustained_overload_def Let_def)

lemma absorb_report_fields:
  assumes "absorb_report ep p header payload now unix e t st c = (p', e', st', c', acts)"
  shows "st' = confirm_evacuation st" "v_evac_processed_cong c' = v_evac_processed_cong c" "v_evac_slow_deadline c' = v_evac_slow_deadline c"
proof -
  let ?r = "rr_recv_rate (fst (report_handle p payload now))"
  have "st' = confirm_evacuation st \<and> c' = snd (sustained_overload now (t_tx_bytes t) ?r c)"
    using assms unfolding absorb_report_def by (simp only: Let_def split_def prod.inject fst_conv snd_conv)
  then show "st' = confirm_evacuation st" "v_evac_processed_cong c' = v_evac_processed_cong c" "v_evac_slow_deadline c' = v_evac_slow_deadline c"
    by simp_all
qed

lemma handle_report_notifies:
  assumes "handle_report ep k peers header payload now unix e t st c = (peers', e', t', st', c', acts, notified)"
  obtains ps cs where "notify_video_capacity (e_cfg ep) ps e' now unix t (confirm_evacuation st) cs = (t', st', c', notified)"
    "v_evac_processed_cong cs = v_evac_processed_cong c" "v_evac_slow_deadline cs = v_evac_slow_deadline c"
proof -
  obtain p1 e1 st1 c1 acts1 where a: "absorb_report ep (the (map_of peers k)) header payload now unix e t st c = (p1, e1, st1, c1, acts1)"
    by (metis prod.exhaust)
  then have "notify_video_capacity (e_cfg ep) (map snd (om_put k p1 peers)) e' now unix t st1 c1 = (t', st', c', notified)"
    using assms by (auto simp: handle_report_def Let_def split: prod.splits)
  then show thesis
    using that absorb_report_fields [OF a] by metis
qed

text \<open>
  Evacuations end. The mode is always one of none, fast and slow, and a fast evacuation has a freeze running or its key
  frame submitted; a report keeps this. A report that arrives when the freeze or the slow
  window is over, and does not start another evacuation, ends the one under way.
\<close>

theorem evacuation_ends:
  assumes "handle_report ep k peers header payload now unix e t st c = (peers', e', t', st', c', acts, notified)"
    and "c_slowdown_window_ms (e_cfg ep) > 0" "evac_ok st" "0 \<le> now" "now < 2 ^ 62"
  shows "evac_ok st' \<and>
    (v_evac_processed_cong c' = v_evac_processed_cong c \<and>
     (s_evac_mode st = 1 \<longrightarrow> sint (s_evac_freeze_until_ns st) \<le> now) \<and>
     (s_evac_mode st = 2 \<longrightarrow> v_evac_slow_deadline c \<le> now) \<longrightarrow> s_evac_mode st' = 0)"
proof -
  obtain ps cr where n: "notify_video_capacity (e_cfg ep) ps e' now unix t (confirm_evacuation st) cr = (t', st', c', notified)"
    and cr: "v_evac_processed_cong cr = v_evac_processed_cong c" "v_evac_slow_deadline cr = v_evac_slow_deadline c"
    using handle_report_notifies [OF assms(1)] .
  let ?st = "confirm_evacuation st" and ?cr = "snd (file_data_rate_bps now (s_fd_tx_bytes (confirm_evacuation st)) cr)"
  obtain ts ss cs where start: "start_evacuation (e_cfg ep) e' now unix t ?st ?cr = (ts, ss, cs, notified)"
    and st': "st' = (if s_evac_mode ss = 1 then end_freeze now ss else if s_evac_mode ss = 2 then fst (end_slow_drain now ss cs) else ss)"
    and c': "v_evac_processed_cong c' = v_evac_processed_cong cs"
    using notify_video_capacity_evac [OF n assms(2)] .
  have st: "evac_ok ?st" "s_evac_mode ?st = 1 \<Longrightarrow> \<not> s_evac_keyframe_sent ?st \<and> s_evac_mode st = 1"
    "s_evac_freeze_until_ns ?st = s_evac_freeze_until_ns st" "s_evac_mode ?st = 2 \<Longrightarrow> s_evac_mode st = 2"
    using assms(3) by (auto simp: evac_ok_def confirm_evacuation_def split: if_splits)
  show ?thesis
  proof (cases "v_evac_processed_cong cs = v_evac_processed_cong ?cr")
    case True
    with start_evacuation_evac [OF start] have same: "ss = ?st" "cs = ?cr"
      by auto
    have "evac_ok st'"
      unfolding st' same using st(1,2) by (auto simp: evac_ok_def end_freeze_def end_slow_drain_def Let_def)
    moreover have "s_evac_mode st' = 0" if "s_evac_mode st = 1 \<longrightarrow> sint (s_evac_freeze_until_ns st) \<le> now"
      "s_evac_mode st = 2 \<longrightarrow> v_evac_slow_deadline c \<le> now"
      unfolding st' same using st that cr by (auto simp: evac_ok_def end_freeze_def end_slow_drain_def Let_def)
    ultimately show ?thesis
      by blast
  next
    case False
    then have mode: "s_evac_mode ss = 1 \<and> s_evac_freeze_until_ns ss = word_of_int (now + kEvacFreezeTotal) \<or> s_evac_mode ss = 2"
      using start_evacuation_evac [OF start] by auto
    have "end_freeze now ss = ss" if "s_evac_freeze_until_ns ss = word_of_int (now + kEvacFreezeTotal)"
      using freeze_nonzero [OF assms(4,5)] that by (auto simp: end_freeze_def Let_def kEvacFreezeTotal_def ms_def)
    then have "evac_ok st'"
      unfolding st' using mode freeze_nonzero(2) [OF assms(4,5)] by (auto simp: evac_ok_def end_slow_drain_def)
    then show ?thesis
      using False c' cr by simp
  qed
qed

lemma send_message_evac_ok:
  assumes "send_message cfg now unix peer_id payload priority channel keyframe st = (ok, st')" "evac_ok st"
  shows "evac_ok st'"
  using assms by (auto simp: send_message_def Let_def evac_ok_def enqueue_msg_def split: if_splits)

definition evacuating :: send_side where
  "evacuating = (new_send_side default_config)\<lparr> s_evac_mode := 1, s_evac_freeze_until_ns := 7 \<rparr>"

lemma evacuation_ends_witness:
  "\<exists>peers' e' t' st' c' acts notified.
    handle_report sample_end [1] [([1], new_peer)] zero_header [] 9 0 (new_estimator 1000000) idle_pacer evacuating new_capacity_state =
      (peers', e', t', st', c', acts, notified) \<and> evac_ok st'"
proof -
  obtain peers' e' t' st' c' acts notified where r: "handle_report sample_end [1] [([1], new_peer)] zero_header [] 9 0
      (new_estimator 1000000) idle_pacer evacuating new_capacity_state = (peers', e', t', st', c', acts, notified)"
    by (metis prod.exhaust)
  have "c_slowdown_window_ms (e_cfg sample_end) > 0" "evac_ok evacuating"
    by (simp_all add: sample_end_def default_config_def evac_ok_def evacuating_def)
  then show ?thesis
    using evacuation_ends [OF r] r by simp
qed

section \<open>The rate is frozen while the queues drain\<close>

lemma frozen_rate:
  assumes "absorb_report ep p header payload now unix e t st c = (p', e', st', c', acts)"
    and "in_evac now (confirm_evacuation st) c" "bw_seed_calibrated e"
  shows "bw_btl e' = bw_btl e"
proof -
  have feed: "bw_btl (feed_rtt_from_tick q tick u e) = bw_btl e" "bw_seed_calibrated (feed_rtt_from_tick q tick u e)" for q tick u
    using assms(3) by (simp_all add: feed_rtt_from_tick_def bw_on_ack_def Let_def)
  have report: "bw_btl (bw_on_report s u x) = bw_btl x \<and> bw_seed_calibrated (bw_on_report s u x) = bw_seed_calibrated x"
    if "sg_in_evac_window s" for s u x
    using that by (simp add: bw_on_report_def track_delay_def Let_def)
  have clamp: "bw_set_seed_and_clamp b x = x" if "bw_seed_calibrated x" for b x
    using that by (simp add: bw_set_seed_and_clamp_def)
  let ?r = "fst (report_handle p payload now)"
  let ?c = "snd (sustained_overload now (t_tx_bytes t) (rr_recv_rate ?r) c)"
  have evac: "in_evac now (confirm_evacuation st) ?c"
    using assms(2) by (simp add: in_evac_def)
  have "\<exists>q late capped overload. e' = (let e = bw_on_report (signals_of q ?r late capped overload (in_evac now (confirm_evacuation st) ?c))
              now (feed_rtt_from_tick p (h_tick header) unix e)
            in if rr_probe_bw ?r > 0 then bw_set_seed_and_clamp (rr_probe_bw ?r) e else e)"
    using assms(1) unfolding absorb_report_def
    by (simp only: Let_def split_def prod.inject fst_conv snd_conv) blast
  moreover have "sg_in_evac_window (signals_of q ?r late capped overload (in_evac now (confirm_evacuation st) ?c))" for q late capped overload
    using evac by (simp add: signals_of_def)
  ultimately obtain s where s: "sg_in_evac_window s" and e': "e' = (let e = bw_on_report s now (feed_rtt_from_tick p (h_tick header) unix e)
            in if rr_probe_bw ?r > 0 then bw_set_seed_and_clamp (rr_probe_bw ?r) e else e)"
    by blast
  show ?thesis
    using report [OF s] feed clamp by (simp add: e' Let_def)
qed

text \<open>Messages submitted one after the other, each at its time.\<close>

fun submit_all :: "tight_config \<Rightarrow> (time \<times> send_msg \<times> bool) list \<Rightarrow> send_side \<Rightarrow> send_side" where
  "submit_all cfg [] st = st"
| "submit_all cfg ((now, m, keyframe) # msgs) st =
    submit_all cfg msgs (snd (send_message cfg now 0 (sm_peer m) (sm_payload m) 0 (sm_channel m) keyframe st))"

definition frozen_until :: "time \<Rightarrow> send_side \<Rightarrow> bool" where
  "frozen_until d st \<longleftrightarrow> 0 < sint (s_evac_freeze_until_ns st) \<and> d \<le> sint (s_evac_freeze_until_ns st)"

lemma send_message_frozen:
  assumes "frozen_until d st" "0 \<le> now" "now < 2 ^ 62"
  shows "frozen_until d (snd (send_message cfg now unix peer_id payload priority channel keyframe st))"
proof -
  have "sint (word_of_int (now + kKeyframeHoldTotal) :: u64) = now + kKeyframeHoldTotal"
    unfolding sint_sbintrunc' by (rule signed_take_bit_int_eq_self) (use assms(2,3) in \<open>simp_all add: kKeyframeHoldTotal_def ms_def\<close>)
  then show ?thesis
    using assms(1) by (auto simp: send_message_def Let_def frozen_until_def enqueue_msg_def)
qed

lemma submit_all_frozen:
  "frozen_until d st \<Longrightarrow> \<forall>(now, m, keyframe) \<in> set msgs. 0 \<le> now \<and> now < 2 ^ 62 \<Longrightarrow> frozen_until d (submit_all cfg msgs st)"
proof (induction cfg msgs st rule: submit_all.induct)
  case (2 cfg now m keyframe msgs st)
  then show ?case
    using send_message_frozen [of d st now] by simp
qed simp

lemma evacuation_freezes:
  assumes "handle_report ep k peers header payload now unix e t st c = (peers', e', t', st', c', acts, True)"
    and "c_slowdown_window_ms (e_cfg ep) > 0" "0 \<le> now" "now < 2 ^ 62"
  shows "frozen_until (now + kEvacFreezeTotal) st'"
proof -
  obtain ps cr where n: "notify_video_capacity (e_cfg ep) ps e' now unix t (confirm_evacuation st) cr = (t', st', c', True)"
    using handle_report_notifies [OF assms(1)] by metis
  obtain ts ss cs where start: "start_evacuation (e_cfg ep) e' now unix t (confirm_evacuation st)
      (snd (file_data_rate_bps now (s_fd_tx_bytes (confirm_evacuation st)) cr)) = (ts, ss, cs, True)"
    and st': "st' = (if s_evac_mode ss = 1 then end_freeze now ss else if s_evac_mode ss = 2 then fst (end_slow_drain now ss cs) else ss)"
    using notify_video_capacity_evac [OF n assms(2)] by metis
  have "s_evac_mode ss = 1" "s_evac_freeze_until_ns ss = word_of_int (now + kEvacFreezeTotal)"
    using start_evacuation_evac [OF start] by auto
  then show ?thesis
    using freeze_nonzero [OF assms(3,4)] assms(3)
    by (auto simp: st' end_freeze_def Let_def frozen_until_def kEvacFreezeTotal_def ms_def simp del: of_int_add)
qed

text \<open>
  After a fast evacuation the rate is frozen. When a report makes the sender clear its queues and ask for a key frame,
  then, whatever messages and key frames the application submits meanwhile, a report of any peer that arrives within three
  seconds leaves the rate as it is, once the rate has been calibrated.
\<close>

theorem rate_frozen_after_evacuation:
  assumes "handle_report ep k peers header payload now unix e t st c = (peers1, e1, t1, st1, c1, acts, True)"
    and "c_slowdown_window_ms (e_cfg ep) > 0" "0 \<le> now" "now < 2 ^ 62" "\<forall>(u, m, keyframe) \<in> set msgs. 0 \<le> u \<and> u < 2 ^ 62"
    and "handle_report ep k2 peers2 header2 payload2 now2 unix2 e1 t2 (submit_all cfg msgs st1) c1 = (peers3, e3, t3, st3, c3, acts3, notified)"
    and "now2 < now + kEvacFreezeTotal" "bw_seed_calibrated e1"
  shows "bw_btl e3 = bw_btl e1"
proof -
  have "frozen_until (now + kEvacFreezeTotal) (submit_all cfg msgs st1)"
    using submit_all_frozen [OF evacuation_freezes [OF assms(1-4)] assms(5)] .
  then have evac: "in_evac now2 (confirm_evacuation (submit_all cfg msgs st1)) c1"
    using assms(7) by (auto simp: frozen_until_def in_evac_def confirm_evacuation_def)
  obtain p e st c' acts' where a: "absorb_report ep (the (map_of peers2 k2)) header2 payload2 now2 unix2 e1 t2 (submit_all cfg msgs st1) c1 = (p, e, st, c', acts')"
    by (metis prod.exhaust)
  have "e3 = e"
    using assms(6) by (auto simp: handle_report_def Let_def a split: prod.splits)
  then show ?thesis
    using frozen_rate [OF a evac assms(8)] by simp
qed

definition slowed :: bandwidth_estimator where
  "slowed = (new_estimator 1000000)\<lparr> bw_last_congest_at := 5, bw_last_congest_factor := 1 / 2, bw_seed_calibrated := True \<rparr>"

lemma quiet_report_keeps_slowdown:
  assumes "\<not> is_congested s (track_delay (sg_p50_ms s) (e\<lparr> bw_report_stall := False \<rparr>))"
  shows "bw_last_congest_at (bw_on_report s now e) = bw_last_congest_at e"
    "bw_last_congest_factor (bw_on_report s now e) = bw_last_congest_factor e"
    "bw_seed_calibrated (bw_on_report s now e) = bw_seed_calibrated e"
  using assms by (simp_all add: bw_on_report_def Let_def recover_def track_delay_def)

lemma zeros: "fdiv 0 x = 0" "fmul x 0 = 0" "fadd 0 0 = 0" "fof 0 = 0"
  by (simp_all add: fdiv_def fmul_def fadd_def fof_def r64.rnd_0)

lemma slowed_absorbs:
  "\<exists>p e st c acts. absorb_report sample_end new_peer zero_header [] 9 0 slowed idle_pacer two_fragments new_capacity_state = (p, e, st, c, acts) \<and>
    bw_last_congest_at e = 5 \<and> bw_last_congest_factor e = 1 / 2 \<and> bw_seed_calibrated e \<and> st = two_fragments \<and> v_evac_processed_cong c = 0"
proof -
  have report: "report_handle new_peer [] 9 = (zero_result, new_peer, [])"
    by (simp add: report_handle_def parse_report_def)
  have feed: "feed_rtt_from_tick new_peer 0 0 slowed = slowed"
    by (simp add: feed_rtt_from_tick_def transit_time_us_def Let_def)
  have fields: "\<not> rr_probe_bw zero_result > 0" "h_tick zero_header = 0" "t_pacer_limited idle_pacer = False"
    by (simp_all add: zero_result_def zero_header_def idle_pacer_def)
  have late: "frame_late_of (e_cfg sample_end) (new_peer\<lparr> m_last_report_at := 9 \<rparr>) slowed zero_result = -1"
    by (simp add: frame_late_of_def zero_result_def Let_def)
  have thresholds: "0 \<le> kLateThreshold" "0 \<le> kCeThreshold" "0 \<le> kDelayThresholdMs"
    by (simp_all add: kLateThreshold_def kCeThreshold_def kDelayThresholdMs_def rnd64_nonneg)
  have quiet: "\<not> is_congested (signals_of (new_peer\<lparr> m_last_report_at := 9 \<rparr>) zero_result (-1) False overload evac)
      (track_delay 0 (slowed\<lparr> bw_report_stall := False \<rparr>))" for overload evac
    using thresholds by (simp add: is_congested_def track_delay_def signals_of_def zero_result_def zeros Let_def slowed_def
        new_estimator_def new_peer_def not_less)
  have p50: "sg_p50_ms (signals_of (new_peer\<lparr> m_last_report_at := 9 \<rparr>) zero_result (-1) False overload evac) = 0" for overload evac
    by (simp add: signals_of_def new_peer_def)
  note keeps = quiet_report_keeps_slowdown [of "signals_of (new_peer\<lparr> m_last_report_at := 9 \<rparr>) zero_result (-1) False overload evac" slowed for overload evac,
      unfolded p50, OF quiet]
  obtain p e st c acts where a: "absorb_report sample_end new_peer zero_header [] 9 0 slowed idle_pacer two_fragments new_capacity_state = (p, e, st, c, acts)"
    by (metis prod.exhaust)
  have "\<exists>overload evac. e = bw_on_report (signals_of (new_peer\<lparr> m_last_report_at := 9 \<rparr>) zero_result (-1) False overload evac) 9 slowed"
    using a by (auto simp: absorb_report_def report feed late fields Let_def split_def)
  then have "bw_last_congest_at e = 5 \<and> bw_last_congest_factor e = 1 / 2 \<and> bw_seed_calibrated e"
    using keeps by (auto simp: slowed_def)
  moreover have "st = two_fragments" "v_evac_processed_cong c = 0"
    using absorb_report_fields [OF a] by (simp_all add: confirm_evacuation_def two_fragments_def new_send_side_def Let_def new_capacity_state_def)
  ultimately show ?thesis
    using a by blast
qed

lemma slowed_evacuates:
  "\<exists>peers' e' t' st' c' acts. handle_report sample_end [1] [([1], new_peer)] zero_header [] 9 0 slowed idle_pacer two_fragments new_capacity_state =
    (peers', e', t', st', c', acts, True) \<and> bw_seed_calibrated e'"
proof -
  obtain p e st c acts where a: "absorb_report sample_end new_peer zero_header [] 9 0 slowed idle_pacer two_fragments new_capacity_state = (p, e, st, c, acts)"
    and e: "bw_last_congest_at e = 5" "bw_last_congest_factor e = 1 / 2" "bw_seed_calibrated e" "v_evac_processed_cong c = 0"
    using slowed_absorbs by blast
  have half: "1 / 2 \<le> kEvacFastMaxFactor"
    by code_simp
  have cfg: "c_slowdown_window_ms (e_cfg sample_end) = 3000"
    by (simp add: sample_end_def default_config_def)
  have "snd (snd (snd (notify_video_capacity (e_cfg sample_end) ps e 9 0 idle_pacer st c)))" for ps
    using e half cfg by (simp add: notify_video_capacity_def video_capacity_bps_def start_evacuation_def Let_def split_def ms_def)
  then show ?thesis
    using a e(3) by (fastforce simp: handle_report_def Let_def split_def)
qed

lemma rate_frozen_after_evacuation_witness:
  "\<exists>peers1 e1 t1 st1 c1 acts1 peers3 e3 t3 st3 c3 acts3 notified.
    handle_report sample_end [1] [([1], new_peer)] zero_header [] 9 0 slowed idle_pacer two_fragments new_capacity_state =
      (peers1, e1, t1, st1, c1, acts1, True) \<and>
    handle_report sample_end [1] peers1 zero_header [] 2000000000 0 e1 t1
      (submit_all default_config [(11, \<lparr> sm_peer = [1], sm_payload = [8], sm_channel = 0 \<rparr>, True)] st1) c1 =
      (peers3, e3, t3, st3, c3, acts3, notified) \<and> bw_btl e3 = bw_btl e1"
proof -
  obtain peers1 e1 t1 st1 c1 acts1 where one: "handle_report sample_end [1] [([1], new_peer)] zero_header [] 9 0 slowed idle_pacer
      two_fragments new_capacity_state = (peers1, e1, t1, st1, c1, acts1, True)" "bw_seed_calibrated e1"
    using slowed_evacuates by blast
  obtain peers3 e3 t3 st3 c3 acts3 notified where two: "handle_report sample_end [1] peers1 zero_header [] 2000000000 0 e1 t1
      (submit_all default_config [(11, \<lparr> sm_peer = [1], sm_payload = [8], sm_channel = 0 \<rparr>, True)] st1) c1 =
      (peers3, e3, t3, st3, c3, acts3, notified)"
    by (metis prod.exhaust)
  have "bw_btl e3 = bw_btl e1"
    by (rule rate_frozen_after_evacuation [OF one(1) _ _ _ _ two _ one(2)])
      (simp_all add: sample_end_def default_config_def kEvacFreezeTotal_def ms_def)
  then show ?thesis
    using one two by blast
qed

section \<open>Notifications\<close>

text \<open>
  The application is told of every large change. After each look at the capacity, the value the application was last told
  differs from the current one by at most 100000 bits per second, or by at most a tenth. (Values below \<open>2^60\<close>; told means
  put into the queue of the notification thread, if it has room.)
\<close>

theorem told_capacity_close:
  assumes "v_last_cap_notified (notify_change cap c) = told" "uint cap < 2 ^ 60" "uint (v_last_cap_notified c) < 2 ^ 60"
  shows "\<bar>uint cap - uint told\<bar> \<le> 100000 \<or> 10 * \<bar>uint cap - uint told\<bar> \<le> uint told"
proof -
  define last where "last = v_last_cap_notified c"
  define delta where "delta = (if cap > last then cap - last else last - cap)"
  have delta: "uint delta = \<bar>uint cap - uint last\<bar>"
    by (simp add: delta_def uint_sub_if' word_less_def)
  then have "uint delta < 2 ^ 60"
    using assms(2,3) uint_ge_0 [of cap] uint_ge_0 [of last] unfolding last_def by linarith
  then have ten: "uint (delta * 10) = 10 * uint delta"
    by (subst uint_mult_lem [THEN iffD1]) auto
  show ?thesis
  proof (cases "last = 0 \<or> delta * 10 > last \<and> delta > 100000")
    case True
    then have "told = cap"
      using assms(1) by (auto simp: notify_change_def Let_def last_def delta_def)
    then show ?thesis
      by simp
  next
    case False
    then have "told = last"
      using assms(1) by (auto simp: notify_change_def Let_def last_def delta_def split: if_splits)
    then show ?thesis
      using False delta ten by (auto simp: word_less_def not_less)
  qed
qed

lemma told_capacity_close_witness:
  "\<bar>uint (500000 :: u64) - uint (v_last_cap_notified (notify_change 500000 (new_capacity_state\<lparr> v_last_cap_notified := 450000 \<rparr>)))\<bar> \<le> 100000"
  using told_capacity_close [of 500000 "new_capacity_state\<lparr> v_last_cap_notified := 450000 \<rparr>", OF refl]
  by (simp add: notify_change_def new_capacity_state_def)

text \<open>A full queue loses the notification although the value is remembered as told.\<close>

lemma full_queue_loses_notification:
  assumes "length (fifo_items (v_cap_queue c)) = fifo_capacity (v_cap_queue c)" "0 < fifo_capacity (v_cap_queue c)" "v_last_cap_notified c = 0"
  shows "v_cap_queue (notify_change cap c) = v_cap_queue c \<and> v_last_cap_notified (notify_change cap c) = cap"
  using assms by (simp add: notify_change_def fifo_try_push_def full_def Let_def)

end
