(* ===== verification/Spec2Isabelle.thy ===== *)
theory Spec2Isabelle
  imports Wire Reed_Solomon Ordered_Map Blocking_Queue Buffer_Pool Command_Channel Delivery Reporting X25519 Aes_Gcm Bandwidth Send_Queue File_Transfer Secure_Channel Link Pacing Capacity
begin

text \<open>
  Verification library for \<open>tight\<close>, a real-time transport over UDP in C++ (\<open>src/\<close> and \<open>include/tight/\<close> of the repository;
  paths below are relative to its root). Definitions carry the names of the functions they model; a field of a record
  has the name of the member, sometimes with a short prefix.

  The program. An application submits messages on eight channels (\<open>tight.hpp\<close>, \<open>src/transport.cpp\<close>). They wait by priority,
  are moved to the encoder, cut into fragments with Reed-Solomon parities (\<open>src/fragmenter.cpp\<close>, \<open>src/fec.cpp\<close>), put into
  packets, sealed (\<open>src/crypto.cpp\<close>), encoded with a checksum (\<open>src/packet_codec.cpp\<close>, \<open>src/crc32.cpp\<close>) and sent at the
  pace of a token bucket. The receiver decodes and opens them, puts messages together (\<open>src/reassembler.cpp\<close>), answers
  commands in order (\<open>src/command.cpp\<close>) and reports what it measured (\<open>src/report.cpp\<close>); from the reports the sender resends
  packets, adapts its rate (\<open>src/bandwidth.cpp\<close>) and its parities, and tells the application how much video it can send.
\<close>

text \<open>
  Theories, from the bottom up.

  \<^item> \<open>Tight_Prelude\<close>: machine types, memory images of integers on a little-endian host, byte buffers, generic lemmas.
  \<^item> \<open>Binary64\<close>: the arithmetic of \<open>double\<close> as correctly rounded rationals (locale \<open>rounding\<close>), exponent unbounded.
  \<^item> \<open>Ordered_Map\<close>: \<open>std::map\<close> as association lists in key order (locale \<open>ordered_map\<close>).
  \<^item> \<open>Wire\<close>: \<open>wire_format.hpp\<close>, \<open>crc32.cpp\<close>, \<open>packet_codec.cpp\<close>. Round trip, the table-driven checksum as polynomial
    division, refusal of bursts.
  \<^item> \<open>Galois\<close>, \<open>Reed_Solomon\<close>: \<open>fec.cpp\<close>. The tables form the field \<open>gf\<close>; decoding never returns wrong bytes, and succeeds
    for parity indices that form a run.
  \<^item> \<open>Blocking_Queue\<close>: \<open>include/tight/blocking_queue.hpp\<close> with its heap of nodes. The locale \<open>bounded_fifo\<close> states the list it
    stands for, the locale \<open>call_refinement\<close> lifts the agreement of single calls with an abstract queue to runs of all six
    calls; storage bounds, the destructor, and the monitor as a step relation without lost wakeups.
  \<^item> \<open>Buffer_Pool\<close>: \<open>buffer_pool.hpp\<close>, free lists per thread over one heap.
  \<^item> \<open>Peer\<close>: the record of \<open>peer.hpp\<close>, shared by all handlers below.
  \<^item> \<open>Command_Channel\<close>: \<open>command.cpp\<close>. Delivery in order and at most once, release of held commands.
  \<^item> \<open>Reassembler\<close>: \<open>reassembler.cpp\<close> (\<open>handle_data\<close>, \<open>try_assemble\<close>), every access to a fragment vector checked; cursor and
    gaps, freedom from accesses out of range for packets whose counts agree, and the access out of range for others.
  \<^item> \<open>Fragmenter\<close>: \<open>fragmenter.cpp\<close>. Identifiers and bounds of the adaptive parity count.
  \<^item> \<open>Data_Packet\<close>: the configuration and \<open>send_data_packet\<close>. \<open>Delivery\<close> joins sender and receiver: a message comes out as it
    went in or not at all, and comes out if enough fragments arrive.
  \<^item> \<open>Reporting\<close>: \<open>report.cpp\<close>, both directions. Round trip, retransmissions and their bound, ratios.
  \<^item> \<open>Sha256\<close>, \<open>Field25519\<close>, \<open>X25519\<close>, \<open>Aes_Gcm\<close>: \<open>crypto.cpp\<close>. Streaming against one-shot hashing (locale \<open>stream_hash\<close>), limb
    arithmetic without overflow, the ladder, counter blocks, the authenticated round trip.
  \<^item> \<open>Secure_Channel\<close>: \<open>build_nonce\<close>, \<open>build_wire_packet\<close>, the opening of datagrams.
  \<^item> \<open>Bandwidth\<close>: \<open>bandwidth.cpp\<close>. Bounded steps of the rate, with the exception below the floor, and recovery.
  \<^item> \<open>Send_Queue\<close>: \<open>send_message\<close>, \<open>process_send_queue\<close> and the clearing of queues. The queues are their contents here; both
    \<open>Blocking_Queue\<close> and \<open>fifo\<close> are instances of the locale \<open>bounded_fifo\<close>.
  \<^item> \<open>File_Transfer\<close>: manifests, chunks, the dispatch of delivered messages.
  \<^item> \<open>Link\<close>: control packets, handshake and keys, clocks, acknowledgments, commands, the periodic duties, closing.
  \<^item> \<open>Pacing\<close>: the token bucket and one heartbeat of \<open>sender_loop\<close> and of \<open>drain_sender\<close>.
  \<^item> \<open>Capacity\<close>: \<open>video_capacity_bps\<close>, \<open>notify_video_capacity\<close> and \<open>handle_report\<close>. The capacity stays within the rate, evacuations
    end, the rate is frozen meanwhile, large changes are told.
\<close>

text \<open>
  Conventions. A handler is a function from the state it touches, its arguments and the clocks it reads to the new state and
  the list of what it sends and reports, in order; a mutex makes it one step, and a second reading of a clock is a second
  argument where the result depends on it. Points in time are nanoseconds, 0 the time point never set. Errors are values: an
  access out of range or to an absent fragment is \<open>Inl\<close> of an \<open>rx_error\<close>, a bad pointer of the queue is \<open>None\<close>. Integers have
  the width of the code and wrap.

  Parameters are what the sources do not define: \<open>std::log2\<close> in the fragmenter, the random device (the private key is an
  argument), the peer table and reachability of a socket.

  Termination. Every loop is a total function; those without structural recursion have a measure, among them the cursor of the
  reassembler and the skip of zero in message identifiers. The one fuel is that of \<open>drain_list\<close> in the destructor of the
  queue, the number of its nodes, shown to be enough in \<open>Blocking_Queue\<close>.

  Not modelled: sockets, ECN control messages and threads (\<open>socket_platform.hpp\<close>, \<open>ecn_platform.hpp\<close>, \<open>wsa.cpp\<close>,
  \<open>small_thread.hpp\<close>), name resolution (\<open>address.cpp\<close>) and logging, which are system calls or output; the loops of the threads
  beyond one beat, the peer table and the setters of callbacks, which only call the functions modelled here; exhaustion of
  memory. The steps of two threads inside one beat of the sender are not interleaved.
\<close>

end
